(* ===== verification/Kernel_Prelude.thy ===== *)
theory Kernel_Prelude
  imports Main "HOL-Library.Word" "HOL-Library.Monad_Syntax" "HOL-Library.Code_Target_Numeral"
begin

text \<open>
  Shared vocabulary of the development: machine integers, results and panics, and the
  generic facts on lists, sums and maps that the component theories use.

  The kernel is built in release mode, so \<open>+\<close>, \<open>-\<close> and \<open>*\<close> on machine integers wrap and
  \<open>debug_assert!\<close> is not executed, while \<open>assert!\<close>, \<open>unwrap\<close> and slice indexing panic.
  A panic is the value \<open>None\<close> of an option. An error return is the left injection of a sum.
\<close>

section \<open>Machine integers\<close>

type_synonym u8 = "8 word"
type_synonym u16 = "16 word"
type_synonym u32 = "32 word"
type_synonym u64 = "64 word"

text \<open>
  A \<open>usize\<close> used as an index or as a count is a \<open>nat\<close>; the saturating operations of the
  standard library are written out against the largest machine value.
\<close>

definition usize_max :: nat where
  "usize_max = 2 ^ 64 - 1"

definition sat_add :: "nat \<Rightarrow> nat \<Rightarrow> nat" where
  "sat_add a b = min usize_max (a + b)"

definition sat_sub :: "nat \<Rightarrow> nat \<Rightarrow> nat" where
  "sat_sub a b = a - b"

definition wrap_add :: "nat \<Rightarrow> nat \<Rightarrow> nat" where
  "wrap_add a b = (a + b) mod 2 ^ 64"

definition wrap_sub :: "nat \<Rightarrow> nat \<Rightarrow> nat" where
  "wrap_sub a b = (a + (2 ^ 64 - b mod 2 ^ 64)) mod 2 ^ 64"

lemma wrap_add_exact: "a + b \<le> usize_max \<Longrightarrow> wrap_add a b = a + b"
  by (simp add: wrap_add_def usize_max_def)

lemma wrap_sub_exact: "b \<le> a \<Longrightarrow> a \<le> usize_max \<Longrightarrow> wrap_sub a b = a - b"
  by (simp add: wrap_sub_def usize_max_def mod_if)

lemma sat_add_exact: "a + b \<le> usize_max \<Longrightarrow> sat_add a b = a + b"
  by (simp add: sat_add_def)

lemma sat_add_le: "sat_add a b \<le> a + b"
  by (simp add: sat_add_def)

lemma sat_add_bound [simp]: "sat_add a b \<le> usize_max"
  by (simp add: sat_add_def)

lemma sat_add_mono: "a \<le> a' \<Longrightarrow> sat_add a b \<le> sat_add a' b"
  by (auto simp: sat_add_def)

lemma sat_add_ge: "a \<le> usize_max \<Longrightarrow> a \<le> sat_add a b"
  by (simp add: sat_add_def)

section \<open>Results\<close>

abbreviation Ok :: "'a \<Rightarrow> 'e + 'a" where
  "Ok \<equiv> Inr"

abbreviation Err :: "'e \<Rightarrow> 'e + 'a" where
  "Err \<equiv> Inl"

section \<open>Checked indexing and loops\<close>

text \<open>
  \<open>v[i]\<close> and \<open>v[i] = x\<close> panic out of bounds; \<open>resize\<close> cuts or pads; \<open>for_opt\<close> is a \<open>for\<close> loop
  whose body may panic and \<open>all_opt\<close> a short-circuiting \<open>all\<close> whose test may.
\<close>

definition idx :: "'a list \<Rightarrow> nat \<Rightarrow> 'a option" where
  "idx xs i = (if i < length xs then Some (xs ! i) else None)"

definition put :: "'a list \<Rightarrow> nat \<Rightarrow> 'a \<Rightarrow> 'a list option" where
  "put xs i v = (if i < length xs then Some (xs[i := v]) else None)"

definition resize :: "'a list \<Rightarrow> nat \<Rightarrow> 'a \<Rightarrow> 'a list" where
  "resize xs n v = take n xs @ replicate (n - length xs) v"

fun for_opt :: "('s \<Rightarrow> 'a \<Rightarrow> 's option) \<Rightarrow> 's \<Rightarrow> 'a list \<Rightarrow> 's option" where
  "for_opt f s [] = Some s"
| "for_opt f s (x # xs) = Option.bind (f s x) (\<lambda>s'. for_opt f s' xs)"

fun all_opt :: "('a \<Rightarrow> bool option) \<Rightarrow> 'a list \<Rightarrow> bool option" where
  "all_opt p [] = Some True"
| "all_opt p (x # xs) = Option.bind (p x) (\<lambda>b. if b then all_opt p xs else Some False)"

lemma idx_in [simp]: "i < length xs \<Longrightarrow> idx xs i = Some (xs ! i)"
  by (simp add: idx_def)

lemma put_in [simp]: "i < length xs \<Longrightarrow> put xs i v = Some (xs[i := v])"
  by (simp add: put_def)

lemma put_SomeD: "put xs i v = Some ys \<Longrightarrow> i < length xs \<and> ys = xs[i := v]"
  by (simp add: put_def split: if_splits)

lemma idx_SomeD: "idx xs i = Some y \<Longrightarrow> i < length xs \<and> y = xs ! i"
  by (simp add: idx_def split: if_splits)

lemma length_resize [simp]: "length (resize xs n v) = n"
  by (simp add: resize_def)

lemma set_resize: "set (resize xs n v) \<subseteq> insert v (set xs)"
  by (auto simp: resize_def dest: in_set_takeD split: if_splits)

lemma for_opt_append:
  "for_opt f s (xs @ ys) = Option.bind (for_opt f s xs) (\<lambda>s'. for_opt f s' ys)"
proof (induction xs arbitrary: s)
  case (Cons x xs)
  then show ?case by (cases "f s x") simp_all
qed simp

lemma for_opt_inv:
  assumes "P s" and "\<And>s x. x \<in> set xs \<Longrightarrow> P s \<Longrightarrow> \<exists>s'. f s x = Some s' \<and> P s'"
  shows "\<exists>s'. for_opt f s xs = Some s' \<and> P s'"
  using assms
proof (induction xs arbitrary: s)
  case (Cons x xs)
  obtain s1 where "f s x = Some s1" "P s1" using Cons.prems by fastforce
  then show ?case using Cons.IH [of s1] Cons.prems(2) by auto
qed simp

lemma for_opt_upt:
  assumes "P 0 s" and "\<And>i s. i < n \<Longrightarrow> P i s \<Longrightarrow> \<exists>s'. f s i = Some s' \<and> P (Suc i) s'"
  shows "\<exists>s'. for_opt f s [0..<n] = Some s' \<and> P n s'"
  using assms(2)
proof (induction n)
  case 0
  then show ?case using assms(1) by simp
next
  case (Suc n)
  then obtain s1 where "for_opt f s [0..<n] = Some s1" "P n s1" by fastforce
  moreover obtain s2 where "f s1 n = Some s2" "P (Suc n) s2" using Suc.prems calculation(2) by blast
  ultimately show ?case by (simp add: for_opt_append)
qed

lemma all_opt_total:
  "(\<And>x. x \<in> set xs \<Longrightarrow> p x = Some (q x)) \<Longrightarrow> all_opt p xs = Some (\<forall>x\<in>set xs. q x)"
  by (induction xs) auto

section \<open>Little-endian byte strings\<close>

fun le_bytes :: "nat \<Rightarrow> nat \<Rightarrow> u8 list" where
  "le_bytes 0 v = []"
| "le_bytes (Suc n) v = of_nat v # le_bytes n (v div 256)"

fun le_value :: "u8 list \<Rightarrow> nat" where
  "le_value [] = 0"
| "le_value (b # bs) = unat b + 256 * le_value bs"

lemma length_le_bytes [simp]: "length (le_bytes n v) = n"
  by (induction n arbitrary: v) auto

lemma le_value_bytes [simp]: "le_value (le_bytes n v) = v mod 256 ^ n"
proof (induction n arbitrary: v)
  case (Suc n)
  have "unat (of_nat v :: u8) = v mod 256" by (simp add: unat_of_nat)
  then show ?case by (simp add: Suc mod_mult2_eq)
qed simp

lemma le_value_bound: "le_value bs < 256 ^ length bs"
proof (induction bs)
  case (Cons b bs)
  have b: "unat b < 256" using unsigned_less [of b, where ?'a = nat] by simp
  have "unat b + 256 * le_value bs < 256 + 256 * le_value bs" using b by simp
  also have "\<dots> = 256 * Suc (le_value bs)" by simp
  also have "\<dots> \<le> 256 * 256 ^ length bs" using Cons by (intro mult_le_mono2) simp
  finally show ?case by simp
qed simp

lemma le_bytes_value [simp]: "le_bytes (length bs) (le_value bs) = bs"
proof (induction bs)
  case (Cons b bs)
  have b: "unat b < 256" using unsigned_less [of b, where ?'a = nat] by simp
  have z: "(256 :: u8) = 0" by code_simp
  have "(of_nat (unat b + 256 * le_value bs) :: u8) = b + 256 * of_nat (le_value bs)" by simp
  also have "\<dots> = b" by (simp only: z mult_zero_left add_0_right)
  finally show ?case using b Cons by simp
qed simp

section \<open>Fact collections\<close>

named_theorems step_simps \<open>one-step equations of the modelled operations\<close>
named_theorems inv_intros \<open>preservation of component invariants\<close>

section \<open>Lists\<close>

lemma set_butlast_distinct:
  "xs \<noteq> [] \<Longrightarrow> distinct xs \<Longrightarrow> set (butlast xs) = set xs - {last xs}"
  by (cases xs rule: rev_cases) auto

lemma sum_list_update_nat:
  "i < length xs \<Longrightarrow> sum_list (xs[i := (y::nat)]) + xs ! i = sum_list xs + y"
  by (simp add: sum_list_update trans_le_add1 elem_le_sum_list)

lemma foldl_inv: "P s \<Longrightarrow> (\<And>s x. P s \<Longrightarrow> P (f s x)) \<Longrightarrow> P (foldl f s xs)"
  by (induction xs arbitrary: s) auto

end
