(* ===== verification/Deadlock.thy ===== *)
theory Deadlock
  imports Kernel_Prelude
begin

text \<open>
  The deadlock detector of a process (\<open>os/src/sync/deadlock.rs\<close>): a banker's-algorithm check over
  the available units, the allocation matrix and the need matrix. Rows are threads, columns are
  resources. Indexing that would panic is \<open>None\<close>.
\<close>

record detector =
  available :: "nat list"
  allocation :: "nat list list"
  need :: "nat list list"

definition detector_new :: detector where
  "detector_new = \<lparr>available = [], allocation = [], need = []\<rparr>"

definition idx2 :: "'a list list \<Rightarrow> nat \<Rightarrow> nat \<Rightarrow> 'a option" where
  "idx2 m i j = do { row \<leftarrow> idx m i; idx row j }"

definition put2 :: "'a list list \<Rightarrow> nat \<Rightarrow> nat \<Rightarrow> 'a \<Rightarrow> 'a list list option" where
  "put2 m i j v = do { row \<leftarrow> idx m i; row' \<leftarrow> put row j v; put m i row' }"

definition ensure_thread :: "detector \<Rightarrow> nat \<Rightarrow> detector" where
  "ensure_thread d tid =
     (if length (allocation d) \<le> tid then
        let resource_n = length (available d) in
        d\<lparr>allocation := resize (allocation d) (tid + 1) (replicate resource_n 0),
          need := resize (need d) (tid + 1) (replicate resource_n 0)\<rparr>
      else d)"

definition ensure_resource :: "detector \<Rightarrow> nat \<Rightarrow> detector" where
  "ensure_resource d rid =
     (if length (available d) \<le> rid then
        let new_len = rid + 1 in
        d\<lparr>available := resize (available d) new_len 0,
          allocation := map (\<lambda>row. resize row new_len 0) (allocation d),
          need := map (\<lambda>row. resize row new_len 0) (need d)\<rparr>
      else d)"

definition init_resource :: "detector \<Rightarrow> nat \<Rightarrow> nat \<Rightarrow> detector option" where
  "init_resource d rid tot =
     (let d = ensure_resource d rid in do {
        allocated \<leftarrow> for_opt (\<lambda>a row. do { b \<leftarrow> idx row rid; Some (sat_add a b) }) 0 (allocation d);
        av \<leftarrow> put (available d) rid (sat_sub tot allocated);
        Some (d\<lparr>available := av\<rparr>)
      })"

text \<open>One iteration of the inner \<open>for i in 0..thread_n\<close> of \<open>is_safe_state\<close>.\<close>

definition safe_pass_step ::
  "detector \<Rightarrow> nat \<Rightarrow> nat list \<times> bool list \<times> bool \<Rightarrow> nat \<Rightarrow> (nat list \<times> bool list \<times> bool) option" where
  "safe_pass_step d resource_n st i =
     (let (work, finish, progressed) = st in do {
        done_i \<leftarrow> idx finish i;
        if done_i then Some (work, finish, progressed)
        else do {
          can_finish \<leftarrow> all_opt (\<lambda>j. do { n \<leftarrow> idx2 (need d) i j; w \<leftarrow> idx work j; Some (n \<le> w) }) [0..<resource_n];
          if can_finish then do {
            work' \<leftarrow> for_opt (\<lambda>work j. do { w \<leftarrow> idx work j; a \<leftarrow> idx2 (allocation d) i j; put work j (sat_add w a) })
                       work [0..<resource_n];
            finish' \<leftarrow> put finish i True;
            Some (work', finish', True)
          } else Some (work, finish, progressed)
        }
      })"

definition safe_pass ::
  "detector \<Rightarrow> nat \<Rightarrow> nat \<Rightarrow> nat list \<Rightarrow> bool list \<Rightarrow> (nat list \<times> bool list \<times> bool) option" where
  "safe_pass d thread_n resource_n work finish =
     for_opt (safe_pass_step d resource_n) (work, finish, False) [0..<thread_n]"

text \<open>Each pass that made progress has set at least one more flag, so the outer loop ends.\<close>

lemma safe_pass_step_progress:
  assumes "safe_pass_step d rn (w, f, p) i = Some (w', f', p')"
  shows "length (filter Not f') \<le> length (filter Not f)
    \<and> (p' \<longrightarrow> p \<or> length (filter Not f') < length (filter Not f))"
proof -
  have upd: "length (filter Not (f[i := True])) < length (filter Not f)" if "i < length f" "\<not> f ! i"
  proof -
    have f: "f = take i f @ f ! i # drop (Suc i) f" using that(1) by (simp add: id_take_nth_drop)
    have "length (filter Not f) = length (filter Not (take i f)) + 1 + length (filter Not (drop (Suc i) f))"
      by (subst f) (simp add: that(2))
    then show ?thesis using that(1) by (simp add: upd_conv_take_nth_drop)
  qed
  show ?thesis
    using assms upd
    by (auto simp: safe_pass_step_def Option.bind_eq_Some_conv dest!: idx_SomeD put_SomeD
        split: if_splits)
qed

lemma safe_pass_progress:
  assumes "for_opt (safe_pass_step d rn) (w, f, p) is = Some (w', f', p')"
  shows "length (filter Not f') \<le> length (filter Not f)
    \<and> (p' \<longrightarrow> p \<or> length (filter Not f') < length (filter Not f))"
  using assms
proof (induction "is" arbitrary: w f p)
  case (Cons i js)
  then obtain w1 f1 p1 where "safe_pass_step d rn (w, f, p) i = Some (w1, f1, p1)"
    "for_opt (safe_pass_step d rn) (w1, f1, p1) js = Some (w', f', p')"
    by (auto simp: Option.bind_eq_Some_conv)
  then show ?case using Cons.IH [of w1 f1 p1] safe_pass_step_progress [of d rn w f p i w1 f1 p1] by linarith
qed simp

function safe_loop :: "detector \<Rightarrow> nat \<Rightarrow> nat \<Rightarrow> nat list \<Rightarrow> bool list \<Rightarrow> bool list option" where
  "safe_loop d thread_n resource_n work finish =
     (case safe_pass d thread_n resource_n work finish of
        None \<Rightarrow> None
      | Some (work', finish', progressed) \<Rightarrow>
          if progressed then safe_loop d thread_n resource_n work' finish' else Some finish')"
  by pat_completeness auto
termination
  by (relation "measure (\<lambda>(d, t, r, w, f). length (filter Not f))")
    (auto simp: safe_pass_def dest: safe_pass_progress)

declare safe_loop.simps [simp del]

definition is_safe_state :: "detector \<Rightarrow> bool option" where
  "is_safe_state d =
     (let thread_n = length (allocation d); resource_n = length (available d) in
      map_option (list_all id)
        (safe_loop d thread_n resource_n (available d) (replicate thread_n False)))"

definition begin_request :: "detector \<Rightarrow> nat \<Rightarrow> nat \<Rightarrow> (bool \<times> detector) option" where
  "begin_request d tid rid =
     (let d = ensure_resource (ensure_thread d tid) rid in do {
        n \<leftarrow> put2 (need d) tid rid 1;
        let d = d\<lparr>need := n\<rparr>;
        safe \<leftarrow> is_safe_state d;
        if safe then Some (True, d)
        else do {
          n \<leftarrow> put2 (need d) tid rid 0;
          Some (False, d\<lparr>need := n\<rparr>)
        }
      })"

definition finish_request :: "detector \<Rightarrow> nat \<Rightarrow> nat \<Rightarrow> detector option" where
  "finish_request d tid rid =
     (let d = ensure_resource (ensure_thread d tid) rid in do {
        n \<leftarrow> put2 (need d) tid rid 0;
        av \<leftarrow> idx (available d) rid;
        avs \<leftarrow> put (available d) rid (sat_sub av 1);
        al \<leftarrow> idx2 (allocation d) tid rid;
        als \<leftarrow> put2 (allocation d) tid rid (sat_add al 1);
        Some (d\<lparr>need := n, available := avs, allocation := als\<rparr>)
      })"

definition release :: "detector \<Rightarrow> nat \<Rightarrow> nat \<Rightarrow> detector option" where
  "release d tid rid =
     (let d = ensure_resource (ensure_thread d tid) rid in do {
        al \<leftarrow> idx2 (allocation d) tid rid;
        als \<leftarrow> (if al > 0 then put2 (allocation d) tid rid (al - 1) else Some (allocation d));
        av \<leftarrow> idx (available d) rid;
        avs \<leftarrow> put (available d) rid (sat_add av 1);
        Some (d\<lparr>allocation := als, available := avs\<rparr>)
      })"

definition clear_thread :: "detector \<Rightarrow> nat \<Rightarrow> detector option" where
  "clear_thread d tid =
     (if tid \<ge> length (allocation d) then Some d
      else for_opt (\<lambda>d rid. do {
             av \<leftarrow> idx (available d) rid;
             al \<leftarrow> idx2 (allocation d) tid rid;
             avs \<leftarrow> put (available d) rid (sat_add av al);
             als \<leftarrow> put2 (allocation d) tid rid 0;
             n \<leftarrow> put2 (need d) tid rid 0;
             Some (d\<lparr>available := avs, allocation := als, need := n\<rparr>)
           }) d [0..<length (available d)])"

section \<open>Well-formed detectors\<close>

definition det_shape :: "nat list \<Rightarrow> nat list list \<Rightarrow> nat list list \<Rightarrow> bool" where
  "det_shape av al ne \<longleftrightarrow> length ne = length al \<and> (\<forall>row\<in>set al. length row = length av)
     \<and> (\<forall>row\<in>set ne. length row = length av) \<and> (\<forall>x\<in>set av. x \<le> usize_max)"

definition det_wf :: "detector \<Rightarrow> bool" where
  "det_wf d \<longleftrightarrow> det_shape (available d) (allocation d) (need d)"

lemma det_shape_updates [inv_intros]:
  "det_shape av al ne \<Longrightarrow> i < length al \<Longrightarrow> length row = length av \<Longrightarrow> det_shape av (al[i := row]) ne"
  "det_shape av al ne \<Longrightarrow> i < length al \<Longrightarrow> length row = length av \<Longrightarrow> det_shape av al (ne[i := row])"
  "det_shape av al ne \<Longrightarrow> u \<le> usize_max \<Longrightarrow> det_shape (av[j := u]) al ne"
  by (auto simp: det_shape_def dest!: set_update_subset_insert [THEN subsetD])

lemma idx2_in [simp]: "i < length m \<Longrightarrow> j < length (m ! i) \<Longrightarrow> idx2 m i j = Some (m ! i ! j)"
  by (simp add: idx2_def)

lemma put2_in [simp]: "i < length m \<Longrightarrow> j < length (m ! i) \<Longrightarrow> put2 m i j v = Some (m[i := (m ! i)[j := v]])"
  by (simp add: put2_def)

lemma det_wf_lengths:
  assumes "det_wf d"
  shows "length (need d) = length (allocation d)"
    and "i < length (allocation d) \<Longrightarrow> length (allocation d ! i) = length (available d)"
    and "i < length (allocation d) \<Longrightarrow> length (need d ! i) = length (available d)"
    and "j < length (available d) \<Longrightarrow> available d ! j \<le> usize_max"
  using assms by (auto simp: det_wf_def det_shape_def)

lemma det_wf_new [inv_intros]: "det_wf detector_new"
  by (simp add: det_wf_def det_shape_def detector_new_def)

lemma ensure_thread_wf [inv_intros]: "det_wf d \<Longrightarrow> det_wf (ensure_thread d tid)"
  using set_resize [of "allocation d" "tid + 1" "replicate (length (available d)) 0"]
    set_resize [of "need d" "tid + 1" "replicate (length (available d)) 0"]
  by (fastforce simp: det_wf_def det_shape_def ensure_thread_def Let_def)

lemma ensure_resource_wf [inv_intros]: "det_wf d \<Longrightarrow> det_wf (ensure_resource d rid)"
  using set_resize [of "available d" "rid + 1" 0]
  by (auto simp: det_wf_def det_shape_def ensure_resource_def Let_def)

lemma ensure_lengths [simp]:
  "tid < length (allocation (ensure_resource (ensure_thread d tid) rid))"
  "rid < length (available (ensure_resource d rid))"
  by (auto simp: ensure_resource_def ensure_thread_def Let_def)

section \<open>The safety check\<close>

text \<open>The units of resource \<open>j\<close> once the threads in \<open>F\<close> have finished, saturating as the code adds.\<close>

definition work_after :: "detector \<Rightarrow> nat set \<Rightarrow> nat \<Rightarrow> nat" where
  "work_after d F j = min usize_max (available d ! j + (\<Sum>k\<in>F. allocation d ! k ! j))"

definition can_finish_after :: "detector \<Rightarrow> nat set \<Rightarrow> nat \<Rightarrow> bool" where
  "can_finish_after d F i \<longleftrightarrow> (\<forall>j<length (available d). need d ! i ! j \<le> work_after d F j)"

text \<open>
  The specification: an order in which all threads can run to completion, each of them once its
  needs are covered by what is available and what the threads before it have given back.
\<close>

definition completion_order :: "detector \<Rightarrow> nat list \<Rightarrow> bool" where
  "completion_order d order \<longleftrightarrow> distinct order
     \<and> (\<forall>p<length order. can_finish_after d (set (take p order)) (order ! p))"

definition deadlock_free :: "detector \<Rightarrow> bool" where
  "deadlock_free d \<longleftrightarrow> (\<exists>order. completion_order d order \<and> set order = {..<length (allocation d)})"

definition finished :: "bool list \<Rightarrow> nat set" where
  "finished f = {k. k < length f \<and> f ! k}"

text \<open>The loop invariant: the work vector and the flags describe a partial completion order.\<close>

definition safe_inv :: "detector \<Rightarrow> nat list \<Rightarrow> bool list \<Rightarrow> bool" where
  "safe_inv d w f \<longleftrightarrow> length w = length (available d) \<and> length f = length (allocation d)
     \<and> (\<forall>j<length (available d). w ! j = work_after d (finished f) j)
     \<and> (\<exists>order. completion_order d order \<and> set order = finished f)"

lemma work_after_insert:
  "finite F \<Longrightarrow> i \<notin> F \<Longrightarrow> sat_add (work_after d F j) (allocation d ! i ! j) = work_after d (insert i F) j"
  by (simp add: work_after_def sat_add_def)

lemma work_after_mono: "finite F \<Longrightarrow> E \<subseteq> F \<Longrightarrow> work_after d E j \<le> work_after d F j"
  by (simp add: work_after_def min.coboundedI2 sum_mono2)

lemma can_finish_after_mono: "finite F \<Longrightarrow> E \<subseteq> F \<Longrightarrow> can_finish_after d E i \<Longrightarrow> can_finish_after d F i"
  by (meson can_finish_after_def le_trans work_after_mono)

lemma finite_finished [simp]: "finite (finished f)"
  by (simp add: finished_def)

lemma finished_set: "i < length f \<Longrightarrow> finished (f[i := True]) = insert i (finished f)"
  by (auto simp: finished_def nth_list_update)

lemma completion_order_snoc:
  assumes "completion_order d order" and "i \<notin> set order" and "can_finish_after d (set order) i"
  shows "completion_order d (order @ [i])"
  using assms by (auto simp: completion_order_def nth_append less_Suc_eq)

lemma add_row_loop:
  assumes "length w = n" and "i < length A" and "length (A ! i) = n"
  shows "for_opt (\<lambda>work j. do { w \<leftarrow> idx work j; a \<leftarrow> idx2 A i j; put work j (sat_add w a) }) w [0..<n]
    = Some (map (\<lambda>j. sat_add (w ! j) (A ! i ! j)) [0..<n])"
proof -
  let ?P = "\<lambda>k w'. length w' = n \<and> (\<forall>j<n. w' ! j = (if j < k then sat_add (w ! j) (A ! i ! j) else w ! j))"
  have "\<exists>s'. for_opt (\<lambda>work j. do { w \<leftarrow> idx work j; a \<leftarrow> idx2 A i j; put work j (sat_add w a) }) w [0..<n]
      = Some s' \<and> ?P n s'"
    by (rule for_opt_upt) (use assms in \<open>auto simp: nth_list_update less_Suc_eq\<close>)
  then show ?thesis by (auto intro!: nth_equalityI)
qed

lemma safe_pass_step_eq:
  assumes "det_wf d" and "safe_inv d w f" and "i < length (allocation d)"
  shows "safe_pass_step d (length (available d)) (w, f, p) i =
    (if f ! i \<or> \<not> can_finish_after d (finished f) i then Some (w, f, p)
     else Some (map (work_after d (insert i (finished f))) [0..<length (available d)], f[i := True], True))"
proof -
  let ?n = "length (available d)"
  have len: "length w = ?n" "length f = length (allocation d)"
    and w: "\<And>j. j < ?n \<Longrightarrow> w ! j = work_after d (finished f) j"
    using assms(2) by (auto simp: safe_inv_def)
  note wf = det_wf_lengths [OF assms(1)]
  have "all_opt (\<lambda>j. do { n \<leftarrow> idx2 (need d) i j; w' \<leftarrow> idx w j; Some (n \<le> w') }) [0..<?n]
      = Some (\<forall>j\<in>set [0..<?n]. need d ! i ! j \<le> work_after d (finished f) j)"
    by (rule all_opt_total) (use assms(3) wf len w in simp)
  then have all: "all_opt (\<lambda>j. do { n \<leftarrow> idx2 (need d) i j; w' \<leftarrow> idx w j; Some (n \<le> w') }) [0..<?n]
      = Some (can_finish_after d (finished f) i)"
    by (auto simp: can_finish_after_def)
  have "map (\<lambda>j. sat_add (w ! j) (allocation d ! i ! j)) [0..<?n]
      = map (work_after d (insert i (finished f))) [0..<?n]" if "\<not> f ! i"
    using w that by (auto simp: work_after_insert finished_def)
  then show ?thesis
    using all add_row_loop [OF len(1) assms(3) wf(2) [OF assms(3)]] assms(3) len
    by (simp add: safe_pass_step_def)
qed

lemma safe_inv_step:
  assumes "safe_inv d w f" and "i < length (allocation d)" and "\<not> f ! i"
    and "can_finish_after d (finished f) i"
  shows "safe_inv d (map (work_after d (insert i (finished f))) [0..<length (available d)]) (f[i := True])"
proof -
  have il: "i < length f" using assms(1,2) by (simp add: safe_inv_def)
  from assms(1) obtain order where o: "completion_order d order" "set order = finished f"
    by (auto simp: safe_inv_def)
  have "i \<notin> set order" using o(2) assms(3) by (simp add: finished_def)
  then have "completion_order d (order @ [i])" using o assms(4) completion_order_snoc by simp
  moreover have "set (order @ [i]) = finished (f[i := True])" using o(2) finished_set [OF il] by simp
  ultimately show ?thesis using assms(1) finished_set [OF il] by (auto simp: safe_inv_def)
qed

lemma safe_pass_run:
  assumes "det_wf d" and "safe_inv d w f" and "set is \<subseteq> {..<length (allocation d)}"
  shows "\<exists>w' f' p'. for_opt (safe_pass_step d (length (available d))) (w, f, p) is = Some (w', f', p')
    \<and> safe_inv d w' f' \<and> (\<not> p' \<longrightarrow> \<not> p \<and> f' = f
        \<and> (\<forall>i\<in>set is. f ! i \<or> \<not> can_finish_after d (finished f) i))"
  using assms(2,3)
proof (induction "is" arbitrary: w f p)
  case (Cons i js)
  have i: "i < length (allocation d)" and js: "set js \<subseteq> {..<length (allocation d)}" using Cons.prems(2) by auto
  note step = safe_pass_step_eq [OF assms(1) Cons.prems(1) i, of p]
  show ?case
  proof (cases "f ! i \<or> \<not> can_finish_after d (finished f) i")
    case True
    then have "safe_pass_step d (length (available d)) (w, f, p) i = Some (w, f, p)" using step by simp
    then show ?thesis using Cons.IH [OF Cons.prems(1) js, of p] True by auto
  next
    case False
    then show ?thesis
      using Cons.IH [OF safe_inv_step [OF Cons.prems(1) i] js, of True] step by auto
  qed
qed simp

lemma upt_below: "set [0..<n] \<subseteq> {..<n}"
  by auto

lemma safe_loop_result:
  assumes "det_wf d" and "safe_inv d w f"
  shows "\<exists>w' f'. safe_loop d (length (allocation d)) (length (available d)) w f = Some f'
    \<and> safe_inv d w' f' \<and> (\<forall>i<length (allocation d). f' ! i \<or> \<not> can_finish_after d (finished f') i)"
  using assms(2)
proof (induction "length (filter Not f)" arbitrary: w f rule: less_induct)
  case less
  obtain w1 f1 p1 where pass: "safe_pass d (length (allocation d)) (length (available d)) w f = Some (w1, f1, p1)"
    and inv1: "safe_inv d w1 f1"
    and stop: "\<not> p1 \<longrightarrow> f1 = f
      \<and> (\<forall>i\<in>set [0..<length (allocation d)]. f ! i \<or> \<not> can_finish_after d (finished f) i)"
    using safe_pass_run [OF assms(1) less.prems upt_below, of False] unfolding safe_pass_def by blast
  show ?case
  proof (cases p1)
    case True
    then have "length (filter Not f1) < length (filter Not f)"
      using pass safe_pass_progress unfolding safe_pass_def by blast
    from less.hyps [OF this inv1] show ?thesis using pass True by (simp add: safe_loop.simps [of d _ _ w])
  next
    case False
    then show ?thesis using pass stop inv1 by (auto simp: safe_loop.simps [of d _ _ w])
  qed
qed

lemma completion_order_blocked:
  assumes "completion_order d order" and "finite F"
    and "\<forall>i\<in>set order. i \<in> F \<or> \<not> can_finish_after d F i"
  shows "set order \<subseteq> F"
proof -
  have "set (take p order) \<subseteq> F" if "p \<le> length order" for p
    using that
  proof (induction p)
    case (Suc p)
    then have IH: "set (take p order) \<subseteq> F" and p: "p < length order" by auto
    have "can_finish_after d (set (take p order)) (order ! p)"
      using assms(1) p by (simp add: completion_order_def)
    then have "order ! p \<in> F"
      using can_finish_after_mono [OF assms(2) IH] assms(3) nth_mem [OF p] by blast
    then show ?case using IH p by (simp add: take_Suc_conv_app_nth)
  qed simp
  from this [of "length order"] show ?thesis by simp
qed

lemma is_safe_state_iff:
  assumes "det_wf d"
  shows "is_safe_state d = Some (deadlock_free d)"
proof -
  let ?n = "length (allocation d)"
  have "completion_order d []" by (simp add: completion_order_def)
  moreover have fin0: "finished (replicate ?n False) = {}" by (auto simp: finished_def)
  ultimately have "safe_inv d (available d) (replicate ?n False)"
    using assms det_wf_lengths(4) [OF assms] by (auto simp: safe_inv_def work_after_def intro!: exI [of _ "[]"])
  from safe_loop_result [OF assms this] obtain w f where
    loop: "safe_loop d ?n (length (available d)) (available d) (replicate ?n False) = Some f"
    and inv: "safe_inv d w f" and stop: "\<forall>i<?n. f ! i \<or> \<not> can_finish_after d (finished f) i" by blast
  have len: "length f = ?n" using inv by (simp add: safe_inv_def)
  have "list_all id f \<longleftrightarrow> deadlock_free d"
  proof
    assume "list_all id f"
    then have "finished f = {..<?n}" using len by (auto simp: finished_def list_all_length)
    then show "deadlock_free d" using inv by (auto simp: safe_inv_def deadlock_free_def)
  next
    assume "deadlock_free d"
    then obtain order where o: "completion_order d order" "set order = {..<?n}"
      by (auto simp: deadlock_free_def)
    have "set order \<subseteq> finished f"
      by (rule completion_order_blocked [OF o(1)]) (use stop len o(2) in \<open>auto simp: finished_def\<close>)
    then show "list_all id f" using o(2) len by (auto simp: finished_def list_all_length)
  qed
  then show ?thesis using loop by (simp add: is_safe_state_def Let_def)
qed

section \<open>Runs of a detector\<close>

text \<open>The calls made by the mutex, semaphore and exit paths of a process.\<close>

datatype detector_event = DInit nat u64 | DBegin nat nat | DFinish nat nat | DRelease nat nat | DClear nat

fun detector_step :: "detector \<Rightarrow> detector_event \<Rightarrow> detector option" where
  "detector_step d (DInit rid n) = init_resource d rid (unat n)"
| "detector_step d (DBegin tid rid) = map_option snd (begin_request d tid rid)"
| "detector_step d (DFinish tid rid) = finish_request d tid rid"
| "detector_step d (DRelease tid rid) = release d tid rid"
| "detector_step d (DClear tid) = clear_thread d tid"

lemma unat_le_usize_max: "unat (n :: u64) \<le> usize_max"
  using unsigned_less [of n, where ?'a = nat] by (simp add: usize_max_def)

lemma ensured:
  fixes tid rid :: nat
  assumes "det_wf d"
  defines "e \<equiv> ensure_resource (ensure_thread d tid) rid"
  shows "det_wf e" and "tid < length (allocation e)" and "rid < length (available e)"
    and "tid < length (need e)" and "length (need e ! tid) = length (available e)"
    and "length (allocation e ! tid) = length (available e)"
  using assms ensure_thread_wf ensure_resource_wf det_wf_lengths(1,3) [of e] det_wf_lengths(2)[of e]
  by (simp_all add: e_def)

lemma init_resource_wf:
  assumes "det_wf d" and "n \<le> usize_max"
  shows "\<exists>d'. init_resource d rid n = Some d' \<and> det_wf d'"
proof -
  let ?e = "ensure_resource d rid"
  have e: "det_wf ?e" "rid < length (available ?e)" using assms(1) ensure_resource_wf by simp_all
  have "\<exists>a. for_opt (\<lambda>a row. do { b \<leftarrow> idx row rid; Some (sat_add a b) }) 0 (allocation ?e) = Some a \<and> True"
    by (rule for_opt_inv) (use e in \<open>auto simp: det_wf_def det_shape_def\<close>)
  then obtain a where "for_opt (\<lambda>a row. do { b \<leftarrow> idx row rid; Some (sat_add a b) }) 0 (allocation ?e) = Some a"
    by blast
  moreover have "det_wf (?e\<lparr>available := (available ?e)[rid := sat_sub n a]\<rparr>)"
    using e(1) assms(2) by (auto simp: det_wf_def sat_sub_def intro!: inv_intros)
  ultimately show ?thesis using e(2) by (simp add: init_resource_def Let_def)
qed

lemma begin_request_wf:
  fixes tid rid :: nat
  assumes "det_wf d"
  defines "e \<equiv> ensure_resource (ensure_thread d tid) rid"
  defines "w \<equiv> e\<lparr>need := (need e)[tid := (need e ! tid)[rid := 1]]\<rparr>"
  shows "det_wf w" and "begin_request d tid rid = Some (if deadlock_free w then (True, w)
      else (False, w\<lparr>need := (need e)[tid := (need e ! tid)[rid := 0]]\<rparr>))"
proof -
  note e = ensured [OF assms(1), where tid = tid and rid = rid, folded e_def]
  show w: "det_wf w" using e by (auto simp: w_def det_wf_def intro!: inv_intros)
  show "begin_request d tid rid = Some (if deadlock_free w then (True, w)
      else (False, w\<lparr>need := (need e)[tid := (need e ! tid)[rid := 0]]\<rparr>))"
    using e(2-6) is_safe_state_iff [OF w]
    by (simp add: begin_request_def Let_def w_def flip: e_def)
qed

lemma finish_request_wf:
  assumes "det_wf d"
  shows "\<exists>d'. finish_request d tid rid = Some d' \<and> det_wf d'"
proof -
  note e = ensured [OF assms, where tid = tid and rid = rid]
  have "sat_sub (available (ensure_resource (ensure_thread d tid) rid) ! rid) 1 \<le> usize_max"
    using det_wf_lengths(4) [OF e(1,3)] by (simp add: sat_sub_def)
  then show ?thesis using e
    by (auto simp: finish_request_def Let_def det_wf_def intro!: inv_intros)
qed

lemma release_wf:
  assumes "det_wf d"
  shows "\<exists>d'. release d tid rid = Some d' \<and> det_wf d'"
proof -
  note e = ensured [OF assms, where tid = tid and rid = rid]
  show ?thesis
    using e by (auto simp: release_def Let_def det_wf_def intro!: inv_intros)
qed

lemma clear_thread_wf:
  assumes "det_wf d"
  shows "\<exists>d'. clear_thread d tid = Some d' \<and> det_wf d'"
proof (cases "tid < length (allocation d)")
  case True
  let ?n = "length (available d)"
  let ?step = "\<lambda>d rid. do {
             av \<leftarrow> idx (available d) rid;
             al \<leftarrow> idx2 (allocation d) tid rid;
             avs \<leftarrow> put (available d) rid (sat_add av al);
             als \<leftarrow> put2 (allocation d) tid rid 0;
             n \<leftarrow> put2 (need d) tid rid 0;
             Some (d\<lparr>available := avs, allocation := als, need := n\<rparr>)
           }"
  let ?P = "\<lambda>e. det_wf e \<and> tid < length (allocation e) \<and> length (available e) = ?n"
  have "\<exists>d'. for_opt ?step d [0..<?n] = Some d' \<and> ?P d'"
  proof (rule for_opt_inv)
    show "?P d" using assms True by simp
  next
    fix e rid
    assume "rid \<in> set [0..<?n]" and P: "?P e"
    then have "rid < length (available e)" "tid < length (need e)"
      "length (need e ! tid) = ?n" "length (allocation e ! tid) = ?n"
      using det_wf_lengths [of e] by auto
    then show "\<exists>e'. ?step e rid = Some e' \<and> ?P e'"
      using P by (auto simp: det_wf_def intro!: inv_intros)
  qed
  then show ?thesis using True by (auto simp: clear_thread_def)
next
  case False
  then show ?thesis using assms by (simp add: clear_thread_def)
qed

lemma detector_step_wf:
  assumes "det_wf d"
  shows "\<exists>d'. detector_step d e = Some d' \<and> det_wf d'"
proof (cases e)
  case (DBegin tid rid)
  note e = ensured [OF assms, where tid = tid and rid = rid]
  show ?thesis using DBegin e begin_request_wf(2) [OF assms, where tid = tid and rid = rid]
    by (auto simp: det_wf_def intro!: inv_intros)
qed (use assms init_resource_wf unat_le_usize_max finish_request_wf release_wf clear_thread_wf in auto)

lemma detector_run_wf:
  "det_wf d \<Longrightarrow> \<exists>d'. for_opt detector_step d es = Some d' \<and> det_wf d'"
  by (rule for_opt_inv) (auto intro: detector_step_wf)

section \<open>Properties\<close>

text \<open>
  C5. The deadlock check is the banker's criterion: on the detector of a process after any sequence
  of detector calls, \<open>is_safe_state\<close> returns (it neither panics nor loops), and it answers \<open>true\<close>
  exactly when some order of all threads lets each of them obtain its pending needs from the
  available units and the units returned by the threads before it.
\<close>

theorem is_safe_state_complete:
  "\<exists>d. for_opt detector_step detector_new es = Some d
     \<and> is_safe_state d = Some (\<exists>order. completion_order d order \<and> set order = {..<length (allocation d)})"
  using detector_run_wf [OF det_wf_new, of es] is_safe_state_iff by (fastforce simp: deadlock_free_def)

text \<open>
  C6. A refused request leaves no trace: after any sequence of detector calls, \<open>begin_request\<close>
  returns; it grants exactly when the state with the request recorded has a completion order, and
  otherwise the need that it recorded is withdrawn and the available and allocated units are those
  of the enlarged detector before the request.
\<close>

theorem begin_request_decides:
  "\<exists>d e w r d'. for_opt detector_step detector_new es = Some d
     \<and> e = ensure_resource (ensure_thread d tid) rid
     \<and> w = e\<lparr>need := (need e)[tid := (need e ! tid)[rid := 1]]\<rparr>
     \<and> begin_request d tid rid = Some (r, d') \<and> r = deadlock_free w
     \<and> d' = (if r then w else e\<lparr>need := (need e)[tid := (need e ! tid)[rid := 0]]\<rparr>)"
proof -
  obtain d where d: "for_opt detector_step detector_new es = Some d" "det_wf d"
    using detector_run_wf [OF det_wf_new] by blast
  show ?thesis
    using d(1) begin_request_wf(2) [OF d(2), where tid = tid and rid = rid]
    by (auto split: if_splits)
qed

text \<open>What the two records do to a detector that already has the thread and the resource.\<close>

lemma ensure_present: "tid < length (allocation d) \<Longrightarrow> rid < length (available d) \<Longrightarrow> ensure_resource (ensure_thread d tid) rid = d"
  by (simp add: ensure_thread_def ensure_resource_def)

lemma finish_present:
  assumes "det_wf d" and "tid < length (allocation d)" and "rid < length (available d)"
  shows "finish_request d tid rid = Some (d\<lparr>need := (need d)[tid := (need d ! tid)[rid := 0]],
      available := (available d)[rid := sat_sub (available d ! rid) 1],
      allocation := (allocation d)[tid := (allocation d ! tid)[rid := sat_add (allocation d ! tid ! rid) 1]]\<rparr>)"
  using assms det_wf_lengths(1-3) [OF assms(1)] by (simp add: finish_request_def ensure_present)

lemma release_present:
  assumes "det_wf d" and "tid < length (allocation d)" and "rid < length (available d)" and "0 < allocation d ! tid ! rid"
  shows "release d tid rid = Some (d\<lparr>allocation := (allocation d)[tid := (allocation d ! tid)[rid := allocation d ! tid ! rid - 1]],
      available := (available d)[rid := sat_add (available d ! rid) 1]\<rparr>)"
  using assms det_wf_lengths(2) [OF assms(1)] by (simp add: release_def ensure_present)

text \<open>
  C7. The bookkeeping drifts when a release is recorded late. \<open>sys_mutex_unlock\<close> frees the mutex
  before it calls \<open>release\<close>, so the next owner's \<open>finish_request\<close> can come first. Whatever calls came
  before, when one thread holds the last unit of a resource and another thread takes it over, the two
  records in the wrong order leave the detector as in the right order, except that the resource
  counts one unit as available, although the other thread holds it: the subtraction saturates at zero and
  the late release adds a unit that nothing takes back.
\<close>

theorem late_release_leaves_unit:
  assumes "for_opt detector_step detector_new es = Some d" and "a < length (allocation d)" and "b < length (allocation d)" and "a \<noteq> b"
    and "rid < length (available d)" and "0 < allocation d ! a ! rid" and "available d ! rid = 0"
  shows "\<exists>right late. do { d \<leftarrow> release d a rid; finish_request d b rid } = Some right
     \<and> do { d \<leftarrow> finish_request d b rid; release d a rid } = Some late
     \<and> available right ! rid = 0 \<and> 0 < allocation late ! b ! rid
     \<and> late = right\<lparr>available := (available right)[rid := 1]\<rparr>"
proof -
  have wf: "det_wf d" using detector_run_wf [OF det_wf_new, of es] assms(1) by auto
  note l = det_wf_lengths [OF wf]
  obtain r where r: "release d a rid = Some r" "det_wf r" using release_wf [OF wf] by blast
  obtain f where f: "finish_request d b rid = Some f" "det_wf f" using finish_request_wf [OF wf] by blast
  have re: "r = d\<lparr>allocation := (allocation d)[a := (allocation d ! a)[rid := allocation d ! a ! rid - 1]], available := (available d)[rid := 1]\<rparr>"
    using release_present [OF wf assms(2,5,6)] r(1) assms(7) by (simp add: sat_add_def usize_max_def)
  have fe: "f = d\<lparr>need := (need d)[b := (need d ! b)[rid := 0]], available := (available d)[rid := 0],
      allocation := (allocation d)[b := (allocation d ! b)[rid := sat_add (allocation d ! b ! rid) 1]]\<rparr>"
    using finish_present [OF wf assms(3,5)] f(1) assms(7) by (simp add: sat_sub_def)
  have pos: "0 < sat_add (allocation d ! b ! rid) 1" by (simp add: sat_add_def usize_max_def)
  define right where "right = r\<lparr>need := (need r)[b := (need r ! b)[rid := 0]], available := (available r)[rid := 0],
      allocation := (allocation r)[b := (allocation r ! b)[rid := sat_add (allocation r ! b ! rid) 1]]\<rparr>"
  define late where "late = f\<lparr>allocation := (allocation f)[a := (allocation f ! a)[rid := allocation f ! a ! rid - 1]],
      available := (available f)[rid := 1]\<rparr>"
  have "finish_request r b rid = Some right"
    using finish_present [OF r(2), of b rid] assms(3,5) by (simp add: right_def re sat_sub_def)
  moreover have "release f a rid = Some late"
    using release_present [OF f(2), of a rid] assms(2,4,5,6) by (simp add: late_def fe sat_add_def usize_max_def)
  moreover have "available right ! rid = 0" "0 < allocation late ! b ! rid"
    using assms(2-5) l(2) [OF assms(3)] pos by (simp_all add: right_def late_def re fe)
  moreover have "late = right\<lparr>available := (available right)[rid := 1]\<rparr>"
    using assms(4) by (simp add: right_def late_def re fe list_update_swap)
  ultimately show ?thesis using r(1) f(1) by (intro exI [of _ right] exI [of _ late]) simp
qed

text \<open>With the late record two threads that wait for each other are judged safe.\<close>

theorem late_release_leaves_unit_witness:
  "\<exists>d right late. for_opt detector_step detector_new [DInit 0 1, DInit 1 1, DFinish 0 0, DFinish 0 1, DBegin 1 0] = Some d
     \<and> do { d \<leftarrow> release d 0 0; finish_request d 1 0 } = Some right
     \<and> do { d \<leftarrow> finish_request d 1 0; release d 0 0 } = Some late
     \<and> map_option fst (do { (_, d) \<leftarrow> begin_request right 1 1; begin_request d 0 0 }) = Some False
     \<and> map_option fst (do { (_, d) \<leftarrow> begin_request late 1 1; begin_request d 0 0 }) = Some True"
proof -
  define d where "d = \<lparr>available = [0, 0], allocation = [[1, 1], [0, 0]], need = [[0, 0], [1, 0]]\<rparr>"
  define right where "right = \<lparr>available = [0, 0], allocation = [[0, 1], [1, 0]], need = [[0, 0], [0, 0]]\<rparr>"
  have d: "for_opt detector_step detector_new [DInit 0 1, DInit 1 1, DFinish 0 0, DFinish 0 1, DBegin 1 0] = Some d"
    unfolding d_def by code_simp
  have r: "do { d \<leftarrow> release d 0 0; finish_request d 1 0 } = Some right" unfolding d_def right_def by code_simp
  from late_release_leaves_unit [OF d, of 0 1 0] r
  have l: "do { d \<leftarrow> finish_request d 1 0; release d 0 0 } = Some (right\<lparr>available := (available right)[0 := 1]\<rparr>)" by (auto simp: d_def)
  have f: "map_option fst (do { (_, d) \<leftarrow> begin_request right 1 1; begin_request d 0 0 }) = Some False" unfolding right_def by code_simp
  have t: "map_option fst (do { (_, d) \<leftarrow> begin_request (right\<lparr>available := (available right)[0 := 1]\<rparr>) 1 1; begin_request d 0 0 }) = Some True"
    unfolding right_def by code_simp
  show ?thesis using d r l f t by blast
qed

end
