(* ===== verification/Errno.thy ===== *)
theory Errno
  imports Kernel_Prelude
begin

text \<open>
  Error numbers (\<open>os/src/syscall/errno.rs\<close>, \<open>fs/src/errno.rs\<close>). Both enums are \<open>repr(i32)\<close>, so a
  value is its discriminant. The variants that the modelled code returns are named here; the complete tables are in
  \<open>Errno_Tables\<close>.
\<close>

datatype errno = ERRNO int

abbreviation EPERM :: errno where "EPERM \<equiv> ERRNO 1"
abbreviation ENOENT :: errno where "ENOENT \<equiv> ERRNO 2"
abbreviation ESRCH :: errno where "ESRCH \<equiv> ERRNO 3"
abbreviation EINTR :: errno where "EINTR \<equiv> ERRNO 4"
abbreviation EIO :: errno where "EIO \<equiv> ERRNO 5"
abbreviation EBADF :: errno where "EBADF \<equiv> ERRNO 9"
abbreviation EAGAIN :: errno where "EAGAIN \<equiv> ERRNO 11"
abbreviation ENOMEM :: errno where "ENOMEM \<equiv> ERRNO 12"
abbreviation EACCES :: errno where "EACCES \<equiv> ERRNO 13"
abbreviation EFAULT :: errno where "EFAULT \<equiv> ERRNO 14"
abbreviation EBUSY :: errno where "EBUSY \<equiv> ERRNO 16"
abbreviation EEXIST :: errno where "EEXIST \<equiv> ERRNO 17"
abbreviation ENODEV :: errno where "ENODEV \<equiv> ERRNO 19"
abbreviation ENOTDIR :: errno where "ENOTDIR \<equiv> ERRNO 20"
abbreviation EISDIR :: errno where "EISDIR \<equiv> ERRNO 21"
abbreviation EINVAL :: errno where "EINVAL \<equiv> ERRNO 22"
abbreviation ENOSPC :: errno where "ENOSPC \<equiv> ERRNO 28"
abbreviation EPIPE :: errno where "EPIPE \<equiv> ERRNO 32"
abbreviation ERANGE :: errno where "ERANGE \<equiv> ERRNO 34"
abbreviation EDEADLK :: errno where "EDEADLK \<equiv> ERRNO 35"
abbreviation ENAMETOOLONG :: errno where "ENAMETOOLONG \<equiv> ERRNO 36"
abbreviation ENOSYS :: errno where "ENOSYS \<equiv> ERRNO 38"
abbreviation ENOTEMPTY :: errno where "ENOTEMPTY \<equiv> ERRNO 39"
abbreviation EOVERFLOW :: errno where "EOVERFLOW \<equiv> ERRNO 75"
abbreviation EOPNOTSUPP :: errno where "EOPNOTSUPP \<equiv> ERRNO 95"
abbreviation EIDRM :: errno where "EIDRM \<equiv> ERRNO 43"
abbreviation ENOKEY :: errno where "ENOKEY \<equiv> ERRNO 126"
abbreviation EKEYEXPIRED :: errno where "EKEYEXPIRED \<equiv> ERRNO 127"
abbreviation EKEYREVOKED :: errno where "EKEYREVOKED \<equiv> ERRNO 128"
abbreviation EKEYREJECTED :: errno where "EKEYREJECTED \<equiv> ERRNO 129"
abbreviation EDQUOT :: errno where "EDQUOT \<equiv> ERRNO 122"
abbreviation EFBIG :: errno where "EFBIG \<equiv> ERRNO 27"
abbreviation ETIMEDOUT :: errno where "ETIMEDOUT \<equiv> ERRNO 110"

text \<open>The error arm of \<open>syscall_body!\<close>: \<open>-(e as isize)\<close>.\<close>

fun syscall_result :: "errno + int \<Rightarrow> int" where
  "syscall_result (Ok v) = v"
| "syscall_result (Err (ERRNO c)) = - c"

end
