(* ===== verification/Errno_Tables.thy ===== *)
theory Errno_Tables
  imports Errno
begin

text \<open>
  The complete error tables of the kernel (\<open>os/src/syscall/errno.rs\<close>) and of the file-system crate
  (\<open>fs/src/errno.rs\<close>), in source order, and the conversion between them.
\<close>

definition errno_table :: "(string \<times> int) list" where
  "errno_table = [
    (''EPERM'', 1), (''ENOENT'', 2), (''ESRCH'', 3), (''EINTR'', 4), (''EIO'', 5), (''ENXIO'', 6),
    (''E2BIG'', 7), (''ENOEXEC'', 8), (''EBADF'', 9), (''ECHILD'', 10), (''EAGAIN'', 11), (''ENOMEM'', 12),
    (''EACCES'', 13), (''EFAULT'', 14), (''ENOTBLK'', 15), (''EBUSY'', 16), (''EEXIST'', 17),
    (''EXDEV'', 18), (''ENODEV'', 19), (''ENOTDIR'', 20), (''EISDIR'', 21), (''EINVAL'', 22),
    (''ENFILE'', 23), (''EMFILE'', 24), (''ENOTTY'', 25), (''ETXTBSY'', 26), (''EFBIG'', 27),
    (''ENOSPC'', 28), (''ESPIPE'', 29), (''EROFS'', 30), (''EMLINK'', 31), (''EPIPE'', 32), (''EDOM'', 33),
    (''ERANGE'', 34), (''EDEADLK'', 35), (''ENAMETOOLONG'', 36), (''ENOLCK'', 37), (''ENOSYS'', 38),
    (''ENOTEMPTY'', 39), (''ELOOP'', 40), (''ENOMSG'', 42), (''EIDRM'', 43), (''ECHRNG'', 44),
    (''EL2NSYNC'', 45), (''EL3HLT'', 46), (''EL3RST'', 47), (''ELNRNG'', 48), (''EUNATCH'', 49),
    (''ENOCSI'', 50), (''EL2HLT'', 51), (''EBADE'', 52), (''EBADR'', 53), (''EXFULL'', 54),
    (''ENOANO'', 55), (''EBADRQC'', 56), (''EBADSLT'', 57), (''EBFONT'', 59), (''ENOSTR'', 60),
    (''ENODATA'', 61), (''ETIME'', 62), (''ENOSR'', 63), (''ENONET'', 64), (''ENOPKG'', 65),
    (''EREMOTE'', 66), (''ENOLINK'', 67), (''EADV'', 68), (''ESRMNT'', 69), (''ECOMM'', 70),
    (''EPROTO'', 71), (''EMULTIHOP'', 72), (''EDOTDOT'', 73), (''EBADMSG'', 74), (''EOVERFLOW'', 75),
    (''ENOTUNIQ'', 76), (''EBADFD'', 77), (''EREMCHG'', 78), (''ELIBACC'', 79), (''ELIBBAD'', 80),
    (''ELIBSCN'', 81), (''ELIBMAX'', 82), (''ELIBEXEC'', 83), (''EILSEQ'', 84), (''ERESTART'', 85),
    (''ESTRPIPE'', 86), (''EUSERS'', 87), (''ENOTSOCK'', 88), (''EDESTADDRREQ'', 89), (''EMSGSIZE'', 90),
    (''EPROTOTYPE'', 91), (''ENOPROTOOPT'', 92), (''EPROTONOSUPPORT'', 93), (''ESOCKTNOSUPPORT'', 94),
    (''EOPNOTSUPP'', 95), (''EPFNOSUPPORT'', 96), (''EAFNOSUPPORT'', 97), (''EADDRINUSE'', 98),
    (''EADDRNOTAVAIL'', 99), (''ENETDOWN'', 100), (''ENETUNREACH'', 101), (''ENETRESET'', 102),
    (''ECONNABORTED'', 103), (''ECONNRESET'', 104), (''ENOBUFS'', 105), (''EISCONN'', 106),
    (''ENOTCONN'', 107), (''ESHUTDOWN'', 108), (''ETOOMANYREFS'', 109), (''ETIMEDOUT'', 110),
    (''ECONNREFUSED'', 111), (''EHOSTDOWN'', 112), (''EHOSTUNREACH'', 113), (''EALREADY'', 114),
    (''EINPROGRESS'', 115), (''ESTALE'', 116), (''EUCLEAN'', 117), (''ENOTNAM'', 118), (''ENAVAIL'', 119),
    (''EISNAM'', 120), (''EREMOTEIO'', 121), (''EDQUOT'', 122), (''ENOMEDIUM'', 123),
    (''EMEDIUMTYPE'', 124), (''ECANCELED'', 125), (''ENOKEY'', 126), (''EKEYEXPIRED'', 127),
    (''EKEYREVOKED'', 128), (''EKEYREJECTED'', 129), (''EOWNERDEAD'', 130), (''ENOTRECOVERABLE'', 131),
    (''ERFKILL'', 132), (''EHWPOISON'', 133)
  ]"

definition fs_errno_table :: "(string \<times> int) list" where
  "fs_errno_table = [
    (''EPERM'', 1), (''ENOENT'', 2), (''ESRCH'', 3), (''EINTR'', 4), (''EIO'', 5), (''ENXIO'', 6),
    (''E2BIG'', 7), (''ENOEXEC'', 8), (''EBADF'', 9), (''ECHILD'', 10), (''EAGAIN'', 11), (''ENOMEM'', 12),
    (''EACCES'', 13), (''EFAULT'', 14), (''ENOTBLK'', 15), (''EBUSY'', 16), (''EEXIST'', 17),
    (''EXDEV'', 18), (''ENODEV'', 19), (''ENOTDIR'', 20), (''EISDIR'', 21), (''EINVAL'', 22),
    (''ENFILE'', 23), (''EMFILE'', 24), (''ENOTTY'', 25), (''ETXTBSY'', 26), (''EFBIG'', 27),
    (''ENOSPC'', 28), (''ESPIPE'', 29), (''EROFS'', 30), (''EMLINK'', 31), (''EPIPE'', 32), (''EDOM'', 33),
    (''ERANGE'', 34), (''EDEADLK'', 35), (''ENAMETOOLONG'', 36), (''ENOLCK'', 37), (''ENOSYS'', 38),
    (''ENOTEMPTY'', 39), (''ELOOP'', 40), (''ENOMSG'', 42), (''EIDRM'', 43), (''ECHRNG'', 44),
    (''EL2NSYNC'', 45), (''EL3HLT'', 46), (''EL3RST'', 47), (''ELNRNG'', 48), (''EUNATCH'', 49),
    (''ENOCSI'', 50), (''EL2HLT'', 51), (''EBADE'', 52), (''EBADR'', 53), (''EXFULL'', 54),
    (''ENOANO'', 55), (''EBADRQC'', 56), (''EBADSLT'', 57), (''EBFONT'', 59), (''ENOSTR'', 60),
    (''ENODATA'', 61), (''ETIME'', 62), (''ENOSR'', 63), (''ENONET'', 64), (''ENOPKG'', 65),
    (''EREMOTE'', 66), (''ENOLINK'', 67), (''EADV'', 68), (''ESRMNT'', 69), (''ECOMM'', 70),
    (''EPROTO'', 71), (''EMULTIHOP'', 72), (''EDOTDOT'', 73), (''EBADMSG'', 74), (''EOVERFLOW'', 75),
    (''ENOTUNIQ'', 76), (''EBADFD'', 77), (''EREMCHG'', 78), (''ELIBACC'', 79), (''ELIBBAD'', 80),
    (''ELIBSCN'', 81), (''ELIBMAX'', 82), (''ELIBEXEC'', 83), (''EILSEQ'', 84), (''ERESTART'', 85),
    (''ESTRPIPE'', 86), (''EUSERS'', 87), (''ENOTSOCK'', 88), (''EDESTADDRREQ'', 89), (''EMSGSIZE'', 90),
    (''EPROTOTYPE'', 91), (''ENOPROTOOPT'', 92), (''EPROTONOSUPPORT'', 93), (''ESOCKTNOSUPPORT'', 94),
    (''EOPNOTSUPP'', 95), (''EPFNOSUPPORT'', 96), (''EAFNOSUPPORT'', 97), (''EADDRINUSE'', 98),
    (''EADDRNOTAVAIL'', 99), (''ENETDOWN'', 100), (''ENETUNREACH'', 101), (''ENETRESET'', 102),
    (''ECONNABORTED'', 103), (''ECONNRESET'', 104), (''ENOBUFS'', 105), (''EISCONN'', 106),
    (''ENOTCONN'', 107), (''ESHUTDOWN'', 108), (''ETOOMANYREFS'', 109), (''ETIMEDOUT'', 110),
    (''ECONNREFUSED'', 111), (''EHOSTDOWN'', 112), (''EHOSTUNREACH'', 113), (''EALREADY'', 114),
    (''EINPROGRESS'', 115), (''ESTALE'', 116), (''EUCLEAN'', 117), (''ENOTNAM'', 118), (''ENAVAIL'', 119),
    (''EISNAM'', 120), (''EREMOTEIO'', 121), (''EDQUOT'', 122), (''ENOMEDIUM'', 123),
    (''EMEDIUMTYPE'', 124), (''ECANCELED'', 125), (''ENOKEY'', 126), (''EKEYEXPIRED'', 127),
    (''EKEYREVOKED'', 128), (''EKEYREJECTED'', 129), (''EOWNERDEAD'', 130), (''ENOTRECOVERABLE'', 131),
    (''ERFKILL'', 132), (''EHWPOISON'', 133)
  ]"

definition errno_valid :: "errno \<Rightarrow> bool" where
  "errno_valid e \<longleftrightarrow> (case e of ERRNO c \<Rightarrow> c \<in> set (map snd errno_table))"

text \<open>\<open>From<FS_ERRNO> for ERRNO\<close> reinterprets the discriminant.\<close>

definition errno_from_fs :: "int \<Rightarrow> errno" where
  "errno_from_fs c = ERRNO c"

lemma errno_codes_range: "list_all (\<lambda>(_, c). 1 \<le> c \<and> c \<le> 133) errno_table"
  by (simp add: errno_table_def)

lemma syscall_error_range:
  assumes "errno_valid e"
  shows "- 133 \<le> syscall_result (Err e :: errno + int) \<and> syscall_result (Err e) \<le> - 1"
proof -
  obtain c where e: "e = ERRNO c" by (cases e)
  have "c \<in> snd ` set errno_table" using assms by (simp add: errno_valid_def e)
  then show ?thesis using errno_codes_range by (auto simp: e list_all_iff)
qed

section \<open>Properties\<close>

text \<open>
  C8. The reinterpretation of a file-system error as a system-call error is sound: every variant of
  \<open>FS_ERRNO\<close> is a variant of \<open>ERRNO\<close> with the same name and discriminant, names and discriminants
  are unambiguous, and the value a system call returns for it lies between -133 and -1.
\<close>

theorem fs_errno_transmute_sound:
  "set fs_errno_table \<subseteq> set errno_table \<and> distinct (map fst errno_table) \<and> distinct (map snd errno_table)
   \<and> list_all (\<lambda>(_, c). errno_valid (errno_from_fs c)
       \<and> - 133 \<le> syscall_result (Err (errno_from_fs c)) \<and> syscall_result (Err (errno_from_fs c)) \<le> - 1)
       fs_errno_table"
proof -
  have same: "fs_errno_table = errno_table"
    by (simp only: fs_errno_table_def errno_table_def)
  have names: "distinct (map fst errno_table)" by code_simp
  have codes: "distinct (map snd errno_table)" by code_simp
  have "errno_valid (errno_from_fs c)" if "(n, c) \<in> set errno_table" for n c
    using that by (force simp: errno_valid_def errno_from_fs_def)
  then show ?thesis
    using names codes syscall_error_range by (fastforce simp: same list_all_iff)
qed

end
