(* ===== verification/Byte_Queue.thy ===== *)
theory Byte_Queue
  imports Errno
begin

text \<open>
  The interface between a bounded byte queue and the transfer loops of the pipe: the loops of
  \<open>os/src/fs/pipe.rs\<close> are written once over the two byte operations they call, and the locale
  states what they rely on.
\<close>

text \<open>
  The \<open>for _ in 0..loop_read\<close> loops of \<open>read_at_result\<close> and \<open>read_nonblocking\<close>. The user buffer is
  given by its length \<open>want\<close>; \<open>got\<close> holds the bytes stored so far, so its iterator is exhausted when
  \<open>length got\<close> reaches \<open>want\<close>. The flag says that the loop was left early.
\<close>

fun read_for :: "('s \<Rightarrow> ('b \<times> 's) option) \<Rightarrow> nat \<Rightarrow> 's \<Rightarrow> nat \<Rightarrow> 'b list \<Rightarrow> (bool \<times> 's \<times> 'b list) option" where
  "read_for pop 0 s want got = Some (False, s, got)"
| "read_for pop (Suc n) s want got =
     (if length got < want then do {
        (c, s') \<leftarrow> pop s;
        if Suc (length got) = want then Some (True, s', got @ [c])
        else read_for pop n s' want (got @ [c])
      } else Some (True, s, got))"

text \<open>The loop of \<open>read_bytes_at\<close>: it tests first and stores by index.\<close>

fun read_bytes_for :: "('s \<Rightarrow> ('b \<times> 's) option) \<Rightarrow> nat \<Rightarrow> 's \<Rightarrow> nat \<Rightarrow> 'b list \<Rightarrow> (bool \<times> 's \<times> 'b list) option" where
  "read_bytes_for pop 0 s want got = Some (False, s, got)"
| "read_bytes_for pop (Suc n) s want got =
     (if length got = want then Some (True, s, got)
      else do {
        (c, s') \<leftarrow> pop s;
        if length got < want then read_bytes_for pop n s' want (got @ [c]) else None
      })"

text \<open>The loops of \<open>write_at_result\<close> and \<open>write_nonblocking\<close>; \<open>k\<close> bytes have been written.\<close>

fun write_for :: "('s \<Rightarrow> 'b \<Rightarrow> 's option) \<Rightarrow> nat \<Rightarrow> 's \<Rightarrow> 'b list \<Rightarrow> nat \<Rightarrow> (bool \<times> 's \<times> nat) option" where
  "write_for push 0 s buf k = Some (False, s, k)"
| "write_for push (Suc n) s buf k =
     (if k < length buf then do {
        s' \<leftarrow> push s (buf ! k);
        if Suc k = length buf then Some (True, s', Suc k) else write_for push n s' buf (Suc k)
      } else Some (True, s, k))"

text \<open>The loop of \<open>write_bytes_at\<close>.\<close>

fun write_bytes_for :: "('s \<Rightarrow> 'b \<Rightarrow> 's option) \<Rightarrow> nat \<Rightarrow> 's \<Rightarrow> 'b list \<Rightarrow> nat \<Rightarrow> (bool \<times> 's \<times> nat) option" where
  "write_bytes_for push 0 s buf k = Some (False, s, k)"
| "write_bytes_for push (Suc n) s buf k =
     (if k = length buf then Some (True, s, k)
      else do {
        b \<leftarrow> idx buf k;
        s' \<leftarrow> push s b;
        write_bytes_for push n s' buf (Suc k)
      })"

text \<open>
  \<open>rest\<close> is the part of the provider's state that the byte operations must not touch (for the
  pipe, the liveness of its two ends).
\<close>

locale byte_queue =
  fixes push :: "'s \<Rightarrow> 'b \<Rightarrow> 's option"
    and pop :: "'s \<Rightarrow> ('b \<times> 's) option"
    and contents :: "'s \<Rightarrow> 'b list"
    and rest :: "'s \<Rightarrow> 'e"
    and invar :: "'s \<Rightarrow> bool"
    and cap :: nat
  assumes push_ok: "invar s \<Longrightarrow> length (contents s) < cap \<Longrightarrow>
      \<exists>s'. push s b = Some s' \<and> invar s' \<and> contents s' = contents s @ [b] \<and> rest s' = rest s"
    and pop_ok: "invar s \<Longrightarrow> contents s = c # cs \<Longrightarrow>
      \<exists>s'. pop s = Some (c, s') \<and> invar s' \<and> contents s' = cs \<and> rest s' = rest s"
begin

text \<open>Both read loops move a prefix of the contents into the buffer, in order.\<close>

lemma read_for_ok:
  assumes "invar s" and "n \<le> length (contents s)" and "length got \<le> want"
  defines "m \<equiv> min n (want - length got)"
  shows "\<exists>s'. read_for pop n s want got
      = Some (n \<noteq> 0 \<and> want - length got \<le> n, s', got @ take m (contents s))
    \<and> invar s' \<and> contents s' = drop m (contents s) \<and> rest s' = rest s"
  using assms(1-3) unfolding m_def
proof (induction n arbitrary: s got)
  case (Suc n)
  show ?case
  proof (cases "length got < want")
    case True
    obtain c cs where c: "contents s = c # cs" using Suc.prems(2) by (cases "contents s") auto
    obtain s1 where s1: "pop s = Some (c, s1)" "invar s1" "contents s1 = cs" "rest s1 = rest s"
      using pop_ok [OF Suc.prems(1) c] by blast
    show ?thesis
    proof (cases "Suc (length got) = want")
      case True
      then show ?thesis using s1 c by auto
    next
      case False
      have "want - length got = Suc (want - length (got @ [c]))" using True by simp
      then show ?thesis
        using Suc.IH [OF s1(2), of "got @ [c]"] Suc.prems(2) True False s1 c by auto
    qed
  next
    case False
    then show ?thesis using Suc.prems by auto
  qed
qed simp

lemma read_bytes_for_ok:
  assumes "invar s" and "n \<le> length (contents s)" and "length got \<le> want"
  defines "m \<equiv> min n (want - length got)"
  shows "\<exists>s'. read_bytes_for pop n s want got
      = Some (want - length got < n, s', got @ take m (contents s))
    \<and> invar s' \<and> contents s' = drop m (contents s) \<and> rest s' = rest s"
  using assms(1-3) unfolding m_def
proof (induction n arbitrary: s got)
  case (Suc n)
  show ?case
  proof (cases "length got = want")
    case False
    then have lt: "length got < want" using Suc.prems(3) by simp
    obtain c cs where c: "contents s = c # cs" using Suc.prems(2) by (cases "contents s") auto
    obtain s1 where s1: "pop s = Some (c, s1)" "invar s1" "contents s1 = cs" "rest s1 = rest s"
      using pop_ok [OF Suc.prems(1) c] by blast
    have "want - length got = Suc (want - length (got @ [c]))" using lt by simp
    then show ?thesis
      using Suc.IH [OF s1(2), of "got @ [c]"] Suc.prems(2) lt s1 c by auto
  qed (use Suc.prems in auto)
qed simp

lemma write_for_ok:
  assumes "invar s" and "length (contents s) + n \<le> cap" and "k \<le> length buf"
  defines "m \<equiv> min n (length buf - k)"
  shows "\<exists>s'. write_for push n s buf k = Some (n \<noteq> 0 \<and> length buf - k \<le> n, s', k + m)
    \<and> invar s' \<and> contents s' = contents s @ take m (drop k buf) \<and> rest s' = rest s"
  using assms(1-3) unfolding m_def
proof (induction n arbitrary: s k)
  case (Suc n)
  show ?case
  proof (cases "k < length buf")
    case True
    obtain s1 where s1: "push s (buf ! k) = Some s1" "invar s1" "contents s1 = contents s @ [buf ! k]"
      "rest s1 = rest s" using push_ok [OF Suc.prems(1), of "buf ! k"] Suc.prems(2) by auto
    have d: "drop k buf = buf ! k # drop (Suc k) buf" using True by (rule Cons_nth_drop_Suc [symmetric])
    show ?thesis
    proof (cases "Suc k = length buf")
      case True
      then show ?thesis using s1 d by auto
    next
      case False
      have "length buf - k = Suc (length buf - Suc k)" using True by simp
      then show ?thesis
        using Suc.IH [OF s1(2), of "Suc k"] Suc.prems(2) True False s1 d by auto
    qed
  qed (use Suc.prems in auto)
qed simp

lemma write_bytes_for_ok:
  assumes "invar s" and "length (contents s) + n \<le> cap" and "k \<le> length buf"
  defines "m \<equiv> min n (length buf - k)"
  shows "\<exists>s'. write_bytes_for push n s buf k = Some (length buf - k < n, s', k + m)
    \<and> invar s' \<and> contents s' = contents s @ take m (drop k buf) \<and> rest s' = rest s"
  using assms(1-3) unfolding m_def
proof (induction n arbitrary: s k)
  case (Suc n)
  show ?case
  proof (cases "k = length buf")
    case False
    then have lt: "k < length buf" using Suc.prems(3) by simp
    obtain s1 where s1: "push s (buf ! k) = Some s1" "invar s1" "contents s1 = contents s @ [buf ! k]"
      "rest s1 = rest s" using push_ok [OF Suc.prems(1), of "buf ! k"] Suc.prems(2) by auto
    have d: "drop k buf = buf ! k # drop (Suc k) buf" using lt by (rule Cons_nth_drop_Suc [symmetric])
    have "length buf - k = Suc (length buf - Suc k)" using lt by simp
    then show ?thesis
      using Suc.IH [OF s1(2), of "Suc k"] Suc.prems(2) lt s1 d False by auto
  qed (use Suc.prems in auto)
qed simp

end

end
