(* ===== verification/Pipe.thy ===== *)
theory Pipe
  imports Byte_Queue
begin

text \<open>
  Pipes (\<open>os/src/fs/pipe.rs\<close>): the ring buffer, the critical sections of the blocking and
  non-blocking transfers, \<open>poll\<close>, and the interleaving of any number of calls on one pipe.
\<close>

unbundle bit_operations_syntax

section \<open>The ring buffer\<close>

definition RING_BUFFER_SIZE :: nat where "RING_BUFFER_SIZE = 1024"

datatype ring_status = Full | Empty | Normal

text \<open>The \<open>Weak\<close> references to the two ends are represented by their strong counts.\<close>

record ring =
  rb_arr :: "u8 list"
  rb_head :: nat
  rb_tail :: nat
  rb_status :: ring_status
  rb_read_end :: "nat option"
  rb_write_end :: "nat option"

definition ring_new :: ring where
  "ring_new = \<lparr>rb_arr = replicate RING_BUFFER_SIZE 0, rb_head = 0, rb_tail = 0, rb_status = Empty,
     rb_read_end = None, rb_write_end = None\<rparr>"

definition write_byte :: "ring \<Rightarrow> u8 \<Rightarrow> ring option" where
  "write_byte r byte = do {
     let r = r\<lparr>rb_status := Normal\<rparr>;
     arr \<leftarrow> put (rb_arr r) (rb_tail r) byte;
     let r = r\<lparr>rb_arr := arr, rb_tail := (rb_tail r + 1) mod RING_BUFFER_SIZE\<rparr>;
     Some (if rb_tail r = rb_head r then r\<lparr>rb_status := Full\<rparr> else r)
   }"

definition read_byte :: "ring \<Rightarrow> (u8 \<times> ring) option" where
  "read_byte r = do {
     let r = r\<lparr>rb_status := Normal\<rparr>;
     c \<leftarrow> idx (rb_arr r) (rb_head r);
     let r = r\<lparr>rb_head := (rb_head r + 1) mod RING_BUFFER_SIZE\<rparr>;
     Some (c, if rb_head r = rb_tail r then r\<lparr>rb_status := Empty\<rparr> else r)
   }"

definition available_read :: "ring \<Rightarrow> nat" where
  "available_read r =
     (if rb_status r = Empty then 0
      else if rb_tail r > rb_head r then rb_tail r - rb_head r
      else rb_tail r + RING_BUFFER_SIZE - rb_head r)"

definition available_write :: "ring \<Rightarrow> nat" where
  "available_write r = (if rb_status r = Full then 0 else RING_BUFFER_SIZE - available_read r)"

definition all_write_ends_closed :: "ring \<Rightarrow> bool option" where
  "all_write_ends_closed r = map_option (\<lambda>n. n = 0) (rb_write_end r)"

definition all_read_ends_closed :: "ring \<Rightarrow> bool option" where
  "all_read_ends_closed r = map_option (\<lambda>n. n = 0) (rb_read_end r)"

text \<open>\<open>make_pipe\<close>: both ends exist once.\<close>

definition make_pipe :: ring where
  "make_pipe = ring_new\<lparr>rb_read_end := Some 1, rb_write_end := Some 1\<rparr>"

section \<open>Transfers\<close>

text \<open>
  What one pass through the loop body of a blocking transfer does with the buffer lock held: return
  to the caller, wait on the wait queue, or go round again.
\<close>

datatype round = Return "errno + nat" | Block | Again

definition read_at_round :: "ring \<Rightarrow> nat \<Rightarrow> u8 list \<Rightarrow> (round \<times> ring \<times> u8 list) option" where
  "read_at_round r want got =
     (let loop_read = available_read r in
      if loop_read = 0 then
        if length got > 0 then Some (Return (Ok (length got)), r, got)
        else do {
          closed \<leftarrow> all_write_ends_closed r;
          Some (if closed then Return (Ok (length got)) else Block, r, got)
        }
      else do {
        (fin, r', got') \<leftarrow> read_for read_byte loop_read r want got;
        Some (if fin then Return (Ok (length got')) else Again, r', got')
      })"

definition read_bytes_round :: "ring \<Rightarrow> nat \<Rightarrow> u8 list \<Rightarrow> (round \<times> ring \<times> u8 list) option" where
  "read_bytes_round r want got =
     (let loop_read = available_read r in
      if loop_read = 0 then
        if length got > 0 then Some (Return (Ok (length got)), r, got)
        else do {
          closed \<leftarrow> all_write_ends_closed r;
          Some (if closed then Return (Ok (length got)) else Block, r, got)
        }
      else do {
        (fin, r', got') \<leftarrow> read_bytes_for read_byte loop_read r want got;
        Some (if fin then Return (Ok (length got')) else Again, r', got')
      })"

definition write_at_round :: "ring \<Rightarrow> u8 list \<Rightarrow> nat \<Rightarrow> (round \<times> ring \<times> nat) option" where
  "write_at_round r buf k = do {
     closed \<leftarrow> all_read_ends_closed r;
     if closed then Some (Return (Ok k), r, k)
     else
       let loop_write = available_write r in
       if loop_write = 0 then Some (Block, r, k)
       else do {
         (fin, r', k') \<leftarrow> write_for write_byte loop_write r buf k;
         Some (if fin then Return (Ok k') else Again, r', k')
       }
   }"

definition write_bytes_round :: "ring \<Rightarrow> u8 list \<Rightarrow> nat \<Rightarrow> (round \<times> ring \<times> nat) option" where
  "write_bytes_round r buf k =
     (let loop_write = available_write r in
      if loop_write = 0 then Some (Block, r, k)
      else do {
        (fin, r', k') \<leftarrow> write_bytes_for write_byte loop_write r buf k;
        Some (if fin then Return (Ok k') else Again, r', k')
      })"

definition read_nonblocking :: "ring \<Rightarrow> nat \<Rightarrow> ((errno + nat) \<times> ring \<times> u8 list) option" where
  "read_nonblocking r want =
     (let loop_read = available_read r in
      if loop_read = 0 then do {
        closed \<leftarrow> all_write_ends_closed r;
        Some (if closed then Ok 0 else Err EAGAIN, r, [])
      } else do {
        (_, r', got) \<leftarrow> read_for read_byte loop_read r want [];
        Some (Ok (length got), r', got)
      })"

definition write_nonblocking :: "ring \<Rightarrow> u8 list \<Rightarrow> ((errno + nat) \<times> ring) option" where
  "write_nonblocking r buf = do {
     closed \<leftarrow> all_read_ends_closed r;
     if closed then Some (Ok 0, r)
     else
       let loop_write = available_write r in
       if loop_write = 0 then Some (Err EAGAIN, r)
       else do {
         (_, r', k) \<leftarrow> write_for write_byte loop_write r buf 0;
         Some (Ok k, r')
       }
   }"

text \<open>
  The whole blocking calls when nobody else runs. \<open>sig\<close> is the answer of
  \<open>has_unmasked_pending_signal\<close>; the wait is skipped when its condition already holds, and
  otherwise the caller sleeps (\<open>Sleeps\<close>). \<open>Spinning\<close> is what is left when the fuel is used up.
\<close>

datatype call_outcome = Returned "errno + nat" | Sleeps | Spinning

fun read_at_call :: "nat \<Rightarrow> bool \<Rightarrow> ring \<Rightarrow> nat \<Rightarrow> u8 list \<Rightarrow> (call_outcome \<times> ring \<times> u8 list) option" where
  "read_at_call 0 sig r want got = Some (Spinning, r, got)"
| "read_at_call (Suc fuel) sig r want got = do {
     (act, r, got) \<leftarrow> read_at_round r want got;
     case act of
       Return v \<Rightarrow> Some (Returned v, r, got)
     | Again \<Rightarrow> read_at_call fuel sig r want got
     | Block \<Rightarrow> do {
         closed \<leftarrow> all_write_ends_closed r;
         if available_read r > 0 \<or> closed \<or> sig then
           if sig then Some (Returned (if length got > 0 then Ok (length got) else Err EINTR), r, got)
           else read_at_call fuel sig r want got
         else Some (Sleeps, r, got)
       }
   }"

fun write_at_call :: "nat \<Rightarrow> bool \<Rightarrow> ring \<Rightarrow> u8 list \<Rightarrow> nat \<Rightarrow> (call_outcome \<times> ring \<times> nat) option" where
  "write_at_call 0 sig r buf k = Some (Spinning, r, k)"
| "write_at_call (Suc fuel) sig r buf k = do {
     (act, r, k) \<leftarrow> write_at_round r buf k;
     case act of
       Return v \<Rightarrow> Some (Returned v, r, k)
     | Again \<Rightarrow> write_at_call fuel sig r buf k
     | Block \<Rightarrow> do {
         closed \<leftarrow> all_read_ends_closed r;
         if available_write r > 0 \<or> closed \<or> sig then
           if sig then Some (Returned (if k > 0 then Ok k else Err EINTR), r, k)
           else write_at_call fuel sig r buf k
         else Some (Sleeps, r, k)
       }
   }"

fun write_bytes_call :: "nat \<Rightarrow> bool \<Rightarrow> ring \<Rightarrow> u8 list \<Rightarrow> nat \<Rightarrow> (call_outcome \<times> ring \<times> nat) option" where
  "write_bytes_call 0 sig r buf k = Some (Spinning, r, k)"
| "write_bytes_call (Suc fuel) sig r buf k = do {
     (act, r, k) \<leftarrow> write_bytes_round r buf k;
     case act of
       Return v \<Rightarrow> Some (Returned v, r, k)
     | Again \<Rightarrow> write_bytes_call fuel sig r buf k
     | Block \<Rightarrow> do {
         closed \<leftarrow> all_read_ends_closed r;
         if available_write r > 0 \<or> closed \<or> sig then
           if sig then Some (Returned (if k > 0 then Ok k else Err EINTR), r, k)
           else write_bytes_call fuel sig r buf k
         else Some (Sleeps, r, k)
       }
   }"

definition POLLIN :: u16 where "POLLIN = 1"
definition POLLOUT :: u16 where "POLLOUT = 4"
definition POLLHUP :: u16 where "POLLHUP = 16"

text \<open>\<open>readable\<close> and \<open>writable\<close> say which end of the pipe is polled.\<close>

definition poll :: "bool \<Rightarrow> bool \<Rightarrow> ring \<Rightarrow> u16 \<Rightarrow> u16 option" where
  "poll readable writable r events = do {
     ready \<leftarrow> (if readable \<and> (events AND POLLIN) \<noteq> 0 then do {
                 let ready = (if available_read r > 0 then 0 OR POLLIN else 0);
                 closed \<leftarrow> all_write_ends_closed r;
                 Some (if closed then ready OR POLLHUP else ready)
               } else Some 0);
     Some (if writable \<and> (events AND POLLOUT) \<noteq> 0 \<and> available_write r > 0 then ready OR POLLOUT else ready)
   }"

section \<open>The ring buffer is a bounded byte queue\<close>

definition ring_inv :: "ring \<Rightarrow> bool" where
  "ring_inv r \<longleftrightarrow> length (rb_arr r) = RING_BUFFER_SIZE \<and> rb_head r < RING_BUFFER_SIZE
     \<and> rb_tail r < RING_BUFFER_SIZE \<and> (rb_status r = Normal \<longleftrightarrow> rb_head r \<noteq> rb_tail r)"

definition ring_contents :: "ring \<Rightarrow> u8 list" where
  "ring_contents r = map (\<lambda>k. rb_arr r ! ((rb_head r + k) mod RING_BUFFER_SIZE)) [0..<available_read r]"

definition ring_ends :: "ring \<Rightarrow> nat option \<times> nat option" where
  "ring_ends r = (rb_read_end r, rb_write_end r)"

lemma RING_BUFFER_SIZE_pos [simp]: "0 < RING_BUFFER_SIZE"
  by (simp add: RING_BUFFER_SIZE_def)

lemma length_ring_contents [simp]: "length (ring_contents r) = available_read r"
  by (simp add: ring_contents_def)

lemma ring_contents_empty [simp]: "available_read r = 0 \<Longrightarrow> ring_contents r = []"
  by (simp add: ring_contents_def)

lemma available_read_le: "ring_inv r \<Longrightarrow> available_read r \<le> RING_BUFFER_SIZE"
  by (cases "rb_status r") (auto simp: available_read_def ring_inv_def)

lemma available_write_eq: "ring_inv r \<Longrightarrow> available_write r = RING_BUFFER_SIZE - available_read r"
  by (auto simp: available_write_def available_read_def ring_inv_def)

lemma tail_eq: "ring_inv r \<Longrightarrow> rb_tail r = (rb_head r + available_read r) mod RING_BUFFER_SIZE"
  by (cases "rb_status r") (auto simp: available_read_def ring_inv_def mod_if le_mod_geq)

lemma mod_shift_neq:
  assumes "k < a" and "a < (n::nat)"
  shows "(h + k) mod n \<noteq> (h + a) mod n"
proof
  assume "(h + k) mod n = (h + a) mod n"
  then have "n dvd (h + a) - (h + k)" using assms(1) by (metis mod_eq_dvd_iff_nat nat_add_left_cancel_le less_imp_le)
  then have "n dvd a - k" by simp
  then show False using assms by (auto dest: dvd_imp_le)
qed

lemma write_byte_eq:
  assumes "ring_inv r"
  shows "write_byte r b = Some (r\<lparr>rb_arr := (rb_arr r)[rb_tail r := b],
    rb_tail := (rb_tail r + 1) mod RING_BUFFER_SIZE,
    rb_status := (if (rb_tail r + 1) mod RING_BUFFER_SIZE = rb_head r then Full else Normal)\<rparr>)"
  using assms by (simp add: write_byte_def ring_inv_def Let_def)

lemma read_byte_eq:
  assumes "ring_inv r"
  shows "read_byte r = Some (rb_arr r ! rb_head r, r\<lparr>rb_head := (rb_head r + 1) mod RING_BUFFER_SIZE,
    rb_status := (if (rb_head r + 1) mod RING_BUFFER_SIZE = rb_tail r then Empty else Normal)\<rparr>)"
  using assms by (simp add: read_byte_def ring_inv_def Let_def)

lemma available_read_write:
  assumes "ring_inv r" and "available_read r < RING_BUFFER_SIZE" and "write_byte r b = Some r'"
  shows "available_read r' = Suc (available_read r)" and "ring_inv r'" and "ring_ends r' = ring_ends r"
  using assms
  by (cases "rb_status r";
      auto simp: write_byte_eq ring_inv_def available_read_def ring_ends_def mod_Suc split: if_splits)+

lemma available_read_read:
  assumes "ring_inv r" and "0 < available_read r" and "read_byte r = Some (c, r')"
  shows "available_read r = Suc (available_read r')" and "ring_inv r'" and "ring_ends r' = ring_ends r"
  using assms
  by (cases "rb_status r";
      auto simp: read_byte_eq ring_inv_def available_read_def ring_ends_def mod_Suc split: if_splits)+

lemma ring_push:
  assumes "ring_inv r" and "length (ring_contents r) < RING_BUFFER_SIZE"
  shows "\<exists>r'. write_byte r b = Some r' \<and> ring_inv r' \<and> ring_contents r' = ring_contents r @ [b]
    \<and> ring_ends r' = ring_ends r"
proof -
  obtain r' where r': "write_byte r b = Some r'" using write_byte_eq [OF assms(1)] by blast
  have lt: "available_read r < RING_BUFFER_SIZE" using assms(2) by simp
  note a = available_read_write [OF assms(1) lt r']
  have tl: "rb_tail r < length (rb_arr r)" using assms(1) by (simp add: ring_inv_def)
  have arr: "rb_arr r' = (rb_arr r)[rb_tail r := b]" "rb_head r' = rb_head r"
    using r' write_byte_eq [OF assms(1), of b] by auto
  have "rb_arr r' ! ((rb_head r + k) mod RING_BUFFER_SIZE) = rb_arr r ! ((rb_head r + k) mod RING_BUFFER_SIZE)"
    if "k < available_read r" for k
    using mod_shift_neq [OF that lt, of "rb_head r"] tail_eq [OF assms(1)] by (simp add: arr)
  moreover have "rb_arr r' ! ((rb_head r + available_read r) mod RING_BUFFER_SIZE) = b"
    using tail_eq [OF assms(1)] tl by (simp add: arr)
  ultimately have "ring_contents r' = ring_contents r @ [b]"
    by (simp add: ring_contents_def a arr(2))
  then show ?thesis using r' a by blast
qed

lemma ring_pop:
  assumes "ring_inv r" and "ring_contents r = c # cs"
  shows "\<exists>r'. read_byte r = Some (c, r') \<and> ring_inv r' \<and> ring_contents r' = cs \<and> ring_ends r' = ring_ends r"
proof -
  have pos: "0 < available_read r" using assms(2) length_ring_contents [of r] by simp
  obtain d r' where r': "read_byte r = Some (d, r')" using read_byte_eq [OF assms(1)] by blast
  note a = available_read_read [OF assms(1) pos r']
  have hd: "rb_head r < RING_BUFFER_SIZE" using assms(1) by (simp add: ring_inv_def)
  have d: "d = rb_arr r ! rb_head r" "rb_arr r' = rb_arr r" "rb_head r' = (rb_head r + 1) mod RING_BUFFER_SIZE"
    using r' read_byte_eq [OF assms(1)] by auto
  have "c # cs = rb_arr r ! rb_head r # map (\<lambda>k. rb_arr r ! ((rb_head r + Suc k) mod RING_BUFFER_SIZE)) [0..<available_read r']"
    using assms(2) hd by (auto simp: ring_contents_def a(1) upt_conv_Cons map_Suc_upt [symmetric] simp del: upt_Suc)
  moreover have "ring_contents r' = map (\<lambda>k. rb_arr r ! ((rb_head r + Suc k) mod RING_BUFFER_SIZE)) [0..<available_read r']"
    by (simp add: ring_contents_def d mod_simps)
  ultimately show ?thesis using r' a d by simp
qed

interpretation rbq: byte_queue write_byte read_byte ring_contents ring_ends ring_inv RING_BUFFER_SIZE
  by unfold_locales (rule ring_push ring_pop; assumption)+

section \<open>Any number of calls on one pipe\<close>

text \<open>
  The calls in progress, by thread. Each step is one critical section (a round of a blocking call,
  or a non-blocking call), the start of a call, its interruption by a signal while it waits, or the
  drop of one end. The two logs are the bytes stored into user buffers and the bytes taken from them.
\<close>

datatype pipe_call = ReadAt nat "u8 list" | ReadBytes nat "u8 list"
  | WriteAt "u8 list" nat | WriteBytes "u8 list" nat

record pipe_sys =
  ps_ring :: ring
  ps_calls :: "nat \<Rightarrow> pipe_call option"
  ps_read :: "u8 list"
  ps_written :: "u8 list"

datatype pipe_event = BeginReadAt nat nat | BeginReadBytes nat nat
  | BeginWriteAt nat "u8 list" | BeginWriteBytes nat "u8 list"
  | Run nat | Interrupt nat | NonblockRead nat | NonblockWrite "u8 list"
  | DropReadEnd | DropWriteEnd

definition after_round :: "round \<Rightarrow> pipe_call \<Rightarrow> pipe_call option" where
  "after_round act call = (case act of Return _ \<Rightarrow> None | _ \<Rightarrow> Some call)"

fun run_call :: "ring \<Rightarrow> pipe_call \<Rightarrow> (pipe_call option \<times> ring \<times> u8 list \<times> u8 list) option" where
  "run_call r (ReadAt want got) = do {
     (act, r', got') \<leftarrow> read_at_round r want got;
     Some (after_round act (ReadAt want got'), r', drop (length got) got', [])
   }"
| "run_call r (ReadBytes want got) = do {
     (act, r', got') \<leftarrow> read_bytes_round r want got;
     Some (after_round act (ReadBytes want got'), r', drop (length got) got', [])
   }"
| "run_call r (WriteAt buf k) = do {
     (act, r', k') \<leftarrow> write_at_round r buf k;
     Some (after_round act (WriteAt buf k'), r', [], take (k' - k) (drop k buf))
   }"
| "run_call r (WriteBytes buf k) = do {
     (act, r', k') \<leftarrow> write_bytes_round r buf k;
     Some (after_round act (WriteBytes buf k'), r', [], take (k' - k) (drop k buf))
   }"

fun pipe_step :: "pipe_sys \<Rightarrow> pipe_event \<Rightarrow> pipe_sys option" where
  "pipe_step s (BeginReadAt t want) = Some (s\<lparr>ps_calls := (ps_calls s)(t \<mapsto> ReadAt want [])\<rparr>)"
| "pipe_step s (BeginReadBytes t want) = Some (s\<lparr>ps_calls := (ps_calls s)(t \<mapsto> ReadBytes want [])\<rparr>)"
| "pipe_step s (BeginWriteAt t buf) = Some (s\<lparr>ps_calls := (ps_calls s)(t \<mapsto> WriteAt buf 0)\<rparr>)"
| "pipe_step s (BeginWriteBytes t buf) = Some (s\<lparr>ps_calls := (ps_calls s)(t \<mapsto> WriteBytes buf 0)\<rparr>)"
| "pipe_step s (Run t) =
     (case ps_calls s t of
        None \<Rightarrow> Some s
      | Some call \<Rightarrow> do {
          (next, r, rd, wr) \<leftarrow> run_call (ps_ring s) call;
          Some (s\<lparr>ps_ring := r, ps_calls := (ps_calls s)(t := next),
                  ps_read := ps_read s @ rd, ps_written := ps_written s @ wr\<rparr>)
        })"
| "pipe_step s (Interrupt t) = Some (s\<lparr>ps_calls := (ps_calls s)(t := None)\<rparr>)"
| "pipe_step s (NonblockRead want) = do {
     (_, r, got) \<leftarrow> read_nonblocking (ps_ring s) want;
     Some (s\<lparr>ps_ring := r, ps_read := ps_read s @ got\<rparr>)
   }"
| "pipe_step s (NonblockWrite buf) = do {
     (res, r) \<leftarrow> write_nonblocking (ps_ring s) buf;
     Some (s\<lparr>ps_ring := r, ps_written := ps_written s @ (case res of Ok k \<Rightarrow> take k buf | Err _ \<Rightarrow> [])\<rparr>)
   }"
| "pipe_step s DropReadEnd =
     Some (s\<lparr>ps_ring := (ps_ring s)\<lparr>rb_read_end := map_option (\<lambda>n. n - 1) (rb_read_end (ps_ring s))\<rparr>\<rparr>)"
| "pipe_step s DropWriteEnd =
     Some (s\<lparr>ps_ring := (ps_ring s)\<lparr>rb_write_end := map_option (\<lambda>n. n - 1) (rb_write_end (ps_ring s))\<rparr>\<rparr>)"

definition pipe_sys_init :: pipe_sys where
  "pipe_sys_init = \<lparr>ps_ring = make_pipe, ps_calls = (\<lambda>_. None), ps_read = [], ps_written = []\<rparr>"

fun call_ok :: "pipe_call \<Rightarrow> bool" where
  "call_ok (ReadAt want got) \<longleftrightarrow> length got \<le> want"
| "call_ok (ReadBytes want got) \<longleftrightarrow> length got \<le> want"
| "call_ok (WriteAt buf k) \<longleftrightarrow> k \<le> length buf"
| "call_ok (WriteBytes buf k) \<longleftrightarrow> k \<le> length buf"

definition ring_ok :: "ring \<Rightarrow> bool" where
  "ring_ok r \<longleftrightarrow> ring_inv r \<and> rb_read_end r \<noteq> None \<and> rb_write_end r \<noteq> None"

definition pipe_inv :: "pipe_sys \<Rightarrow> bool" where
  "pipe_inv s \<longleftrightarrow> ring_ok (ps_ring s) \<and> (\<forall>t call. ps_calls s t = Some call \<longrightarrow> call_ok call)
     \<and> ps_written s = ps_read s @ ring_contents (ps_ring s)"

lemma ring_ok_ends: "ring_inv r' \<Longrightarrow> ring_ends r' = ring_ends r \<Longrightarrow> ring_ok r \<Longrightarrow> ring_ok r'"
  by (simp add: ring_ok_def ring_ends_def)

lemma read_at_round_ok:
  assumes "ring_ok r" and "length got \<le> want"
  shows "\<exists>act r' m. read_at_round r want got = Some (act, r', got @ take m (ring_contents r)) \<and> ring_ok r'
    \<and> length got + m \<le> want \<and> m \<le> length (ring_contents r)
    \<and> ring_contents r' = drop m (ring_contents r)
    \<and> act = (if available_read r = 0 then
               if length got > 0 \<or> rb_write_end r = Some 0 then Return (Ok (length got)) else Block
             else if want - length got \<le> available_read r then Return (Ok (length got + m)) else Again)
    \<and> m = min (available_read r) (want - length got)"
proof (cases "available_read r = 0")
  case True
  then show ?thesis using assms by (auto simp: read_at_round_def Let_def all_write_ends_closed_def ring_ok_def)
next
  case False
  obtain r' where "read_for read_byte (available_read r) r want got
      = Some (available_read r \<noteq> 0 \<and> want - length got \<le> available_read r, r',
          got @ take (min (available_read r) (want - length got)) (ring_contents r))"
    "ring_inv r'" "ring_contents r' = drop (min (available_read r) (want - length got)) (ring_contents r)"
    "ring_ends r' = ring_ends r"
    using rbq.read_for_ok [of r "available_read r" got want] assms by (auto simp: ring_ok_def)
  moreover have "length got + min (available_read r) (want - length got) \<le> want" using assms(2) by auto
  ultimately show ?thesis
    using False ring_ok_ends [of r' r] assms by (auto simp: read_at_round_def Let_def)
qed

lemma read_bytes_round_ok:
  assumes "ring_ok r" and "length got \<le> want"
  shows "\<exists>act r' m. read_bytes_round r want got = Some (act, r', got @ take m (ring_contents r)) \<and> ring_ok r'
    \<and> length got + m \<le> want \<and> m \<le> length (ring_contents r)
    \<and> ring_contents r' = drop m (ring_contents r)"
proof (cases "available_read r = 0")
  case True
  then show ?thesis using assms by (auto simp: read_bytes_round_def Let_def all_write_ends_closed_def ring_ok_def)
next
  case False
  obtain r' where "read_bytes_for read_byte (available_read r) r want got
      = Some (want - length got < available_read r, r',
          got @ take (min (available_read r) (want - length got)) (ring_contents r))"
    "ring_inv r'" "ring_contents r' = drop (min (available_read r) (want - length got)) (ring_contents r)"
    "ring_ends r' = ring_ends r"
    using rbq.read_bytes_for_ok [of r "available_read r" got want] assms by (auto simp: ring_ok_def)
  moreover have "length got + min (available_read r) (want - length got) \<le> want" using assms(2) by auto
  ultimately show ?thesis
    using False ring_ok_ends [of r' r] assms by (auto simp: read_bytes_round_def Let_def)
qed

lemma write_at_round_ok:
  assumes "ring_ok r" and "k \<le> length buf"
  shows "\<exists>act r' m. write_at_round r buf k = Some (act, r', k + m) \<and> ring_ok r'
    \<and> k + m \<le> length buf \<and> ring_contents r' = ring_contents r @ take m (drop k buf)
    \<and> act = (if rb_read_end r = Some 0 then Return (Ok k)
             else if available_write r = 0 then Block
             else if length buf - k \<le> available_write r then Return (Ok (k + m)) else Again)
    \<and> m = (if rb_read_end r = Some 0 then 0 else min (available_write r) (length buf - k))"
proof (cases "rb_read_end r = Some 0 \<or> available_write r = 0")
  case True
  then show ?thesis using assms by (auto simp: write_at_round_def Let_def all_read_ends_closed_def ring_ok_def)
next
  case False
  have "length (ring_contents r) + available_write r \<le> RING_BUFFER_SIZE"
    using assms(1) available_write_eq [of r] available_read_le [of r] by (simp add: ring_ok_def)
  then obtain r' where "write_for write_byte (available_write r) r buf k
      = Some (available_write r \<noteq> 0 \<and> length buf - k \<le> available_write r, r', k + min (available_write r) (length buf - k))"
    "ring_inv r'" "ring_contents r' = ring_contents r @ take (min (available_write r) (length buf - k)) (drop k buf)"
    "ring_ends r' = ring_ends r"
    using rbq.write_for_ok [of r "available_write r" k buf] assms by (auto simp: ring_ok_def)
  then show ?thesis
    using False ring_ok_ends [of r' r] assms
    by (auto simp: write_at_round_def Let_def all_read_ends_closed_def ring_ok_def)
qed

lemma write_bytes_round_ok:
  assumes "ring_ok r" and "k \<le> length buf"
  shows "\<exists>act r' m. write_bytes_round r buf k = Some (act, r', k + m) \<and> ring_ok r'
    \<and> k + m \<le> length buf \<and> ring_contents r' = ring_contents r @ take m (drop k buf)"
proof (cases "available_write r = 0")
  case True
  then show ?thesis using assms by (auto simp: write_bytes_round_def Let_def)
next
  case False
  have "length (ring_contents r) + available_write r \<le> RING_BUFFER_SIZE"
    using assms(1) available_write_eq [of r] available_read_le [of r] by (simp add: ring_ok_def)
  then obtain r' where "write_bytes_for write_byte (available_write r) r buf k
      = Some (length buf - k < available_write r, r', k + min (available_write r) (length buf - k))"
    "ring_inv r'" "ring_contents r' = ring_contents r @ take (min (available_write r) (length buf - k)) (drop k buf)"
    "ring_ends r' = ring_ends r"
    using rbq.write_bytes_for_ok [of r "available_write r" k buf] assms by (auto simp: ring_ok_def)
  then show ?thesis
    using False ring_ok_ends [of r' r] assms by (auto simp: write_bytes_round_def Let_def)
qed

lemma read_nonblocking_ok:
  assumes "ring_ok r"
  shows "\<exists>r'. read_nonblocking r want = Some
      (if available_read r = 0 \<and> rb_write_end r \<noteq> Some 0 then Err EAGAIN else Ok (min (available_read r) want),
       r', take want (ring_contents r))
    \<and> ring_ok r' \<and> ring_contents r' = drop want (ring_contents r)"
proof (cases "available_read r = 0")
  case True
  then show ?thesis using assms by (auto simp: read_nonblocking_def all_write_ends_closed_def ring_ok_def)
next
  case False
  have t: "take (min (available_read r) want) (ring_contents r) = take want (ring_contents r)"
    "drop (min (available_read r) want) (ring_contents r) = drop want (ring_contents r)"
    by (simp_all add: min_def)
  obtain r' where "read_for read_byte (available_read r) r want []
      = Some (available_read r \<noteq> 0 \<and> want \<le> available_read r, r', take want (ring_contents r))"
    "ring_inv r'" "ring_contents r' = drop want (ring_contents r)" "ring_ends r' = ring_ends r"
    using rbq.read_for_ok [of r "available_read r" "[]" want] assms by (auto simp: ring_ok_def t)
  then show ?thesis
    using False ring_ok_ends [of r' r] assms by (auto simp: read_nonblocking_def Let_def)
qed

lemma write_nonblocking_ok:
  assumes "ring_ok r"
  shows "\<exists>res r'. write_nonblocking r buf = Some (res, r') \<and> ring_ok r'
     \<and> ring_contents r' = ring_contents r @ (case res of Ok k \<Rightarrow> take k buf | Err _ \<Rightarrow> [])
     \<and> res = (if rb_read_end r = Some 0 then Ok 0 else if available_write r = 0 then Err EAGAIN
              else Ok (min (available_write r) (length buf)))"
proof (cases "rb_read_end r = Some 0 \<or> available_write r = 0")
  case True
  then show ?thesis using assms by (auto simp: write_nonblocking_def Let_def all_read_ends_closed_def ring_ok_def)
next
  case False
  have "length (ring_contents r) + available_write r \<le> RING_BUFFER_SIZE"
    using assms available_write_eq [of r] available_read_le [of r] by (simp add: ring_ok_def)
  then obtain r' where "write_for write_byte (available_write r) r buf 0
      = Some (available_write r \<noteq> 0 \<and> length buf \<le> available_write r, r', min (available_write r) (length buf))"
    "ring_inv r'" "ring_contents r' = ring_contents r @ take (min (available_write r) (length buf)) buf"
    "ring_ends r' = ring_ends r"
    using rbq.write_for_ok [of r "available_write r" 0 buf] assms by (auto simp: ring_ok_def)
  then show ?thesis
    using False ring_ok_ends [of r' r] assms
    by (auto simp: write_nonblocking_def Let_def all_read_ends_closed_def ring_ok_def)
qed

lemma run_call_ok:
  assumes "ring_ok r" and "call_ok call"
  shows "\<exists>next r' rd wr. run_call r call = Some (next, r', rd, wr) \<and> ring_ok r'
    \<and> ring_contents r @ wr = rd @ ring_contents r' \<and> (\<forall>c. next = Some c \<longrightarrow> call_ok c)"
proof (cases call)
  case (ReadAt want got)
  then show ?thesis using read_at_round_ok [OF assms(1), of got want] assms(2)
    by (auto simp: after_round_def split: round.splits)
next
  case (ReadBytes want got)
  then show ?thesis using read_bytes_round_ok [OF assms(1), of got want] assms(2)
    by (auto simp: after_round_def split: round.splits)
next
  case (WriteAt buf k)
  then show ?thesis using write_at_round_ok [OF assms(1), of k buf] assms(2)
    by (auto simp: after_round_def split: round.splits)
next
  case (WriteBytes buf k)
  then show ?thesis using write_bytes_round_ok [OF assms(1), of k buf] assms(2)
    by (auto simp: after_round_def split: round.splits)
qed

lemma pipe_step_inv [inv_intros]:
  assumes "pipe_inv s"
  shows "\<exists>s'. pipe_step s e = Some s' \<and> pipe_inv s'"
proof (cases e)
  case (Run t)
  show ?thesis
  proof (cases "ps_calls s t")
    case (Some call)
    then obtain "next" r' rd wr where "run_call (ps_ring s) call = Some (next, r', rd, wr)" "ring_ok r'"
      "ring_contents (ps_ring s) @ wr = rd @ ring_contents r'" "\<forall>c. next = Some c \<longrightarrow> call_ok c"
      using run_call_ok assms unfolding pipe_inv_def by blast
    then show ?thesis using assms Some Run by (auto simp: pipe_inv_def)
  qed (use assms Run in simp)
next
  case (NonblockRead want)
  then show ?thesis
    using assms read_nonblocking_ok [of "ps_ring s" want] by (auto simp: pipe_inv_def)
next
  case (NonblockWrite buf)
  then show ?thesis
    using assms write_nonblocking_ok [of "ps_ring s" buf] by (auto simp: pipe_inv_def)
qed (use assms in \<open>auto simp: pipe_inv_def ring_ok_def ring_inv_def ring_contents_def available_read_def\<close>)

lemma pipe_init_inv [inv_intros]: "pipe_inv pipe_sys_init"
  by (simp add: pipe_inv_def pipe_sys_init_def make_pipe_def ring_new_def ring_ok_def ring_inv_def
      available_read_def)

section \<open>Properties\<close>

text \<open>
  C9. Pipes deliver every byte once and in order. For every interleaving of blocking and
  non-blocking reads and writes by any number of threads, of interruptions and of closing the ends,
  no operation panics, and the bytes written so far are the bytes read so far followed by the
  buffer's contents, which never exceed the buffer's size.
\<close>

theorem pipe_fifo:
  "\<exists>s. for_opt pipe_step pipe_sys_init es = Some s
     \<and> ps_written s = ps_read s @ ring_contents (ps_ring s)
     \<and> length (ring_contents (ps_ring s)) \<le> RING_BUFFER_SIZE"
proof -
  obtain s where "for_opt pipe_step pipe_sys_init es = Some s" "pipe_inv s"
    using for_opt_inv [of pipe_inv, OF pipe_init_inv, of es pipe_step] pipe_step_inv by blast
  then show ?thesis by (auto simp: pipe_inv_def ring_ok_def available_read_le)
qed

text \<open>
  C10. A blocking read returns at once when there is data: running alone on a pipe whose buffer is
  not empty, \<open>read_at_result\<close> returns after at most two rounds with the first
  \<open>min(want, available)\<close> bytes of the buffer, and leaves the others there.
\<close>

theorem read_at_short_read:
  assumes "ring_ok r" and "ring_contents r \<noteq> []" and "fuel \<ge> 2"
  shows "\<exists>r'. read_at_call fuel sig r want []
      = Some (Returned (Ok (min (available_read r) want)), r', take want (ring_contents r))
    \<and> ring_ok r' \<and> ring_contents r' = drop want (ring_contents r)"
proof -
  obtain f where f: "fuel = Suc (Suc f)" using assms(3) by (metis Suc_1 Suc_le_D le_Suc_ex add_Suc_shift plus_1_eq_Suc add.commute)
  have pos: "available_read r \<noteq> 0" using assms(2) ring_contents_empty by blast
  obtain act r' where r': "read_at_round r want [] = Some (act, r', take (min (available_read r) want) (ring_contents r))"
    "ring_ok r'" "ring_contents r' = drop (min (available_read r) want) (ring_contents r)"
    "act = (if want \<le> available_read r then Return (Ok (min (available_read r) want)) else Again)"
    using read_at_round_ok [OF assms(1), of "[]" want] pos by auto
  show ?thesis
  proof (cases "want \<le> available_read r")
    case True
    then show ?thesis using r' f by (auto simp: min_def)
  next
    case False
    then have all: "take want (ring_contents r) = ring_contents r" "drop want (ring_contents r) = []" by simp_all
    have empty: "available_read r' = 0" using r'(3) False length_ring_contents [of r'] by simp
    then have "read_at_round r' want (ring_contents r) = Some (Return (Ok (available_read r)), r', ring_contents r)"
      using pos assms(2) by (simp add: read_at_round_def)
    then show ?thesis using r' f False all by (simp add: min_def)
  qed
qed

theorem read_at_short_read_witness:
  "\<exists>r. ring_ok r \<and> ring_contents r = [7, 8, 9]
     \<and> (\<exists>r'. read_at_call 2 False r 2 [] = Some (Returned (Ok 2), r', [7, 8]) \<and> ring_contents r' = [9])"
proof -
  obtain r where r: "ring_ok r" "ring_contents r = [7, 8, 9]"
    using write_nonblocking_ok [of make_pipe "[7, 8, 9]"]
    by (auto simp: make_pipe_def ring_new_def ring_ok_def ring_inv_def available_read_def
        available_write_def RING_BUFFER_SIZE_def)
  then have "available_read r = 3" using length_ring_contents [of r] by simp
  then show ?thesis using read_at_short_read [of r 2 False 2] r by auto
qed

text \<open>
  C11. \<open>write_bytes_at\<close> can spin for ever. On a pipe whose buffer is full and whose read end has
  been dropped, with no signal pending, the wait is skipped because the read end is closed, and the
  next round finds the buffer full again: no amount of rounds returns to the caller. The user-buffer
  variant \<open>write_at_result\<close> returns in the same state.
\<close>

theorem write_bytes_livelock:
  assumes "available_write r = 0" and "rb_read_end r = Some 0"
  shows "write_bytes_call fuel False r buf k = Some (Spinning, r, k)
    \<and> write_at_call (Suc fuel) False r buf k = Some (Returned (Ok k), r, k)"
proof -
  have "write_bytes_call fuel False r buf k = Some (Spinning, r, k)"
    by (induction fuel) (simp_all add: write_bytes_round_def all_read_ends_closed_def assms)
  then show ?thesis by (simp add: write_at_round_def all_read_ends_closed_def assms)
qed

theorem write_bytes_livelock_witness:
  "available_write (make_pipe\<lparr>rb_status := Full, rb_read_end := Some 0\<rparr>) = 0
   \<and> (\<forall>fuel. write_bytes_call fuel False (make_pipe\<lparr>rb_status := Full, rb_read_end := Some 0\<rparr>) [1] 0
        = Some (Spinning, make_pipe\<lparr>rb_status := Full, rb_read_end := Some 0\<rparr>, 0))"
  using write_bytes_livelock [of "make_pipe\<lparr>rb_status := Full, rb_read_end := Some 0\<rparr>" _ "[1]" 0]
  by (simp add: available_write_def)

text \<open>
  C12. \<open>poll\<close> agrees with \<open>read\<close>: on a pipe whose ends have been set up, polling the read end for
  input reports something exactly when a blocking read of at least one byte would return without
  sleeping, and a poll of the read end never reports writability.
\<close>

theorem poll_read_agrees:
  assumes "ring_ok r" and "want > 0"
  shows "\<exists>ready act r' got. poll True False r POLLIN = Some ready
    \<and> read_at_round r want [] = Some (act, r', got)
    \<and> (ready \<noteq> 0 \<longleftrightarrow> act \<noteq> Block) \<and> (ready AND POLLOUT = 0)"
proof -
  obtain act r' got where "read_at_round r want [] = Some (act, r', got)"
    "act = Block \<longleftrightarrow> available_read r = 0 \<and> rb_write_end r \<noteq> Some 0"
    using read_at_round_ok [OF assms(1), of "[]" want] by auto
  moreover obtain n where "rb_write_end r = Some n" using assms(1) by (auto simp: ring_ok_def)
  ultimately show ?thesis
    by (auto simp: poll_def all_write_ends_closed_def POLLIN_def POLLOUT_def POLLHUP_def)
qed

theorem poll_read_agrees_witness:
  "ring_ok make_pipe \<and> (\<exists>ready act r' got. poll True False make_pipe POLLIN = Some ready
     \<and> read_at_round make_pipe 1 [] = Some (act, r', got) \<and> (ready \<noteq> 0 \<longleftrightarrow> act \<noteq> Block))"
proof -
  have "ring_ok make_pipe"
    by (simp add: make_pipe_def ring_new_def ring_ok_def ring_inv_def)
  then show ?thesis using poll_read_agrees [of make_pipe 1] by fastforce
qed

end
