(* ===== verification/EventFd.thy ===== *)
theory EventFd
  imports Errno
begin

text \<open>
  Eventfd counters (\<open>os/src/fs/eventfd.rs\<close>): 64-bit counters with a reserved maximum, read and
  written eight bytes at a time. A round is one pass through the loop body with the state lock held;
  a call that must wait is \<open>Wait\<close>.
\<close>

unbundle bit_operations_syntax

definition EVENTFD_COUNTER_MAX :: u64 where "EVENTFD_COUNTER_MAX = - 1 - 1"

record eventfd =
  ev_counter :: u64
  ev_semaphore :: bool

definition eventfd_new :: "u32 \<Rightarrow> bool \<Rightarrow> eventfd" where
  "eventfd_new initval semaphore = \<lparr>ev_counter = ucast initval, ev_semaphore = semaphore\<rparr>"

text \<open>The user buffer is the list of its bytes; \<open>from_ne_bytes\<close> is little-endian on both targets.\<close>

definition copy_value_from_user :: "u8 list \<Rightarrow> errno + u64" where
  "copy_value_from_user buf = (if length buf \<noteq> 8 then Err EINVAL else Ok (of_nat (le_value buf)))"

definition copy_value_to_user :: "nat \<Rightarrow> u64 \<Rightarrow> errno + u8 list" where
  "copy_value_to_user buf_len value = (if buf_len \<noteq> 8 then Err EINVAL else Ok (le_bytes 8 (unat value)))"

datatype 'a ev_round = EvReturn "errno + 'a" | EvWait

text \<open>The value taken by a read, with the state after it.\<close>

definition read_round :: "eventfd \<Rightarrow> bool \<Rightarrow> u64 ev_round \<times> eventfd" where
  "read_round st nonblock =
     (if ev_counter st \<noteq> 0 then
        let value = (if ev_semaphore st then 1 else ev_counter st)
        in (EvReturn (Ok value), st\<lparr>ev_counter := ev_counter st - value\<rparr>)
      else if nonblock then (EvReturn (Err EAGAIN), st)
      else (EvWait, st))"

definition read_with_nonblock :: "eventfd \<Rightarrow> nat \<Rightarrow> bool \<Rightarrow> u8 list ev_round \<times> eventfd" where
  "read_with_nonblock st buf_len nonblock =
     (if buf_len \<noteq> 8 then (EvReturn (Err EINVAL), st)
      else case read_round st nonblock of
             (EvReturn (Ok value), st') \<Rightarrow> (EvReturn (copy_value_to_user buf_len value), st')
           | (EvReturn (Err e), st') \<Rightarrow> (EvReturn (Err e), st')
           | (EvWait, st') \<Rightarrow> (EvWait, st'))"

definition write_with_nonblock :: "eventfd \<Rightarrow> u8 list \<Rightarrow> bool \<Rightarrow> nat ev_round \<times> eventfd" where
  "write_with_nonblock st buf nonblock =
     (case copy_value_from_user buf of
        Err e \<Rightarrow> (EvReturn (Err e), st)
      | Ok value \<Rightarrow>
          if value = - 1 then (EvReturn (Err EINVAL), st)
          else if ev_counter st \<le> EVENTFD_COUNTER_MAX - value
          then (EvReturn (Ok 8), st\<lparr>ev_counter := ev_counter st + value\<rparr>)
          else if nonblock then (EvReturn (Err EAGAIN), st)
          else (EvWait, st))"

definition ev_poll :: "eventfd \<Rightarrow> u16 \<Rightarrow> u16" where
  "ev_poll st events =
     (let ready = (if ev_counter st \<noteq> 0 \<and> (events AND 1) \<noteq> 0 then 0 OR 1 else 0)
      in if ev_counter st < EVENTFD_COUNTER_MAX \<and> (events AND 4) \<noteq> 0 then ready OR 4 else ready)"

section \<open>Facts\<close>

lemma unat_counter_max: "unat EVENTFD_COUNTER_MAX = 2 ^ 64 - 2"
  by (simp add: EVENTFD_COUNTER_MAX_def)

lemma le_counter_max:
  assumes "v \<noteq> - 1"
  shows "v \<le> EVENTFD_COUNTER_MAX"
proof -
  have m: "unat (- 1 :: u64) = 2 ^ 64 - 1" by code_simp
  have "unat v \<noteq> unat (- 1 :: u64)" using assms by (simp only: word_unat_eq_iff simp_thms)
  then have "unat v \<noteq> 2 ^ 64 - 1" by (simp only: m simp_thms)
  moreover have "unat v < 2 ^ 64" using unsigned_less [of v, where ?'a = nat] by simp
  ultimately have "unat v \<le> 2 ^ 64 - 2" by simp
  then show ?thesis using unat_counter_max by (simp add: word_le_nat_alt)
qed

lemma fits_iff:
  assumes "v \<noteq> - 1"
  shows "c \<le> EVENTFD_COUNTER_MAX - v \<longleftrightarrow> unat c + unat v \<le> unat EVENTFD_COUNTER_MAX"
  using unat_sub [OF le_counter_max [OF assms]] le_counter_max [OF assms]
  by (auto simp: word_le_nat_alt)

lemma add_exact:
  fixes c v :: u64
  assumes "unat c + unat v \<le> unat EVENTFD_COUNTER_MAX"
  shows "unat (c + v) = unat c + unat v"
proof -
  have "unat c + unat v < 2 ^ LENGTH(64)" using assms by (simp add: unat_counter_max)
  then show ?thesis by (simp only: unat_add_lem)
qed

lemma copy_round_trip:
  "copy_value_to_user 8 v = Ok bs \<Longrightarrow> copy_value_from_user bs = Ok v"
  using unsigned_less [of v, where ?'a = nat] by (auto simp: copy_value_to_user_def copy_value_from_user_def)

section \<open>Runs\<close>

text \<open>
  Reads and writes by any threads, in the order in which they take the lock; a call that waits
  changes nothing and takes the lock again later. The totals are the values delivered and accepted.
\<close>

datatype ev_event = EvRead nat bool | EvWrite "u8 list" bool

fun ev_step :: "eventfd \<times> nat \<times> nat \<Rightarrow> ev_event \<Rightarrow> eventfd \<times> nat \<times> nat" where
  "ev_step (st, rd, wr) (EvRead len nb) =
     (case read_with_nonblock st len nb of
        (EvReturn (Ok bs), st') \<Rightarrow> (st', rd + le_value bs, wr) | (_, st') \<Rightarrow> (st', rd, wr))"
| "ev_step (st, rd, wr) (EvWrite buf nb) =
     (case write_with_nonblock st buf nb of
        (EvReturn (Ok _), st') \<Rightarrow> (st', rd, wr + le_value buf) | (_, st') \<Rightarrow> (st', rd, wr))"

lemma u64_value: "length buf = 8 \<Longrightarrow> unat (of_nat (le_value buf) :: u64) = le_value buf"
  using le_value_bound [of buf] by (simp add: unat_of_nat)

lemma ev_step_conserves:
  assumes "ev_step (st, rd, wr) e = (st', rd', wr')" and "unat (ev_counter st) \<le> unat EVENTFD_COUNTER_MAX"
  shows "unat (ev_counter st') \<le> unat EVENTFD_COUNTER_MAX
    \<and> unat (ev_counter st') + rd' + wr = unat (ev_counter st) + rd + wr'"
proof (cases e)
  case (EvWrite buf nb)
  show ?thesis
  proof (cases "length buf = 8 \<and> of_nat (le_value buf) \<noteq> (- 1 :: u64)
      \<and> ev_counter st \<le> EVENTFD_COUNTER_MAX - of_nat (le_value buf)")
    case True
    then have fit: "unat (ev_counter st) + unat (of_nat (le_value buf) :: u64) \<le> unat EVENTFD_COUNTER_MAX"
      using fits_iff by blast
    from True have "st' = st\<lparr>ev_counter := ev_counter st + of_nat (le_value buf)\<rparr>" "rd' = rd" "wr' = wr + le_value buf"
      using assms(1) by (auto simp: EvWrite write_with_nonblock_def copy_value_from_user_def)
    then show ?thesis using add_exact [OF fit] fit u64_value True by simp
  next
    case False
    then have "st' = st \<and> rd' = rd \<and> wr' = wr"
      using assms(1) by (auto simp: EvWrite write_with_nonblock_def copy_value_from_user_def split: if_splits)
    then show ?thesis using assms(2) by simp
  qed
next
  case (EvRead len nb)
  let ?v = "if ev_semaphore st then 1 else ev_counter st"
  show ?thesis
  proof (cases "len = 8 \<and> ev_counter st \<noteq> 0")
    case True
    then have "st' = st\<lparr>ev_counter := ev_counter st - ?v\<rparr>" "rd' = rd + unat ?v mod 2 ^ 64" "wr' = wr"
      using assms(1) by (auto simp: EvRead read_with_nonblock_def read_round_def copy_value_to_user_def Let_def)
    moreover have "?v \<le> ev_counter st" using True by (simp add: word_le_nat_alt unat_gt_0 Suc_le_eq)
    moreover have "unat ?v < 2 ^ 64" using unsigned_less [of ?v, where ?'a = nat] by simp
    ultimately show ?thesis using assms(2) by (auto simp: unat_sub word_le_nat_alt)
  next
    case False
    then have "st' = st \<and> rd' = rd \<and> wr' = wr"
      using assms(1) by (auto simp: EvRead read_with_nonblock_def read_round_def split: if_splits)
    then show ?thesis using assms(2) by simp
  qed
qed

lemma ev_run_conserves:
  assumes "foldl ev_step (st, rd, wr) es = (st', rd', wr')" and "unat (ev_counter st) \<le> unat EVENTFD_COUNTER_MAX"
  shows "unat (ev_counter st') \<le> unat EVENTFD_COUNTER_MAX
    \<and> unat (ev_counter st') + rd' + wr = unat (ev_counter st) + rd + wr'"
  using assms
proof (induction es arbitrary: st rd wr)
  case (Cons e es)
  obtain s1 r1 w1 where s1: "ev_step (st, rd, wr) e = (s1, r1, w1)" by (cases "ev_step (st, rd, wr) e") auto
  show ?case
    using ev_step_conserves [OF s1 Cons.prems(2)] Cons.IH [of s1 r1 w1] Cons.prems(1) s1 by auto
qed simp

section \<open>Properties\<close>

text \<open>
  C13. Eventfd counters neither wrap nor lose value: for every sequence of reads and writes (in
  either mode, blocking or not) on a new eventfd, the counter never exceeds its maximum, and the
  initial value plus everything accepted from writers equals everything delivered to readers plus
  the counter.
\<close>

theorem eventfd_conserves:
  "case foldl ev_step (eventfd_new initval semaphore, 0, 0) es of (st, delivered, accepted) \<Rightarrow>
     unat (ev_counter st) \<le> unat EVENTFD_COUNTER_MAX
     \<and> unat initval + accepted = delivered + unat (ev_counter st)"
proof -
  obtain st rd wr where r: "foldl ev_step (eventfd_new initval semaphore, 0, 0) es = (st, rd, wr)"
    by (cases "foldl ev_step (eventfd_new initval semaphore, 0, 0) es") auto
  have init: "unat initval < 2 ^ 32" using unsigned_less [of initval, where ?'a = nat] by simp
  have c: "unat (ev_counter (eventfd_new initval semaphore)) = unat initval"
    using init by (simp add: eventfd_new_def unsigned_ucast_eq take_bit_nat_def)
  have "unat (ev_counter (eventfd_new initval semaphore)) \<le> unat EVENTFD_COUNTER_MAX"
    using init by (simp add: c unat_counter_max)
  from ev_run_conserves [OF r this] show ?thesis using r c by simp
qed

text \<open>
  C14. Readiness is exact: an eventfd polls as readable exactly when a read would deliver a value,
  and as writable exactly when a write of the value one would be accepted.
\<close>

theorem eventfd_poll_exact:
  "(ev_poll st 1 \<noteq> 0 \<longleftrightarrow> (\<exists>bs st'. read_with_nonblock st 8 nb = (EvReturn (Ok bs), st')))
   \<and> (ev_poll st 4 \<noteq> 0 \<longleftrightarrow> (\<exists>st'. write_with_nonblock st (le_bytes 8 1) nb = (EvReturn (Ok 8), st')))"
proof -
  have "ev_counter st < EVENTFD_COUNTER_MAX \<longleftrightarrow> ev_counter st \<le> EVENTFD_COUNTER_MAX - 1"
    by (auto simp: word_le_nat_alt word_less_nat_alt EVENTFD_COUNTER_MAX_def)
  then show ?thesis
    by (auto simp: ev_poll_def read_with_nonblock_def read_round_def write_with_nonblock_def
        copy_value_to_user_def copy_value_from_user_def Let_def split: if_splits)
qed

end
