(* ===== verification/Signals.thy ===== *)
theory Signals
  imports Errno
begin

text \<open>
  Signals (\<open>os/src/signal/signals.rs\<close>, \<open>signal/action.rs\<close>, \<open>signal/mod.rs\<close>, the signal system calls of
  \<open>syscall/signal.rs\<close> and the fatal-signal check of \<open>task/mod.rs\<close>): signal numbers and sets, masks,
  actions, and the choice of the signal that a returning task has to handle. A \<open>SignalBit\<close> is its
  64-bit word.
\<close>

unbundle bit_operations_syntax

section \<open>Signal numbers\<close>

definition MAX_SIG :: nat where "MAX_SIG = 64"

datatype signal_num =
    SIGHUP | SIGINT | SIGQUIT | SIGILL | SIGTRAP | SIGABRT | SIGBUS | SIGFPE | SIGKILL | SIGUSR1 |
    SIGSEGV | SIGUSR2 | SIGPIPE | SIGALRM | SIGTERM | SIGSTKFLT | SIGCHLD | SIGCONT | SIGSTOP |
    SIGTSTP | SIGTTIN | SIGTTOU | SIGURG | SIGXCPU | SIGXFSZ | SIGVTALRM | SIGPROF | SIGWINCH |
    SIGIO | SIGPWR | SIGSYS

fun sig_number :: "signal_num \<Rightarrow> nat" where
  "sig_number SIGHUP = 1"
| "sig_number SIGINT = 2"
| "sig_number SIGQUIT = 3"
| "sig_number SIGILL = 4"
| "sig_number SIGTRAP = 5"
| "sig_number SIGABRT = 6"
| "sig_number SIGBUS = 7"
| "sig_number SIGFPE = 8"
| "sig_number SIGKILL = 9"
| "sig_number SIGUSR1 = 10"
| "sig_number SIGSEGV = 11"
| "sig_number SIGUSR2 = 12"
| "sig_number SIGPIPE = 13"
| "sig_number SIGALRM = 14"
| "sig_number SIGTERM = 15"
| "sig_number SIGSTKFLT = 16"
| "sig_number SIGCHLD = 17"
| "sig_number SIGCONT = 18"
| "sig_number SIGSTOP = 19"
| "sig_number SIGTSTP = 20"
| "sig_number SIGTTIN = 21"
| "sig_number SIGTTOU = 22"
| "sig_number SIGURG = 23"
| "sig_number SIGXCPU = 24"
| "sig_number SIGXFSZ = 25"
| "sig_number SIGVTALRM = 26"
| "sig_number SIGPROF = 27"
| "sig_number SIGWINCH = 28"
| "sig_number SIGIO = 29"
| "sig_number SIGPWR = 30"
| "sig_number SIGSYS = 31"

definition from_number :: "nat \<Rightarrow> signal_num option" where
  "from_number signum =
     (if 1 \<le> signum \<and> signum \<le> 31 then Some (
        [SIGHUP, SIGINT, SIGQUIT, SIGILL, SIGTRAP, SIGABRT, SIGBUS, SIGFPE, SIGKILL, SIGUSR1,
         SIGSEGV, SIGUSR2, SIGPIPE, SIGALRM, SIGTERM, SIGSTKFLT, SIGCHLD, SIGCONT, SIGSTOP,
         SIGTSTP, SIGTTIN, SIGTTOU, SIGURG, SIGXCPU, SIGXFSZ, SIGVTALRM, SIGPROF, SIGWINCH, SIGIO,
         SIGPWR, SIGSYS] ! (signum - 1))
      else None)"

definition sig_bit :: "signal_num \<Rightarrow> u64" where
  "sig_bit s = push_bit (sig_number s - 1) 1"

definition dumps_core :: "signal_num \<Rightarrow> bool" where
  "dumps_core s \<longleftrightarrow> s \<in> {SIGQUIT, SIGILL, SIGTRAP, SIGABRT, SIGBUS, SIGFPE, SIGSEGV, SIGXCPU, SIGXFSZ, SIGSYS}"

section \<open>Signal sets\<close>

definition SUPPORTED_SIGNAL_BITS :: u64 where "SUPPORTED_SIGNAL_BITS = - 1"

definition unblockable :: u64 where
  "unblockable = sig_bit SIGKILL OR sig_bit SIGSTOP"

definition from_signum :: "nat \<Rightarrow> u64 option" where
  "from_signum signum = (if signum = 0 \<or> signum > MAX_SIG then None else Some (push_bit (signum - 1) 1))"

definition from_bits :: "u64 \<Rightarrow> u64 option" where
  "from_bits bits = (if bits AND NOT SUPPORTED_SIGNAL_BITS = 0 then Some bits else None)"

definition without_unblockable :: "u64 \<Rightarrow> u64" where
  "without_unblockable s = s AND NOT unblockable"

definition from_user_bits :: "u64 \<Rightarrow> u64" where
  "from_user_bits bits = without_unblockable (bits AND SUPPORTED_SIGNAL_BITS)"

definition sig_contains :: "u64 \<Rightarrow> u64 \<Rightarrow> bool" where
  "sig_contains s other \<longleftrightarrow> s AND other = other"

definition sig_insert :: "u64 \<Rightarrow> u64 \<Rightarrow> u64" where "sig_insert s other = s OR other"
definition sig_remove :: "u64 \<Rightarrow> u64 \<Rightarrow> u64" where "sig_remove s other = s AND NOT other"
definition sig_not :: "u64 \<Rightarrow> u64" where "sig_not s = NOT s AND SUPPORTED_SIGNAL_BITS"

text \<open>The number reported for a fatal default action (the log string is not modelled).\<close>

definition check_error :: "u64 \<Rightarrow> nat option" where
  "check_error s =
     (if sig_contains s (sig_bit SIGKILL) then Some (sig_number SIGKILL)
      else if sig_contains s (sig_bit SIGINT) then Some (sig_number SIGINT)
      else if sig_contains s (sig_bit SIGILL) then Some (sig_number SIGILL)
      else if sig_contains s (sig_bit SIGABRT) then Some (sig_number SIGABRT)
      else if sig_contains s (sig_bit SIGBUS) then Some (sig_number SIGBUS)
      else if sig_contains s (sig_bit SIGFPE) then Some (sig_number SIGFPE)
      else if sig_contains s (sig_bit SIGSEGV) then Some (sig_number SIGSEGV)
      else if sig_contains s (sig_bit SIGPIPE) then Some (sig_number SIGPIPE)
      else if sig_contains s (sig_bit SIGTERM) then Some (sig_number SIGTERM)
      else None)"

section \<open>Actions and the state of a task\<close>

definition SIG_DFL :: u64 where "SIG_DFL = 0"
definition SIG_IGN :: u64 where "SIG_IGN = 1"
definition SA_SIGINFO :: u32 where "SA_SIGINFO = 0x00000004"
definition SA_NODEFER :: u32 where "SA_NODEFER = 0x40000000"

record sigaction =
  handler :: u64
  sa_flags :: u32
  sa_restorer :: u64
  sa_mask :: u64

definition sigaction_default :: sigaction where
  "sigaction_default = \<lparr>handler = SIG_DFL, sa_flags = 0, sa_restorer = 0, sa_mask = 0\<rparr>"

definition signal_actions_default :: "sigaction list" where
  "signal_actions_default = replicate (MAX_SIG + 1) sigaction_default"

record siginfo =
  si_signo :: int
  si_code :: int
  si_pid :: int
  si_uid :: u32

text \<open>
  The fields of the task and of its process that signal handling reads and writes; \<open>work_pending\<close> is
  the task's lock-free hint.
\<close>

record sig_state =
  thread_pending :: u64
  process_pending :: u64
  thread_siginfo :: "siginfo list"
  process_siginfo :: "siginfo list"
  signal_mask :: u64
  signal_mask_backup :: "u64 option"
  actions :: "sigaction list"
  work_pending :: bool

definition trailing_zeros :: "u64 \<Rightarrow> nat" where
  "trailing_zeros w = length (takeWhile (\<lambda>i. \<not> bit w i) [0..<64])"

definition first_pending_signum :: "u64 \<Rightarrow> nat option" where
  "first_pending_signum pending = (if pending \<noteq> 0 then Some (trailing_zeros pending + 1) else None)"

definition signal_work_needed :: "u64 \<Rightarrow> u64 \<Rightarrow> u64 \<Rightarrow> bool \<Rightarrow> bool" where
  "signal_work_needed tp pp smask restore_mask \<longleftrightarrow>
     restore_mask \<or> (tp OR pp) AND sig_not (without_unblockable smask) \<noteq> 0"

definition refresh_work :: "sig_state \<Rightarrow> sig_state" where
  "refresh_work s = s\<lparr>work_pending := signal_work_needed (thread_pending s) (process_pending s)
     (signal_mask s) (signal_mask_backup s \<noteq> None)\<rparr>"

section \<open>Scanning the pending set\<close>

lemma trailing_zeros_bound:
  assumes "w \<noteq> 0"
  shows "trailing_zeros w < 64" and "bit w (trailing_zeros w)" and "i < trailing_zeros w \<Longrightarrow> \<not> bit w i"
proof -
  obtain n where n: "bit w n" using assms by (metis bit_eq_iff bit_0_eq bot_apply bot_bool_def)
  have n64: "n < 64" using bit_imp_le_length [OF n] by simp
  let ?P = "\<lambda>i. \<not> bit w i"
  have ne: "takeWhile ?P [0..<64] \<noteq> [0..<64]"
    using n n64 by (metis atLeastLessThan_iff le0 set_takeWhileD set_upt)
  then show lt: "trailing_zeros w < 64"
    unfolding trailing_zeros_def by (metis length_takeWhile_le length_upt minus_nat.diff_0 nat_less_le takeWhile_eq_take take_all)
  then show "bit w (trailing_zeros w)"
    using nth_length_takeWhile [of ?P "[0..<64]"] unfolding trailing_zeros_def by simp
  show "i < trailing_zeros w \<Longrightarrow> \<not> bit w i"
    using lt nth_mem [of i "takeWhile ?P [0..<64]"] takeWhile_nth [of i ?P "[0..<64]"] set_takeWhileD [of i ?P "[0..<64]"]
    unfolding trailing_zeros_def by (metis add.left_neutral less_trans length_upt minus_nat.diff_0 nth_upt)
qed

definition flag_of :: "nat \<Rightarrow> u64" where
  "flag_of signum = push_bit (signum - 1) 1"

lemma from_signum_pending:
  "first_pending_signum w = Some n \<Longrightarrow> from_signum n = Some (flag_of n) \<and> 1 \<le> n \<and> n \<le> 64 \<and> bit w (n - 1)"
  using trailing_zeros_bound [of w]
  by (auto simp: first_pending_signum_def from_signum_def MAX_SIG_def flag_of_def split: if_splits)

lemma bit_flag_of: "bit (flag_of n) i \<longleftrightarrow> i = n - 1 \<and> i < 64"
  by (auto simp: flag_of_def bit_push_bit_iff bit_1_iff simp del: push_bit_of_1)

lemma remaining_decreases:
  assumes "first_pending_signum w = Some n"
  shows "w AND sig_not (flag_of n) < w"
proof -
  have b: "bit w (n - 1)" and n: "1 \<le> n" "n \<le> 64" using from_signum_pending [OF assms] by auto
  have ne: "w AND sig_not (flag_of n) \<noteq> w"
  proof
    assume "w AND sig_not (flag_of n) = w"
    then have "bit (w AND sig_not (flag_of n)) (n - 1)" using b by simp
    then show False using n by (simp add: bit_and_iff sig_not_def SUPPORTED_SIGNAL_BITS_def bit_not_iff bit_flag_of)
  qed
  have "w AND sig_not (flag_of n) \<le> w" by (rule word_and_le2)
  then show ?thesis using ne by simp
qed

lemma scan_decreases:
  "first_pending_signum w = Some n \<Longrightarrow> Some f = from_signum n \<Longrightarrow> unat (w AND sig_not f) < unat w"
  using remaining_decreases [of w n] from_signum_pending [of w n] by (simp add: word_less_nat_alt)

text \<open>Each scan drops the lowest pending bit, so it ends; \<open>None\<close> is a panic.\<close>

function fatal_scan :: "sigaction list \<Rightarrow> u64 \<Rightarrow> nat option option" where
  "fatal_scan acts remaining =
     (case first_pending_signum remaining of
        None \<Rightarrow> Some None
      | Some signum \<Rightarrow>
          (case (from_signum signum, idx acts signum) of
             (Some flag, Some action) \<Rightarrow>
               if handler action = SIG_DFL \<and> check_error flag \<noteq> None then Some (check_error flag)
               else fatal_scan acts (remaining AND sig_not flag)
           | _ \<Rightarrow> None))"
  by pat_completeness auto
termination
  by (relation "measure (\<lambda>(a, r). unat r)")
    (auto intro: scan_decreases)

declare fatal_scan.simps [simp del]

definition check_fatal_signals_of_current :: "sig_state \<Rightarrow> (nat option \<times> sig_state) option" where
  "check_fatal_signals_of_current s =
     (if \<not> work_pending s then Some (None, s)
      else do {
        r \<leftarrow> fatal_scan (actions s)
               ((thread_pending s OR process_pending s) AND sig_not (without_unblockable (signal_mask s)));
        Some (case r of Some e \<Rightarrow> (Some e, s) | None \<Rightarrow> (None, refresh_work s))
      })"

definition clear_pending :: "bool \<Rightarrow> u64 \<Rightarrow> sig_state \<Rightarrow> sig_state" where
  "clear_pending from_thread flag s =
     (if from_thread then s\<lparr>thread_pending := thread_pending s AND sig_not flag\<rparr>
      else s\<lparr>process_pending := process_pending s AND sig_not flag\<rparr>)"

function signals_scan ::
  "sig_state \<Rightarrow> u64 \<Rightarrow> u64 \<Rightarrow> ((nat \<times> sigaction \<times> siginfo) option \<times> sig_state) option" where
  "signals_scan s tp remaining =
     (case first_pending_signum remaining of
        None \<Rightarrow> Some (None, s)
      | Some signum \<Rightarrow>
          (case (from_signum signum, idx (actions s) signum) of
             (Some flag, Some action) \<Rightarrow>
               let remaining' = remaining AND sig_not flag; from_thread = sig_contains tp flag in
               if handler action = SIG_IGN then signals_scan (clear_pending from_thread flag s) tp remaining'
               else if handler action = SIG_DFL then
                 if check_error flag \<noteq> None then signals_scan s tp remaining'
                 else signals_scan (clear_pending from_thread flag s) tp remaining'
               else if handler action > 1 then
                 (case idx (if from_thread then thread_siginfo s else process_siginfo s) signum of
                    None \<Rightarrow> None
                  | Some info \<Rightarrow> Some (Some (signum, action, info), refresh_work (clear_pending from_thread flag s)))
               else signals_scan s tp remaining'
           | _ \<Rightarrow> None))"
  by pat_completeness auto
termination
  by (relation "measure (\<lambda>(s, t, r). unat r)")
    (auto intro: scan_decreases)

declare signals_scan.simps [simp del]

definition check_signals_of_current ::
  "sig_state \<Rightarrow> ((nat \<times> sigaction \<times> siginfo) option \<times> sig_state) option" where
  "check_signals_of_current s =
     (if \<not> work_pending s then Some (None, s)
      else do {
        (r, s') \<leftarrow> signals_scan s (thread_pending s)
          ((thread_pending s OR process_pending s) AND sig_not (without_unblockable (signal_mask s)));
        Some (case r of
          Some d \<Rightarrow> (Some d, s')
        | None \<Rightarrow> (None, refresh_work (case signal_mask_backup s' of
                     Some old \<Rightarrow> s'\<lparr>signal_mask := old, signal_mask_backup := None\<rparr> | None \<Rightarrow> s')))
      })"

function interrupting_scan :: "sigaction list \<Rightarrow> u64 \<Rightarrow> bool option" where
  "interrupting_scan acts remaining =
     (case first_pending_signum remaining of
        None \<Rightarrow> Some False
      | Some signum \<Rightarrow>
          (case (from_signum signum, idx acts signum) of
             (Some flag, Some action) \<Rightarrow>
               if handler action = SIG_IGN then interrupting_scan acts (remaining AND sig_not flag)
               else if handler action = SIG_DFL
                 \<and> from_number signum \<in> {Some SIGCHLD, Some SIGURG, Some SIGCONT, Some SIGWINCH}
               then interrupting_scan acts (remaining AND sig_not flag)
               else Some True
           | _ \<Rightarrow> None))"
  by pat_completeness auto
termination
  by (relation "measure (\<lambda>(a, r). unat r)")
    (auto intro: scan_decreases)

declare interrupting_scan.simps [simp del]

definition has_interrupting_signal :: "sig_state \<Rightarrow> bool option" where
  "has_interrupting_signal s =
     (if \<not> work_pending s then Some False
      else let pending = (thread_pending s OR process_pending s) AND sig_not (signal_mask s) in
        if pending = 0 then Some False else interrupting_scan (actions s) pending)"

definition has_unmasked_pending_signal :: "sig_state \<Rightarrow> bool" where
  "has_unmasked_pending_signal s \<longleftrightarrow> work_pending s
     \<and> (thread_pending s OR process_pending s) AND sig_not (without_unblockable (signal_mask s)) \<noteq> 0"

section \<open>System calls and handler entry\<close>

text \<open>A posted signal: to one thread (\<open>add_signal_to_task_with_siginfo\<close>) or to the process.\<close>

definition add_signal_to_task_with_siginfo :: "sig_state \<Rightarrow> u64 \<Rightarrow> siginfo \<Rightarrow> sig_state option" where
  "add_signal_to_task_with_siginfo s signal info = do {
     let s = s\<lparr>thread_pending := thread_pending s OR signal\<rparr>;
     infos \<leftarrow> (case first_pending_signum signal of
                 Some n \<Rightarrow> put (thread_siginfo s) n info | None \<Rightarrow> Some (thread_siginfo s));
     Some (s\<lparr>thread_siginfo := infos, work_pending := True\<rparr>)
   }"

definition add_signal_to_process_with_siginfo :: "sig_state \<Rightarrow> u64 \<Rightarrow> siginfo \<Rightarrow> sig_state option" where
  "add_signal_to_process_with_siginfo s signal info = do {
     let s = s\<lparr>process_pending := process_pending s OR signal\<rparr>;
     infos \<leftarrow> (case first_pending_signum signal of
                 Some n \<Rightarrow> put (process_siginfo s) n info | None \<Rightarrow> Some (process_siginfo s));
     Some (s\<lparr>process_siginfo := infos, work_pending := True\<rparr>)
   }"

text \<open>\<open>read_user_sigset\<close> on a non-null pointer whose first eight bytes are \<open>bits\<close>.\<close>

definition read_user_sigset :: "u64 \<Rightarrow> nat \<Rightarrow> errno + u64" where
  "read_user_sigset bits sigsetsize =
     (if sigsetsize \<ge> 8 then Ok (from_user_bits bits)
      else if sigsetsize \<ge> 4 then Ok (from_user_bits (ucast (ucast bits :: u32)))
      else Err EINVAL)"

definition sys_sigprocmask :: "sig_state \<Rightarrow> int \<Rightarrow> u64 option \<Rightarrow> nat \<Rightarrow> (errno + u64) \<times> sig_state" where
  "sys_sigprocmask s how set_bits sigsetsize =
     (if sigsetsize < 4 then (Err EINVAL, s)
      else case set_bits of
        None \<Rightarrow> (Ok (signal_mask s), s)
      | Some bits \<Rightarrow>
          (case read_user_sigset bits sigsetsize of
             Err e \<Rightarrow> (Err e, s)
           | Ok new_mask \<Rightarrow>
               let old = signal_mask s in
               if how = 0 then (Ok old, s\<lparr>signal_mask := sig_insert old new_mask, work_pending := True\<rparr>)
               else if how = 1 then (Ok old, s\<lparr>signal_mask := sig_remove old new_mask, work_pending := True\<rparr>)
               else if how = 2 then (Ok old, s\<lparr>signal_mask := new_mask, work_pending := True\<rparr>)
               else (Err EINVAL, s)))"

record user_sigaction =
  ua_handler :: u64
  ua_flags :: u64
  ua_mask :: u64

definition decode_user_sigaction :: "user_sigaction \<Rightarrow> sigaction" where
  "decode_user_sigaction a = \<lparr>handler = ua_handler a, sa_flags = ucast (ua_flags a), sa_restorer = 0,
     sa_mask = from_user_bits (ua_mask a)\<rparr>"

text \<open>\<open>valid\<close> is the check that the handler lies in an executable mapping of the process.\<close>

definition sys_sigaction ::
  "(u64 \<Rightarrow> bool) \<Rightarrow> sig_state \<Rightarrow> int \<Rightarrow> user_sigaction option \<Rightarrow> nat \<Rightarrow> ((errno + sigaction) \<times> sig_state) option" where
  "sys_sigaction valid s signum action sigsetsize =
     (if sigsetsize \<noteq> 0 \<and> sigsetsize \<noteq> 8 then Some (Err EINVAL, s)
      else
        let n = unat (of_int signum :: u32) in
        if n = 0 \<or> n > MAX_SIG then Some (Err EINVAL, s)
        else if n = 9 \<or> n = 19 then Some (Err EINVAL, s)
        else case action of
          None \<Rightarrow> map_option (\<lambda>old. (Ok old, s)) (idx (actions s) n)
        | Some ua \<Rightarrow>
            let new = decode_user_sigaction ua in
            if \<not> (handler new = SIG_DFL \<or> handler new = SIG_IGN \<or> valid (handler new)) then Some (Err EINVAL, s)
            else do {
              old \<leftarrow> idx (actions s) n;
              acts \<leftarrow> put (actions s) n new;
              Some (Ok old, s\<lparr>actions := acts\<rparr>)
            })"

definition sigreturn_mask :: "sig_state \<Rightarrow> u64 \<Rightarrow> sig_state" where
  "sigreturn_mask s bits =
     s\<lparr>signal_mask := from_user_bits bits, signal_mask_backup := None, work_pending := True\<rparr>"

text \<open>The mask saved in the signal frame, and the mask in force while the handler runs.\<close>

definition frame_old_mask :: "sig_state \<Rightarrow> u64 \<times> sig_state" where
  "frame_old_mask s =
     (without_unblockable (case signal_mask_backup s of Some m \<Rightarrow> m | None \<Rightarrow> signal_mask s),
      s\<lparr>signal_mask_backup := None\<rparr>)"

definition enter_handler_mask :: "sig_state \<Rightarrow> nat \<Rightarrow> sigaction \<Rightarrow> sig_state" where
  "enter_handler_mask s signum action =
     refresh_work (case from_bits (sa_mask action) of
        None \<Rightarrow> s
      | Some new_mask \<Rightarrow>
          let s = (if sa_flags action AND SA_NODEFER = 0 then
                     (case from_signum signum of
                        Some f \<Rightarrow> s\<lparr>signal_mask := sig_insert (signal_mask s) f\<rparr> | None \<Rightarrow> s)
                   else s)
          in s\<lparr>signal_mask := sig_insert (signal_mask s) new_mask\<rparr>)"

definition sigsuspend_mask :: "sig_state \<Rightarrow> u64 \<Rightarrow> nat \<Rightarrow> (errno + unit) \<times> sig_state" where
  "sigsuspend_mask s bits sigsetsize =
     (if sigsetsize \<noteq> 4 \<and> sigsetsize \<noteq> 8 then (Err EINVAL, s)
      else case read_user_sigset bits sigsetsize of
        Err e \<Rightarrow> (Err e, s)
      | Ok new_mask \<Rightarrow> (Ok (), s\<lparr>signal_mask := new_mask, signal_mask_backup := Some (signal_mask s),
                                 work_pending := True\<rparr>))"

text \<open>
  The end of a trap from user mode: the fatal check, then the choice of a handler and, when there is
  one, the masks of the signal frame and of the handler.
\<close>

datatype user_return = Killed nat | Handler nat sigaction siginfo u64 | Resume

definition return_to_user :: "sig_state \<Rightarrow> (user_return \<times> sig_state) option" where
  "return_to_user s = do {
     (fatal, s) \<leftarrow> check_fatal_signals_of_current s;
     case fatal of
       Some signum \<Rightarrow> Some (Killed signum, s)
     | None \<Rightarrow> do {
         (sel, s) \<leftarrow> check_signals_of_current s;
         case sel of
           None \<Rightarrow> Some (Resume, s)
         | Some (signum, action, info) \<Rightarrow>
             let (old_mask, s) = frame_old_mask s
             in Some (Handler signum action info old_mask, enter_handler_mask s signum action)
       }
   }"

section \<open>Facts about signal sets\<close>

lemma sig_bit_flag: "sig_bit s = flag_of (sig_number s)"
  by (simp add: sig_bit_def flag_of_def)

lemma sig_number_range: "1 \<le> sig_number s \<and> sig_number s \<le> 31"
  by (cases s) auto

lemma bit_sig_not [simp]: "bit (sig_not w) i \<longleftrightarrow> i < 64 \<and> \<not> bit w i"
  by (auto simp: sig_not_def SUPPORTED_SIGNAL_BITS_def bit_and_iff bit_not_iff)

lemma contains_flag:
  "1 \<le> n \<Longrightarrow> n \<le> 64 \<Longrightarrow> sig_contains w (flag_of n) \<longleftrightarrow> bit w (n - 1)"
  unfolding sig_contains_def bit_eq_iff [of "w AND flag_of n"] bit_and_iff bit_flag_of
  by (auto dest: spec [of _ "n - 1"])

lemma contains_flag_flag:
  "1 \<le> n \<Longrightarrow> n \<le> 64 \<Longrightarrow> 1 \<le> m \<Longrightarrow> m \<le> 64 \<Longrightarrow> sig_contains (flag_of n) (flag_of m) \<longleftrightarrow> n = m"
  by (auto simp: contains_flag bit_flag_of)

lemma check_error_flag:
  assumes "1 \<le> n" and "n \<le> 64"
  shows "check_error (flag_of n) = (if n \<in> {2, 4, 6, 7, 8, 9, 11, 13, 15} then Some n else None)"
  using assms by (simp add: check_error_def sig_bit_flag contains_flag_flag)

lemma bit_unblockable: "bit unblockable i \<longleftrightarrow> i = 8 \<or> i = 18"
  by (auto simp: unblockable_def sig_bit_flag bit_or_iff bit_flag_of)

lemma bit_without_unblockable [simp]:
  "bit (without_unblockable w) i \<longleftrightarrow> bit w i \<and> i \<noteq> 8 \<and> i \<noteq> 18"
  using bit_imp_le_length [of w i] by (auto simp: without_unblockable_def bit_and_iff bit_not_iff bit_unblockable)

lemma bit_from_user_bits [simp]:
  "bit (from_user_bits w) i \<longleftrightarrow> bit w i \<and> i \<noteq> 8 \<and> i \<noteq> 18"
  using bit_imp_le_length [of w i]
  by (auto simp: from_user_bits_def bit_and_iff SUPPORTED_SIGNAL_BITS_def)

definition no_unblockable :: "u64 \<Rightarrow> bool" where
  "no_unblockable w \<longleftrightarrow> \<not> bit w 8 \<and> \<not> bit w 18"

text \<open>The deliverable signals of a task, as bit positions (signal number minus one).\<close>

definition deliverable :: "sig_state \<Rightarrow> nat set" where
  "deliverable s = {i. i < 64 \<and> (bit (thread_pending s) i \<or> bit (process_pending s) i)
     \<and> \<not> (bit (signal_mask s) i \<and> i \<noteq> 8 \<and> i \<noteq> 18)}"

definition pending_bits :: "sig_state \<Rightarrow> u64" where
  "pending_bits s = (thread_pending s OR process_pending s) AND sig_not (without_unblockable (signal_mask s))"

lemma bit_pending_bits: "bit (pending_bits s) i \<longleftrightarrow> i \<in> deliverable s"
  by (auto simp: pending_bits_def deliverable_def bit_and_iff bit_or_iff)

lemma deliverable_empty: "pending_bits s = 0 \<longleftrightarrow> deliverable s = {}"
  by (metis bit_0_eq bit_eq_iff bit_pending_bits bot_apply bot_bool_def equals0I empty_iff)

definition sig_ok :: "sig_state \<Rightarrow> bool" where
  "sig_ok s \<longleftrightarrow> length (actions s) = MAX_SIG + 1 \<and> length (thread_siginfo s) = MAX_SIG + 1
     \<and> length (process_siginfo s) = MAX_SIG + 1
     \<and> handler (actions s ! 9) = SIG_DFL \<and> handler (actions s ! 19) = SIG_DFL
     \<and> (\<forall>a\<in>set (actions s). no_unblockable (sa_mask a))
     \<and> no_unblockable (signal_mask s) \<and> (\<forall>m. signal_mask_backup s = Some m \<longrightarrow> no_unblockable m)
     \<and> (deliverable s \<noteq> {} \<or> signal_mask_backup s \<noteq> None \<longrightarrow> work_pending s)"

end
