(* ===== verification/Signal_Delivery.thy ===== *)
theory Signal_Delivery
  imports Signals
begin

text \<open>
  The properties of signal delivery: what the scans of the pending set find, the invariant of the
  signal state of a task, and the selection of the signal to deliver.
\<close>

unbundle bit_operations_syntax

section \<open>What the scans find\<close>

definition fatal_default :: "sigaction list \<Rightarrow> nat \<Rightarrow> bool" where
  "fatal_default acts n \<longleftrightarrow> handler (acts ! n) = SIG_DFL \<and> n \<in> {2, 4, 6, 7, 8, 9, 11, 13, 15}"

lemma bit_drop_flag:
  "1 \<le> n \<Longrightarrow> n \<le> 64 \<Longrightarrow> bit (w AND sig_not (flag_of n)) i \<longleftrightarrow> bit w i \<and> i \<noteq> n - 1"
  using bit_imp_le_length [of w i] by (auto simp: bit_and_iff bit_flag_of)

lemma first_pending_None: "first_pending_signum w = None \<longleftrightarrow> w = 0"
  by (simp add: first_pending_signum_def)

lemma first_pending_least:
  "first_pending_signum w = Some n \<Longrightarrow> bit w i \<Longrightarrow> n - 1 \<le> i"
  using trailing_zeros_bound [of w] by (auto simp: first_pending_signum_def split: if_splits) (meson not_less)

lemma fatal_scan_spec:
  assumes "length acts = 65"
  shows "\<exists>r. fatal_scan acts w = Some r
    \<and> (case r of None \<Rightarrow> \<forall>i. bit w i \<longrightarrow> \<not> fatal_default acts (i + 1)
       | Some e \<Rightarrow> 1 \<le> e \<and> bit w (e - 1) \<and> fatal_default acts e)"
proof (induction "unat w" arbitrary: w rule: less_induct)
  case less
  show ?case
  proof (cases "first_pending_signum w")
    case None
    then have "fatal_scan acts w = Some None" by (simp add: fatal_scan.simps [of acts w])
    then show ?thesis using None by (simp add: first_pending_None)
  next
    case (Some n)
    note n = from_signum_pending [OF Some]
    have i: "idx acts n = Some (acts ! n)" using n assms by simp
    have IH: "\<exists>r. fatal_scan acts (w AND sig_not (flag_of n)) = Some r
      \<and> (case r of None \<Rightarrow> \<forall>i. bit (w AND sig_not (flag_of n)) i \<longrightarrow> \<not> fatal_default acts (i + 1)
         | Some e \<Rightarrow> 1 \<le> e \<and> bit (w AND sig_not (flag_of n)) (e - 1) \<and> fatal_default acts e)"
      using less [of "w AND sig_not (flag_of n)"] scan_decreases [OF Some] n by auto
    show ?thesis
    proof (cases "fatal_default acts n")
      case True
      then show ?thesis
        using n i Some by (simp add: fatal_scan.simps [of acts w] fatal_default_def check_error_flag)
    next
      case False
      then have "fatal_scan acts w = fatal_scan acts (w AND sig_not (flag_of n))"
        using n i Some by (auto simp: fatal_scan.simps [of acts w] fatal_default_def check_error_flag)
      moreover have "\<not> fatal_default acts (i + 1)" if "bit w i" "\<not> (bit w i \<and> i \<noteq> n - 1)" for i
        using that False n by auto
      moreover obtain r where r: "fatal_scan acts (w AND sig_not (flag_of n)) = Some r"
        "case r of None \<Rightarrow> \<forall>i. bit (w AND sig_not (flag_of n)) i \<longrightarrow> \<not> fatal_default acts (i + 1)
         | Some e \<Rightarrow> 1 \<le> e \<and> bit (w AND sig_not (flag_of n)) (e - 1) \<and> fatal_default acts e"
        using IH by blast
      ultimately show ?thesis
        using n by (cases r) (auto simp: bit_drop_flag)
    qed
  qed
qed

text \<open>What a scan of the pending signals returns, and what it may change.\<close>

definition scan_frame :: "sig_state \<Rightarrow> u64 \<Rightarrow> sig_state \<Rightarrow> bool" where
  "scan_frame s w s' \<longleftrightarrow> actions s' = actions s \<and> thread_siginfo s' = thread_siginfo s
     \<and> process_siginfo s' = process_siginfo s \<and> signal_mask s' = signal_mask s
     \<and> signal_mask_backup s' = signal_mask_backup s
     \<and> (\<forall>i. \<not> bit w i \<longrightarrow> (bit (thread_pending s') i \<longleftrightarrow> bit (thread_pending s) i)
          \<and> (bit (process_pending s') i \<longleftrightarrow> bit (process_pending s) i))
     \<and> (\<forall>i. bit (thread_pending s') i \<longrightarrow> bit (thread_pending s) i)
     \<and> (\<forall>i. bit (process_pending s') i \<longrightarrow> bit (process_pending s) i)"

definition scan_result :: "sig_state \<Rightarrow> u64 \<Rightarrow> u64 \<Rightarrow> (nat \<times> sigaction \<times> siginfo) option \<Rightarrow> sig_state \<Rightarrow> bool" where
  "scan_result s tp w r s' \<longleftrightarrow> (case r of
      None \<Rightarrow> \<forall>i. bit w i \<longrightarrow> handler (actions s ! (i + 1)) \<le> 1
    | Some (n, a, info) \<Rightarrow> 1 \<le> n \<and> bit w (n - 1) \<and> a = actions s ! n \<and> handler a > 1
        \<and> (\<forall>i. bit w i \<and> i < n - 1 \<longrightarrow> handler (actions s ! (i + 1)) \<le> 1)
        \<and> info = (if bit tp (n - 1) then thread_siginfo s ! n else process_siginfo s ! n)
        \<and> \<not> bit (if bit tp (n - 1) then thread_pending s' else process_pending s') (n - 1)
        \<and> (work_pending s' \<longleftrightarrow> signal_mask_backup s' \<noteq> None \<or> deliverable s' \<noteq> {}))"

lemma refresh_work_simps [simp]:
  "thread_pending (refresh_work s) = thread_pending s" "process_pending (refresh_work s) = process_pending s"
  "thread_siginfo (refresh_work s) = thread_siginfo s" "process_siginfo (refresh_work s) = process_siginfo s"
  "signal_mask (refresh_work s) = signal_mask s" "signal_mask_backup (refresh_work s) = signal_mask_backup s"
  "actions (refresh_work s) = actions s" "deliverable (refresh_work s) = deliverable s"
  by (simp_all add: refresh_work_def deliverable_def)

lemma refresh_work_exact [simp]:
  "work_pending (refresh_work s) \<longleftrightarrow> signal_mask_backup s \<noteq> None \<or> deliverable s \<noteq> {}"
  using deliverable_empty [of s] by (simp add: refresh_work_def signal_work_needed_def pending_bits_def)

lemma clear_pending_frame:
  assumes "1 \<le> n" and "n \<le> 64" and "bit w (n - 1)"
  shows "scan_frame s w (clear_pending b (flag_of n) s)"
    and "\<not> bit (if b then thread_pending (clear_pending b (flag_of n) s)
                 else process_pending (clear_pending b (flag_of n) s)) (n - 1)"
  using assms by (auto simp: scan_frame_def clear_pending_def bit_drop_flag)

lemma scan_frame_trans:
  "scan_frame s w s1 \<Longrightarrow> scan_frame s1 v s' \<Longrightarrow> (\<And>i. bit v i \<Longrightarrow> bit w i) \<Longrightarrow> scan_frame s w s'"
  by (auto simp: scan_frame_def)

lemma scan_frame_refl [simp]: "scan_frame s w s"
  by (simp add: scan_frame_def)

lemma word_le_1_cases: "(h::u64) \<le> 1 \<Longrightarrow> h = 0 \<or> h = 1"
  by (simp add: word_le_nat_alt le_Suc_eq word_unat_eq_iff)

lemma signals_scan_spec:
  assumes "length (actions s) = 65" and "length (thread_siginfo s) = 65" and "length (process_siginfo s) = 65"
  shows "\<exists>r s'. signals_scan s tp w = Some (r, s') \<and> scan_frame s w s' \<and> scan_result s tp w r s'"
  using assms
proof (induction "unat w" arbitrary: s w rule: less_induct)
  case less
  show ?case
  proof (cases "first_pending_signum w")
    case None
    then have "signals_scan s tp w = Some (None, s)" by (simp add: signals_scan.simps [of s])
    then show ?thesis using None by (simp add: first_pending_None scan_result_def)
  next
    case (Some n)
    note n = from_signum_pending [OF Some]
    let ?v = "w AND sig_not (flag_of n)"
    let ?c = "clear_pending (sig_contains tp (flag_of n)) (flag_of n) s"
    have i: "idx (actions s) n = Some (actions s ! n)" using n less.prems by simp
    have dec: "unat ?v < unat w" using scan_decreases [OF Some] n by simp
    have sub: "bit w i" if "bit ?v i" for i using that by (simp add: bit_and_iff)
    have fc: "scan_frame s w ?c" using clear_pending_frame(1) n by blast
    have skip: ?thesis if small: "handler (actions s ! n) \<le> 1" and t: "scan_frame s w t"
      and eq: "signals_scan s tp w = signals_scan t tp ?v" for t
    proof -
      have ta: "actions t = actions s" "thread_siginfo t = thread_siginfo s" "process_siginfo t = process_siginfo s"
        using t by (simp_all add: scan_frame_def)
      obtain r s' where r: "signals_scan t tp ?v = Some (r, s')" "scan_frame t ?v s'" "scan_result t tp ?v r s'"
        using less.hyps [OF dec, of t] ta less.prems by auto
      have "scan_result s tp w r s'"
        using r(3) small n by (auto simp: scan_result_def ta bit_drop_flag split: option.splits)
      then show ?thesis using eq r(1) scan_frame_trans [OF t r(2) sub] by auto
    qed
    consider (ign) "handler (actions s ! n) = SIG_IGN"
      | (fatal) "handler (actions s ! n) = SIG_DFL" "check_error (flag_of n) \<noteq> None"
      | (dfl) "handler (actions s ! n) = SIG_DFL" "check_error (flag_of n) = None"
      | (user) "handler (actions s ! n) > 1"
      using word_le_1_cases [of "handler (actions s ! n)"] unfolding SIG_IGN_def SIG_DFL_def by force
    then show ?thesis
    proof cases
      case ign
      then show ?thesis
        using skip [OF _ fc] n i Some by (simp add: signals_scan.simps [of s] Let_def SIG_IGN_def)
    next
      case fatal
      then show ?thesis
        using skip [of s] n i Some by (simp add: signals_scan.simps [of s] Let_def SIG_IGN_def SIG_DFL_def)
    next
      case dfl
      then show ?thesis
        using skip [OF _ fc] n i Some by (simp add: signals_scan.simps [of s] Let_def SIG_IGN_def SIG_DFL_def)
    next
      case user
      let ?info = "if sig_contains tp (flag_of n) then thread_siginfo s ! n else process_siginfo s ! n"
      have ne: "handler (actions s ! n) \<noteq> SIG_IGN" "handler (actions s ! n) \<noteq> SIG_DFL"
        using user by (auto simp: SIG_IGN_def SIG_DFL_def)
      have eq: "signals_scan s tp w = Some (Some (n, actions s ! n, ?info), refresh_work ?c)"
        using user ne n i Some less.prems by (simp add: signals_scan.simps [of s] Let_def)
      have cf: "sig_contains tp (flag_of n) \<longleftrightarrow> bit tp (n - 1)" using contains_flag n by simp
      have low: "\<forall>i. bit w i \<and> i < n - 1 \<longrightarrow> handler (actions s ! (i + 1)) \<le> 1"
        using first_pending_least [OF Some] by (auto simp: not_less [symmetric])
      have gone: "\<not> bit (if bit tp (n - 1) then thread_pending ?c else process_pending ?c) (n - 1)"
        using clear_pending_frame(2) [of n w "sig_contains tp (flag_of n)" s] n by (simp add: cf)
      have "scan_result s tp w (Some (n, actions s ! n, ?info)) (refresh_work ?c)"
        using n user low gone unfolding scan_result_def by (auto simp: cf split: if_splits)
      moreover have "scan_frame s w (refresh_work ?c)" using fc by (simp add: scan_frame_def)
      ultimately show ?thesis using eq by blast
    qed
  qed
qed

section \<open>The signal state over time\<close>

text \<open>The operations on the signal state of a task, in the order in which they take its locks.\<close>

datatype sig_event = PostThread u64 siginfo | PostProcess u64 siginfo
  | Procmask int "u64 option" nat | Sigaction int "user_sigaction option" nat
  | Sigreturn u64 | Sigsuspend u64 nat | ReturnToUser

fun sig_step :: "(u64 \<Rightarrow> bool) \<Rightarrow> sig_state \<Rightarrow> sig_event \<Rightarrow> sig_state option" where
  "sig_step valid s (PostThread sg info) = add_signal_to_task_with_siginfo s sg info"
| "sig_step valid s (PostProcess sg info) = add_signal_to_process_with_siginfo s sg info"
| "sig_step valid s (Procmask how bits n) = Some (snd (sys_sigprocmask s how bits n))"
| "sig_step valid s (Sigaction n ua sz) = map_option snd (sys_sigaction valid s n ua sz)"
| "sig_step valid s (Sigreturn bits) = Some (sigreturn_mask s bits)"
| "sig_step valid s (Sigsuspend bits n) = Some (snd (sigsuspend_mask s bits n))"
| "sig_step valid s ReturnToUser = map_option snd (return_to_user s)"

definition siginfo_empty :: siginfo where
  "siginfo_empty = \<lparr>si_signo = 0, si_code = 0, si_pid = 0, si_uid = 0\<rparr>"

definition sig_init :: sig_state where
  "sig_init = \<lparr>thread_pending = 0, process_pending = 0,
     thread_siginfo = replicate (MAX_SIG + 1) siginfo_empty, process_siginfo = replicate (MAX_SIG + 1) siginfo_empty,
     signal_mask = 0, signal_mask_backup = None, actions = signal_actions_default, work_pending = False\<rparr>"

lemma sig_init_ok [inv_intros]: "sig_ok sig_init"
  by (auto simp: sig_ok_def sig_init_def signal_actions_default_def sigaction_default_def MAX_SIG_def
      no_unblockable_def deliverable_def)

lemma sig_okD:
  assumes "sig_ok s"
  shows "length (actions s) = 65" "length (thread_siginfo s) = 65" "length (process_siginfo s) = 65"
    "handler (actions s ! 9) = SIG_DFL" "handler (actions s ! 19) = SIG_DFL"
    "\<And>n. n < 65 \<Longrightarrow> no_unblockable (sa_mask (actions s ! n))" "no_unblockable (signal_mask s)"
  using assms by (auto simp: sig_ok_def MAX_SIG_def)

text \<open>Changing only pending sets, masks and the hint keeps the state well-formed if the hint stays true.\<close>

lemma sig_ok_update:
  assumes "sig_ok s" and "actions s' = actions s" and "length (thread_siginfo s') = 65"
    and "length (process_siginfo s') = 65" and "no_unblockable (signal_mask s')"
    and "\<forall>m. signal_mask_backup s' = Some m \<longrightarrow> no_unblockable m"
    and "deliverable s' \<noteq> {} \<or> signal_mask_backup s' \<noteq> None \<longrightarrow> work_pending s'"
  shows "sig_ok s'"
  using assms by (simp add: sig_ok_def MAX_SIG_def)

lemma no_unblockable_simps [simp]:
  "no_unblockable (from_user_bits w)" "no_unblockable (without_unblockable w)"
  "no_unblockable v \<Longrightarrow> no_unblockable w \<Longrightarrow> no_unblockable (sig_insert v w)"
  "no_unblockable v \<Longrightarrow> no_unblockable (sig_remove v w)"
  by (auto simp: no_unblockable_def sig_insert_def sig_remove_def bit_or_iff bit_and_iff)

lemma read_user_sigset_ok: "read_user_sigset bits n = Ok m \<Longrightarrow> no_unblockable m"
  by (auto simp: read_user_sigset_def split: if_splits)

lemma procmask_ok: "sig_ok s \<Longrightarrow> sig_ok (snd (sys_sigprocmask s how bits n))"
  by (auto simp: sys_sigprocmask_def Let_def sig_ok_def dest!: read_user_sigset_ok
      split: option.splits sum.splits)

lemma sigsuspend_ok: "sig_ok s \<Longrightarrow> sig_ok (snd (sigsuspend_mask s bits n))"
  by (auto simp: sigsuspend_mask_def sig_ok_def dest!: read_user_sigset_ok split: sum.splits)

lemma sigreturn_ok: "sig_ok s \<Longrightarrow> sig_ok (sigreturn_mask s bits)"
  by (simp add: sigreturn_mask_def sig_ok_def)

lemma post_thread_ok:
  assumes "sig_ok s"
  shows "\<exists>s'. add_signal_to_task_with_siginfo s sg info = Some s' \<and> sig_ok s'"
proof (cases "first_pending_signum sg")
  case None
  then show ?thesis using assms by (simp add: add_signal_to_task_with_siginfo_def sig_ok_def Let_def)
next
  case (Some n)
  then have "n < length (thread_siginfo s)" using from_signum_pending sig_okD(2) [OF assms] by fastforce
  then show ?thesis
    using assms Some by (simp add: add_signal_to_task_with_siginfo_def sig_ok_def Let_def)
qed

lemma post_process_ok:
  assumes "sig_ok s"
  shows "\<exists>s'. add_signal_to_process_with_siginfo s sg info = Some s' \<and> sig_ok s'"
proof (cases "first_pending_signum sg")
  case None
  then show ?thesis using assms by (simp add: add_signal_to_process_with_siginfo_def sig_ok_def Let_def)
next
  case (Some n)
  then have "n < length (process_siginfo s)" using from_signum_pending sig_okD(3) [OF assms] by fastforce
  then show ?thesis
    using assms Some by (simp add: add_signal_to_process_with_siginfo_def sig_ok_def Let_def)
qed

lemma sigaction_ok:
  assumes "sig_ok s"
  shows "\<exists>r s'. sys_sigaction valid s n ua sz = Some (r, s') \<and> sig_ok s'"
proof -
  let ?n = "unat (of_int n :: u32)"
  have upd: "sig_ok (s\<lparr>actions := (actions s)[?n := decode_user_sigaction a]\<rparr>)" if "?n \<noteq> 9" "?n \<noteq> 19" for a
    using assms that by (auto simp: sig_ok_def deliverable_def decode_user_sigaction_def
        dest!: set_update_subset_insert [THEN subsetD])
  show ?thesis
    using assms sig_okD(1) [OF assms] upd
    by (auto simp: sys_sigaction_def Let_def MAX_SIG_def split: option.splits)
qed

lemma check_fatal_ok:
  assumes "sig_ok s"
  shows "\<exists>r s'. check_fatal_signals_of_current s = Some (r, s') \<and> sig_ok s' \<and> (r = None \<or> s' = s)
    \<and> deliverable s' = deliverable s \<and> actions s' = actions s
    \<and> (r = None \<longleftrightarrow> \<not> (\<exists>i\<in>deliverable s. fatal_default (actions s) (i + 1)))
    \<and> (\<forall>n. r = Some n \<longrightarrow> 1 \<le> n \<and> n - 1 \<in> deliverable s \<and> fatal_default (actions s) n)"
proof (cases "work_pending s")
  case False
  then have "deliverable s = {}" using assms by (auto simp: sig_ok_def)
  then show ?thesis using False assms by (simp add: check_fatal_signals_of_current_def)
next
  case True
  obtain r where r: "fatal_scan (actions s) (pending_bits s) = Some r"
    "case r of None \<Rightarrow> \<forall>i. bit (pending_bits s) i \<longrightarrow> \<not> fatal_default (actions s) (i + 1)
     | Some e \<Rightarrow> 1 \<le> e \<and> bit (pending_bits s) (e - 1) \<and> fatal_default (actions s) e"
    using fatal_scan_spec [OF sig_okD(1) [OF assms]] by blast
  have "sig_ok (refresh_work s)"
    using assms by (intro sig_ok_update [OF assms]) (auto simp: sig_ok_def MAX_SIG_def)
  note ok = this
  have eq: "check_fatal_signals_of_current s = Some (case r of Some e \<Rightarrow> (Some e, s) | None \<Rightarrow> (None, refresh_work s))"
    using r(1) True by (simp add: check_fatal_signals_of_current_def pending_bits_def)
  show ?thesis
  proof (cases r)
    case None
    then show ?thesis using eq ok r(2) by (auto simp: bit_pending_bits)
  next
    case (Some e)
    then have e: "1 \<le> e" "e - 1 \<in> deliverable s" "fatal_default (actions s) e"
      using r(2) by (simp_all add: bit_pending_bits)
    then have "\<exists>i\<in>deliverable s. fatal_default (actions s) (i + 1)" by (intro bexI [of _ "e - 1"]) simp_all
    then show ?thesis using eq Some e assms by simp
  qed
qed

lemma scan_frame_sig_ok:
  assumes "sig_ok s" and "scan_frame s w s'"
  shows "sig_ok (refresh_work s')" and "deliverable s' \<subseteq> deliverable s"
proof -
  show "sig_ok (refresh_work s')"
    using assms by (intro sig_ok_update [OF assms(1)]) (auto simp: scan_frame_def sig_ok_def MAX_SIG_def)
  show "deliverable s' \<subseteq> deliverable s"
    using assms(2) by (auto simp: scan_frame_def deliverable_def)
qed

text \<open>The specification of the choice of a handler.\<close>

definition chosen_handler :: "sig_state \<Rightarrow> nat \<Rightarrow> sigaction \<Rightarrow> siginfo \<Rightarrow> sig_state \<Rightarrow> bool" where
  "chosen_handler s n a info s' \<longleftrightarrow> 1 \<le> n \<and> n - 1 \<in> deliverable s \<and> a = actions s ! n \<and> handler a > 1
     \<and> (\<forall>i\<in>deliverable s. i < n - 1 \<longrightarrow> handler (actions s ! (i + 1)) \<le> 1)
     \<and> info = (if bit (thread_pending s) (n - 1) then thread_siginfo s ! n else process_siginfo s ! n)
     \<and> \<not> bit (if bit (thread_pending s) (n - 1) then thread_pending s' else process_pending s') (n - 1)
     \<and> scan_frame s (pending_bits s) s'"

lemma check_signals_ok:
  assumes "sig_ok s"
  shows "\<exists>r s'. check_signals_of_current s = Some (r, s') \<and> sig_ok s'
    \<and> (case r of None \<Rightarrow> (\<forall>i\<in>deliverable s. handler (actions s ! (i + 1)) \<le> 1)
         \<and> signal_mask s' = (case signal_mask_backup s of Some m \<Rightarrow> m | None \<Rightarrow> signal_mask s)
         \<and> signal_mask_backup s' = None \<and> actions s' = actions s
       | Some (n, a, info) \<Rightarrow> chosen_handler s n a info s')"
proof (cases "work_pending s")
  case False
  then have "deliverable s = {}" "signal_mask_backup s = None" using assms by (auto simp: sig_ok_def)
  then show ?thesis using False assms by (simp add: check_signals_of_current_def)
next
  case True
  obtain r s1 where r: "signals_scan s (thread_pending s) (pending_bits s) = Some (r, s1)"
    "scan_frame s (pending_bits s) s1" "scan_result s (thread_pending s) (pending_bits s) r s1"
    using signals_scan_spec [OF sig_okD(1-3) [OF assms]] by blast
  let ?t = "case signal_mask_backup s1 of Some old \<Rightarrow> s1\<lparr>signal_mask := old, signal_mask_backup := None\<rparr> | None \<Rightarrow> s1"
  have eq: "check_signals_of_current s
      = Some (case r of Some d \<Rightarrow> (Some d, s1) | None \<Rightarrow> (None, refresh_work ?t))"
    using r(1) True by (simp add: check_signals_of_current_def pending_bits_def)
  have bk: "signal_mask_backup s1 = signal_mask_backup s" "signal_mask s1 = signal_mask s" "actions s1 = actions s"
    using r(2) by (simp_all add: scan_frame_def)
  show ?thesis
  proof (cases r)
    case None
    have "sig_ok (refresh_work ?t)"
      using assms r(2) by (intro sig_ok_update [OF assms])
        (auto simp: scan_frame_def sig_ok_def MAX_SIG_def split: option.splits)
    then show ?thesis
      using eq None r(3) bk by (auto simp: scan_result_def bit_pending_bits split: option.splits)
  next
    case (Some d)
    obtain n a info where d: "d = (n, a, info)" by (cases d)
    have hint: "work_pending s1 \<longleftrightarrow> signal_mask_backup s1 \<noteq> None \<or> deliverable s1 \<noteq> {}"
      using r(3) by (simp add: scan_result_def Some d)
    have "sig_ok s1"
      using assms r(2) hint by (intro sig_ok_update [OF assms]) (auto simp: scan_frame_def sig_ok_def MAX_SIG_def)
    then show ?thesis
      using eq Some d r(2,3) by (auto simp: scan_result_def chosen_handler_def bit_pending_bits)
  qed
qed

lemma from_bits_id: "from_bits w = Some w"
  by (simp add: from_bits_def SUPPORTED_SIGNAL_BITS_def)

lemma from_signum_flag: "1 \<le> n \<Longrightarrow> n \<le> 64 \<Longrightarrow> from_signum n = Some (flag_of n)"
  by (simp add: from_signum_def flag_of_def MAX_SIG_def)

lemma enter_handler_ok:
  assumes "sig_ok s" and "a = actions s ! n" and "handler a > 1" and "1 \<le> n" and "n \<le> 64"
  shows "sig_ok (enter_handler_mask (s\<lparr>signal_mask_backup := None\<rparr>) n a)"
proof -
  have "n \<noteq> 9" "n \<noteq> 19" using assms sig_okD(4,5) [OF assms(1)] by (auto simp: SIG_DFL_def)
  then have f: "no_unblockable (flag_of n)" using assms(4,5) by (auto simp: no_unblockable_def bit_flag_of)
  have m: "no_unblockable (sa_mask a)" using sig_okD(6) [OF assms(1), of n] assms by simp
  obtain x where x: "enter_handler_mask (s\<lparr>signal_mask_backup := None\<rparr>) n a
      = refresh_work (s\<lparr>signal_mask_backup := None, signal_mask := x\<rparr>)" "no_unblockable x"
    using f m sig_okD(7) [OF assms(1)] from_signum_flag [OF assms(4,5)]
    unfolding enter_handler_mask_def from_bits_id by (cases "sa_flags a AND SA_NODEFER = 0") (auto simp: Let_def)
  show ?thesis
    unfolding x(1) using x(2) sig_okD(1-3) [OF assms(1)] by (intro sig_ok_update [OF assms(1)]) auto
qed

definition killed :: "user_return \<Rightarrow> bool" where
  "killed out \<longleftrightarrow> (case out of Killed _ \<Rightarrow> True | _ \<Rightarrow> False)"

lemma return_to_user_ok:
  assumes "sig_ok s"
  shows "\<exists>out s'. return_to_user s = Some (out, s') \<and> sig_ok s'
    \<and> (killed out \<longleftrightarrow> (\<exists>i\<in>deliverable s. fatal_default (actions s) (i + 1)))"
proof -
  obtain r s1 where r: "check_fatal_signals_of_current s = Some (r, s1)" "sig_ok s1"
    "r = None \<longleftrightarrow> \<not> (\<exists>i\<in>deliverable s. fatal_default (actions s) (i + 1))"
    using check_fatal_ok [OF assms] by blast
  show ?thesis
  proof (cases r)
    case (Some n)
    then show ?thesis using r by (simp add: return_to_user_def killed_def)
  next
    case None
    obtain q s2 where q: "check_signals_of_current s1 = Some (q, s2)" "sig_ok s2"
      "case q of None \<Rightarrow> True | Some (n, a, info) \<Rightarrow> chosen_handler s1 n a info s2"
      using check_signals_ok [OF r(2)] by (fastforce split: option.splits)
    show ?thesis
    proof (cases q)
      case None
      then show ?thesis using r q \<open>r = None\<close> by (simp add: return_to_user_def killed_def)
    next
      case (Some d)
      obtain n a info where d: "d = (n, a, info)" by (cases d)
      have c: "chosen_handler s1 n a info s2" using q(3) Some d by simp
      have n: "a = actions s2 ! n" "handler a > 1" "1 \<le> n" "n \<le> 64"
        using c by (auto simp: chosen_handler_def scan_frame_def deliverable_def)
      show ?thesis
        using r q Some d \<open>r = None\<close> enter_handler_ok [OF q(2) n]
        by (simp add: return_to_user_def killed_def frame_old_mask_def)
    qed
  qed
qed

lemma sig_step_ok:
  assumes "sig_ok s"
  shows "\<exists>s'. sig_step valid s e = Some s' \<and> sig_ok s'"
proof (cases e)
  case (Sigaction n ua sz)
  then show ?thesis using sigaction_ok [OF assms, of valid n ua sz] by auto
next
  case ReturnToUser
  then show ?thesis using return_to_user_ok [OF assms] by auto
qed (use assms post_thread_ok post_process_ok procmask_ok sigreturn_ok sigsuspend_ok in auto)

lemma sig_run_ok: "\<exists>s. for_opt (sig_step valid) sig_init es = Some s \<and> sig_ok s"
  using for_opt_inv [of sig_ok, OF sig_init_ok, of es "sig_step valid"] sig_step_ok by blast

section \<open>Properties\<close>

text \<open>
  C15. SIGKILL cannot be escaped. After any sequence of posted signals, mask changes, action changes,
  handler entries, returns from handlers and suspensions, nothing has panicked, the blocked set
  contains neither SIGKILL nor SIGSTOP and both still have their default action; and if SIGKILL is
  pending for the thread or the process, the next return to user mode terminates the task.
\<close>

theorem sigkill_not_escapable:
  "\<exists>s. for_opt (sig_step valid) sig_init es = Some s
     \<and> \<not> sig_contains (signal_mask s) (sig_bit SIGKILL) \<and> \<not> sig_contains (signal_mask s) (sig_bit SIGSTOP)
     \<and> (sig_contains (thread_pending s OR process_pending s) (sig_bit SIGKILL) \<longrightarrow>
          (\<exists>n s'. return_to_user s = Some (Killed n, s')))"
proof -
  obtain s where s: "for_opt (sig_step valid) sig_init es = Some s" "sig_ok s" using sig_run_ok by blast
  have masked: "\<not> bit (signal_mask s) 8" "\<not> bit (signal_mask s) 18"
    using sig_okD(7) [OF s(2)] by (simp_all add: no_unblockable_def)
  have "\<exists>n s'. return_to_user s = Some (Killed n, s')" if "bit (thread_pending s OR process_pending s) 8"
  proof -
    have "8 \<in> deliverable s" using that by (auto simp: deliverable_def bit_or_iff)
    moreover have "fatal_default (actions s) (8 + 1)"
      using sig_okD(4) [OF s(2)] by (simp add: fatal_default_def)
    ultimately obtain out s' where "return_to_user s = Some (out, s')" "killed out"
      using return_to_user_ok [OF s(2)] by blast
    then show ?thesis by (cases out) (auto simp: killed_def)
  qed
  then show ?thesis using s masked by (auto simp: sig_bit_flag contains_flag)
qed

text \<open>A process that blocks everything and is then killed.\<close>

theorem sigkill_not_escapable_witness:
  "\<exists>s. for_opt (sig_step (\<lambda>_. True)) sig_init
         [Procmask 2 (Some (- 1)) 8, PostProcess (sig_bit SIGKILL) siginfo_empty] = Some s
     \<and> sig_contains (thread_pending s OR process_pending s) (sig_bit SIGKILL)
     \<and> (\<exists>n s'. return_to_user s = Some (Killed n, s'))"
proof -
  have "case for_opt (sig_step (\<lambda>_. True)) sig_init
         [Procmask 2 (Some (- 1)) 8, PostProcess (sig_bit SIGKILL) siginfo_empty] of
       Some s \<Rightarrow> sig_contains (thread_pending s OR process_pending s) (sig_bit SIGKILL) | None \<Rightarrow> False"
    by code_simp
  then show ?thesis
    using sigkill_not_escapable [of "\<lambda>_. True" "[Procmask 2 (Some (- 1)) 8, PostProcess (sig_bit SIGKILL) siginfo_empty]"]
    by auto
qed

text \<open>
  C16. Handler selection. On a well-formed signal state, \<open>check_signals_of_current\<close> returns; when it
  selects a signal, it is the lowest-numbered deliverable signal (pending, and not blocked) that has
  a user handler, with the action registered for it and the siginfo of the queue it was taken from;
  that pending bit is consumed, and masks, actions and signals that are not deliverable stay as
  they were. When it selects none, no deliverable signal has a user handler and a mask saved by
  \<open>sigsuspend\<close> is in force again.
\<close>

theorem check_signals_selects_lowest:
  assumes "sig_ok s"
  shows "\<exists>r s'. check_signals_of_current s = Some (r, s')
    \<and> (case r of
         None \<Rightarrow> (\<forall>i\<in>deliverable s. handler (actions s ! (i + 1)) \<le> 1)
           \<and> signal_mask s' = (case signal_mask_backup s of Some m \<Rightarrow> m | None \<Rightarrow> signal_mask s)
       | Some (n, a, info) \<Rightarrow> chosen_handler s n a info s')"
  using check_signals_ok [OF assms] by (fastforce split: option.splits)

text \<open>A process that has a handler for SIGUSR1, to which SIGUSR1 is posted.\<close>

definition usr1_state :: sig_state where
  "usr1_state = sig_init\<lparr>actions := (actions sig_init)[10 := sigaction_default\<lparr>handler := 0x1000\<rparr>],
     process_pending := flag_of 10, work_pending := True\<rparr>"

lemma usr1_state_ok: "sig_ok usr1_state" "deliverable usr1_state = {9}" "handler (actions usr1_state ! 10) = 0x1000"
  by (auto simp: usr1_state_def sig_ok_def sig_init_def signal_actions_default_def sigaction_default_def
      MAX_SIG_def no_unblockable_def deliverable_def bit_flag_of dest!: set_update_subset_insert [THEN subsetD])

theorem check_signals_selects_lowest_witness:
  "sig_ok usr1_state \<and> (\<exists>n a info s'. check_signals_of_current usr1_state = Some (Some (n, a, info), s')
     \<and> chosen_handler usr1_state n a info s')"
proof -
  obtain r s' where r: "check_signals_of_current usr1_state = Some (r, s')"
    "case r of None \<Rightarrow> \<forall>i\<in>deliverable usr1_state. handler (actions usr1_state ! (i + 1)) \<le> 1
     | Some (n, a, info) \<Rightarrow> chosen_handler usr1_state n a info s'"
    using check_signals_selects_lowest [OF usr1_state_ok(1)] by (fastforce split: option.splits)
  then show ?thesis using usr1_state_ok by (cases r) (auto simp: word_le_nat_alt)
qed


end
