(* ===== verification/Paging_Arch.thy ===== *)
theory Paging_Arch
  imports Kernel_Prelude
begin

text \<open>
  The architecture layer of paging: the trait \<open>PagingArch\<close> (\<open>os/src/hal/traits.rs\<close>) as a record of
  operations, its two implementations (\<open>os/src/arch/riscv/paging.rs\<close> and
  \<open>os/src/arch/loongarch64/paging.rs\<close>), and the laws the page-table code relies on, as a locale
  that both implementations interpret. Page numbers are \<open>nat\<close>, entries and tokens are 64-bit words.
\<close>

unbundle bit_operations_syntax

section \<open>Flags\<close>

definition PTE_FLAG_V :: u16 where "PTE_FLAG_V = 1"
definition PTE_FLAG_R :: u16 where "PTE_FLAG_R = 2"
definition PTE_FLAG_W :: u16 where "PTE_FLAG_W = 4"
definition PTE_FLAG_X :: u16 where "PTE_FLAG_X = 8"
definition PTE_FLAG_U :: u16 where "PTE_FLAG_U = 16"
definition PTE_FLAG_G :: u16 where "PTE_FLAG_G = 32"
definition PTE_FLAG_A :: u16 where "PTE_FLAG_A = 64"
definition PTE_FLAG_D :: u16 where "PTE_FLAG_D = 128"

text \<open>\<open>from_bits_truncate\<close> keeps the declared bits.\<close>

definition pte_flags_truncate :: "u16 \<Rightarrow> u16" where "pte_flags_truncate b = b AND 0xff"

definition fl_has :: "u16 \<Rightarrow> u16 \<Rightarrow> bool" where "fl_has fl f \<longleftrightarrow> fl AND f = f"

section \<open>The trait\<close>

record paging_arch =
  pa_bits :: nat
  va_bits :: nat
  levels :: nat
  index_bits :: nat
  make_token :: "nat \<Rightarrow> u64"
  token_root_ppn :: "u64 \<Rightarrow> nat"
  make_pte :: "nat \<Rightarrow> u16 \<Rightarrow> u64"
  make_dir_entry :: "nat \<Rightarrow> u64"
  pte_ppn :: "u64 \<Rightarrow> nat"
  pte_flags :: "u64 \<Rightarrow> u16"
  pte_is_valid :: "u64 \<Rightarrow> bool"
  normalize_leaf_flags :: "u16 \<Rightarrow> u16"
  normalize_virt_addr_input :: "nat \<Rightarrow> nat"
  vpn_index :: "nat \<Rightarrow> nat \<Rightarrow> nat"

definition ppn_bits :: "paging_arch \<Rightarrow> nat" where "ppn_bits A = pa_bits A - 12"

definition user_space_end :: "paging_arch \<Rightarrow> nat" where "user_space_end A = 2 ^ (va_bits A - 1)"

definition canonicalize_vaddr :: "paging_arch \<Rightarrow> u64 \<Rightarrow> u64" where
  "canonicalize_vaddr A bits =
     (if bits \<ge> push_bit (va_bits A - 1) 1 then bits OR NOT (push_bit (va_bits A) 1 - 1) else bits)"

section \<open>Sv39\<close>

definition sv39_make_token :: "nat \<Rightarrow> u64" where
  "sv39_make_token root_ppn = push_bit 60 8 OR of_nat root_ppn"

definition SATP_ASID_MASK :: u64 where "SATP_ASID_MASK = push_bit 44 (push_bit 16 1 - 1)"

definition sv39_with_address_space_id :: "u64 \<Rightarrow> nat \<Rightarrow> u64" where
  "sv39_with_address_space_id token asid =
     (token AND NOT SATP_ASID_MASK) OR push_bit 44 (of_nat asid AND (push_bit 16 1 - 1))"

definition sv39_address_space_id :: "u64 \<Rightarrow> nat" where
  "sv39_address_space_id token = unat (drop_bit 44 (token AND SATP_ASID_MASK))"

definition sv39_root_ppn :: "u64 \<Rightarrow> nat" where
  "sv39_root_ppn token = unat (token AND (push_bit 44 1 - 1))"

definition sv39_make_pte :: "nat \<Rightarrow> u16 \<Rightarrow> u64" where
  "sv39_make_pte ppn fl = push_bit 10 (of_nat ppn) OR ucast fl"

definition sv39_pte_ppn :: "u64 \<Rightarrow> nat" where
  "sv39_pte_ppn bits = unat (drop_bit 10 bits AND (push_bit 44 1 - 1))"

definition sv39_pte_flags :: "u64 \<Rightarrow> u16" where
  "sv39_pte_flags bits = pte_flags_truncate (ucast bits)"

definition sv39_normalize_virt_addr_input :: "nat \<Rightarrow> nat" where
  "sv39_normalize_virt_addr_input bits = bits AND (2 ^ 39 - 1)"

definition sv39_vpn_index :: "nat \<Rightarrow> nat \<Rightarrow> nat" where
  "sv39_vpn_index vpn level = drop_bit ((3 - 1 - level) * 9) vpn AND (2 ^ 9 - 1)"

definition default_pte_is_valid :: "(u64 \<Rightarrow> u16) \<Rightarrow> u64 \<Rightarrow> bool" where
  "default_pte_is_valid flags_of bits \<longleftrightarrow> flags_of bits AND PTE_FLAG_V \<noteq> 0"

definition sv39 :: paging_arch where
  "sv39 = \<lparr>pa_bits = 56, va_bits = 39, levels = 3, index_bits = 9,
     make_token = sv39_make_token, token_root_ppn = sv39_root_ppn,
     make_pte = sv39_make_pte, make_dir_entry = (\<lambda>ppn. sv39_make_pte ppn PTE_FLAG_V),
     pte_ppn = sv39_pte_ppn, pte_flags = sv39_pte_flags,
     pte_is_valid = default_pte_is_valid sv39_pte_flags,
     normalize_leaf_flags = (\<lambda>fl. fl), normalize_virt_addr_input = sv39_normalize_virt_addr_input,
     vpn_index = sv39_vpn_index\<rparr>"

text \<open>
  \<open>flush_tlb_range_asid\<close> as the list of fences it issues: one per page, or one for the whole
  address space when the range has more than \<open>TLB_RANGE_PAGE_LIMIT\<close> pages.
\<close>

definition TLB_RANGE_PAGE_LIMIT :: nat where "TLB_RANGE_PAGE_LIMIT = 32"

datatype fence = FencePage nat nat | FenceAsid nat

partial_function (option) flush_pages :: "nat \<Rightarrow> nat \<Rightarrow> nat \<Rightarrow> fence list option" where
  "flush_pages page_addr last_page asid =
     (if page_addr = last_page then Some [FencePage page_addr asid]
      else do {
        fs \<leftarrow> flush_pages (wrap_add page_addr 4096) last_page asid;
        Some (FencePage page_addr asid # fs)
      })"

definition sv39_flush_tlb_range_asid :: "nat \<Rightarrow> nat \<Rightarrow> nat \<Rightarrow> fence list option" where
  "sv39_flush_tlb_range_asid start end_va asid =
     (if start \<ge> end_va then Some []
      else
        let first_page = start - start mod 4096;
            last_page = sat_sub end_va 1 - sat_sub end_va 1 mod 4096;
            page_count = (last_page - first_page) div 4096 + 1
        in if page_count > TLB_RANGE_PAGE_LIMIT then Some [FenceAsid asid]
           else flush_pages first_page last_page asid)"

section \<open>LoongArch\<close>

definition LA_PTE_V :: u64 where "LA_PTE_V = push_bit 0 1"
definition LA_PTE_D :: u64 where "LA_PTE_D = push_bit 1 1"
definition LA_PTE_PLV_USER :: u64 where "LA_PTE_PLV_USER = push_bit 2 3"
definition LA_PTE_MAT_CC :: u64 where "LA_PTE_MAT_CC = push_bit 4 1"
definition LA_PTE_G :: u64 where "LA_PTE_G = push_bit 6 1"
definition LA_PTE_P :: u64 where "LA_PTE_P = push_bit 7 1"
definition LA_PTE_W :: u64 where "LA_PTE_W = push_bit 8 1"
definition LA_PTE_A :: u64 where "LA_PTE_A = push_bit 10 1"
definition LA_PTE_GNX :: u64 where "LA_PTE_GNX = push_bit 62 1"
definition LA_PTE_GNR :: u64 where "LA_PTE_GNR = push_bit 61 1"

definition la_make_token :: "nat \<Rightarrow> u64" where "la_make_token root_ppn = push_bit 12 (of_nat root_ppn)"

definition la_root_ppn :: "u64 \<Rightarrow> nat" where "la_root_ppn token = unat (drop_bit 12 token)"

definition la_make_pte :: "nat \<Rightarrow> u16 \<Rightarrow> u64" where
  "la_make_pte ppn fl =
     (let bits = push_bit 12 (of_nat ppn) OR LA_PTE_P OR LA_PTE_V OR LA_PTE_MAT_CC;
          bits = (if fl_has fl PTE_FLAG_A then bits OR LA_PTE_A else bits);
          bits = (if fl_has fl PTE_FLAG_W then bits OR (LA_PTE_W OR LA_PTE_D) else bits);
          bits = (if fl_has fl PTE_FLAG_U then bits OR LA_PTE_PLV_USER else bits);
          bits = (if fl_has fl PTE_FLAG_G then bits OR LA_PTE_G else bits);
          bits = (if \<not> fl_has fl PTE_FLAG_R then bits OR LA_PTE_GNR else bits)
      in if \<not> fl_has fl PTE_FLAG_X then bits OR LA_PTE_GNX else bits)"

definition la_make_dir_entry :: "nat \<Rightarrow> u64" where "la_make_dir_entry ppn = push_bit 12 (of_nat ppn)"

definition la_pte_ppn :: "u64 \<Rightarrow> nat" where
  "la_pte_ppn bits = unat (drop_bit 12 bits AND (push_bit 36 1 - 1))"

definition la_pte_flags :: "u64 \<Rightarrow> u16" where
  "la_pte_flags b =
     (let fl = 0;
          fl = (if b AND LA_PTE_V \<noteq> 0 then fl OR PTE_FLAG_V else fl);
          fl = (if b AND LA_PTE_W \<noteq> 0 then fl OR PTE_FLAG_W else fl);
          fl = (if b AND LA_PTE_D \<noteq> 0 then fl OR PTE_FLAG_D else fl);
          fl = (if b AND LA_PTE_A \<noteq> 0 then fl OR PTE_FLAG_A else fl);
          fl = (if b AND LA_PTE_PLV_USER \<noteq> 0 then fl OR PTE_FLAG_U else fl);
          fl = (if b AND LA_PTE_G \<noteq> 0 then fl OR PTE_FLAG_G else fl);
          fl = (if b AND LA_PTE_GNR = 0 then fl OR PTE_FLAG_R else fl)
      in if b AND LA_PTE_GNX = 0 then fl OR PTE_FLAG_X else fl)"

definition la_normalize_leaf_flags :: "u16 \<Rightarrow> u16" where
  "la_normalize_leaf_flags fl =
     (let fl = fl OR PTE_FLAG_A in if fl_has fl PTE_FLAG_W then fl OR PTE_FLAG_D else fl)"

definition la_vpn_index :: "nat \<Rightarrow> nat \<Rightarrow> nat" where
  "la_vpn_index vpn level = drop_bit ((3 - 1 - level) * 9) vpn AND (2 ^ 9 - 1)"

definition loongarch :: paging_arch where
  "loongarch = \<lparr>pa_bits = 48, va_bits = 39, levels = 3, index_bits = 9,
     make_token = la_make_token, token_root_ppn = la_root_ppn,
     make_pte = la_make_pte, make_dir_entry = la_make_dir_entry,
     pte_ppn = la_pte_ppn, pte_flags = la_pte_flags, pte_is_valid = (\<lambda>b. b \<noteq> 0),
     normalize_leaf_flags = la_normalize_leaf_flags, normalize_virt_addr_input = (\<lambda>b. b),
     vpn_index = la_vpn_index\<rparr>"

section \<open>The contract of the page-table code\<close>

locale paging =
  fixes A :: paging_arch
  assumes levels_pos: "0 < levels A"
    and empty_invalid: "\<not> pte_is_valid A 0"
    and dir_entry: "0 < ppn \<Longrightarrow> ppn < 2 ^ ppn_bits A \<Longrightarrow>
      pte_is_valid A (make_dir_entry A ppn) \<and> pte_ppn A (make_dir_entry A ppn) = ppn"
    and leaf_entry: "ppn < 2 ^ ppn_bits A \<Longrightarrow> fl AND 0xff = fl \<Longrightarrow> fl AND PTE_FLAG_V \<noteq> 0 \<Longrightarrow>
      pte_is_valid A (make_pte A ppn fl) \<and> pte_ppn A (make_pte A ppn fl) = ppn"
    and leaf_perms: "ppn < 2 ^ ppn_bits A \<Longrightarrow> fl AND 0xff = fl \<Longrightarrow> f \<in> {PTE_FLAG_R, PTE_FLAG_W, PTE_FLAG_X, PTE_FLAG_U} \<Longrightarrow>
      fl_has (pte_flags A (make_pte A ppn fl)) f = fl_has fl f"
    and ppn_bound: "pte_ppn A b < 2 ^ ppn_bits A"
    and index_bound: "vpn_index A vpn l < 2 ^ index_bits A"
    and index_inj: "(\<forall>l<levels A. vpn_index A vpn l = vpn_index A vpn' l)
      \<longleftrightarrow> vpn mod 2 ^ (index_bits A * levels A) = vpn' mod 2 ^ (index_bits A * levels A)"

section \<open>Word facts\<close>

lemma of_nat_bit_bound:
  assumes "(n::nat) < 2 ^ k" and "bit (of_nat n :: 'a::len word) i"
  shows "i < k"
proof (rule ccontr)
  assume "\<not> i < k"
  then have "n < 2 ^ i" by (intro less_le_trans [OF assms(1)] power_increasing) simp_all
  then have "\<not> bit n i" by (simp add: bit_iff_odd)
  then show False using assms(2) by (simp add: bit_simps)
qed

lemma ff_mask: "(0xff :: u16) = mask 8"
  by (simp add: mask_eq_exp_minus_1)

lemma flags_bit_bound: "(fl::u16) AND 0xff = fl \<Longrightarrow> bit fl i \<Longrightarrow> i < 8"
proof -
  assume "fl AND 0xff = fl" "bit fl i"
  then have "bit (fl AND mask 8) i" by (simp add: mask_eq_exp_minus_1)
  then show "i < 8" by (simp add: bit_simps)
qed

lemma push_1_minus_1: "push_bit k 1 - 1 = (mask k :: u64)"
  by (simp add: mask_eq_exp_minus_1)

lemma unat_of_nat_small: "n < 2 ^ k \<Longrightarrow> k \<le> 64 \<Longrightarrow> unat (of_nat n :: u64) = n"
  using power_increasing [of k 64 "2::nat"] by (simp add: unat_of_nat)

section \<open>Sv39 meets the contract\<close>

lemma sv39_ppn_pte:
  assumes "ppn < 2 ^ 44" and "fl AND 0xff = fl"
  shows "sv39_pte_ppn (sv39_make_pte ppn fl) = ppn"
proof -
  have "drop_bit 10 (push_bit 10 (of_nat ppn) OR ucast fl) AND (mask 44 :: u64) = of_nat ppn"
    using of_nat_bit_bound [OF assms(1), where ?'a = 64] flags_bit_bound [OF assms(2)]
    by (intro bit_word_eqI) (fastforce simp: bit_simps)
  then show ?thesis
    using unat_of_nat_small [OF assms(1)]
    by (simp only: sv39_pte_ppn_def sv39_make_pte_def push_1_minus_1)
qed

lemma sv39_flags_pte:
  assumes "fl AND 0xff = fl"
  shows "sv39_pte_flags (sv39_make_pte ppn fl) = fl"
proof -
  have "pte_flags_truncate (ucast (push_bit 10 (of_nat ppn) OR ucast fl :: u64)) = fl"
    unfolding pte_flags_truncate_def ff_mask using flags_bit_bound [OF assms]
    by (intro bit_word_eqI) (auto simp: bit_simps)
  then show ?thesis by (simp add: sv39_pte_flags_def sv39_make_pte_def)
qed

lemma index_mod:
  "drop_bit s vpn AND (2 ^ 9 - 1) = vpn div 2 ^ s mod 2 ^ (9::nat)" for vpn :: nat
  using take_bit_eq_mask [of 9 "drop_bit s vpn"] by (simp add: take_bit_eq_mod drop_bit_eq_div mask_eq_exp_minus_1)

lemma vpn_digits:
  "(\<forall>l<3. vpn div 2 ^ ((3 - 1 - l) * 9) mod 2 ^ 9 = vpn' div 2 ^ ((3 - 1 - l) * 9) mod 2 ^ 9)
    \<longleftrightarrow> vpn mod 2 ^ 27 = vpn' mod 2 ^ (27::nat)" for vpn vpn' :: nat
proof -
  have d: "v mod 2 ^ 27 = v mod 2 ^ 9 + 2 ^ 9 * (v div 2 ^ 9 mod 2 ^ 9) + 2 ^ 18 * (v div 2 ^ 18 mod 2 ^ 9)" for v :: nat
    using mod_mult2_eq [of v "2 ^ 18" "2 ^ 9"] mod_mult2_eq [of v "2 ^ 9" "2 ^ 9"] by simp
  have all: "(\<forall>l<3. P l) \<longleftrightarrow> P 0 \<and> P 1 \<and> P (2::nat)" for P
    by (auto simp: numeral_3_eq_3 numeral_2_eq_2 less_Suc_eq)
  have e: "v div 2 ^ i mod 2 ^ 9 = v mod 2 ^ 27 div 2 ^ i mod 2 ^ 9" if "i = 0 \<or> i = 9 \<or> i = 18" for v i :: nat
  proof -
    have "take_bit 9 (drop_bit i v) = take_bit 9 (drop_bit i (take_bit 27 v))"
      using that by (intro bit_eqI) (auto simp: bit_simps)
    then show ?thesis by (simp only: take_bit_eq_mod drop_bit_eq_div)
  qed
  show ?thesis
    unfolding all
  proof
    assume "vpn div 2 ^ ((3 - 1 - 0) * 9) mod 2 ^ 9 = vpn' div 2 ^ ((3 - 1 - 0) * 9) mod 2 ^ 9 \<and>
      vpn div 2 ^ ((3 - 1 - 1) * 9) mod 2 ^ 9 = vpn' div 2 ^ ((3 - 1 - 1) * 9) mod 2 ^ 9 \<and>
      vpn div 2 ^ ((3 - 1 - 2) * 9) mod 2 ^ 9 = vpn' div 2 ^ ((3 - 1 - 2) * 9) mod 2 ^ 9"
    then show "vpn mod 2 ^ 27 = vpn' mod 2 ^ 27" unfolding d [of vpn] d [of vpn'] by simp
  next
    assume eq: "vpn mod 2 ^ 27 = vpn' mod 2 ^ 27"
    show "vpn div 2 ^ ((3 - 1 - 0) * 9) mod 2 ^ 9 = vpn' div 2 ^ ((3 - 1 - 0) * 9) mod 2 ^ 9 \<and>
      vpn div 2 ^ ((3 - 1 - 1) * 9) mod 2 ^ 9 = vpn' div 2 ^ ((3 - 1 - 1) * 9) mod 2 ^ 9 \<and>
      vpn div 2 ^ ((3 - 1 - 2) * 9) mod 2 ^ 9 = vpn' div 2 ^ ((3 - 1 - 2) * 9) mod 2 ^ 9"
      using e [of 0 vpn] e [of 0 vpn'] e [of 9 vpn] e [of 9 vpn'] e [of 18 vpn] e [of 18 vpn'] eq by simp
  qed
qed

lemma sv39_vpn_index_bound: "sv39_vpn_index vpn l < 2 ^ 9"
  unfolding sv39_vpn_index_def index_mod by simp

lemma sv39_index_inj:
  "(\<forall>l<3. sv39_vpn_index vpn l = sv39_vpn_index vpn' l) \<longleftrightarrow> vpn mod 2 ^ 27 = vpn' mod 2 ^ 27"
  unfolding sv39_vpn_index_def index_mod by (rule vpn_digits)

lemma unat_and_mask_bound: "k \<le> 64 \<Longrightarrow> unat ((x::u64) AND (push_bit k 1 - 1)) < 2 ^ k"
  by (simp add: push_1_minus_1 unsigned_take_bit_eq flip: take_bit_eq_mask del: push_bit_of_1)

interpretation sv39: paging sv39
proof (unfold_locales, goal_cases)
  case 2
  then show ?case by (simp add: sv39_def default_pte_is_valid_def sv39_pte_flags_def pte_flags_truncate_def)
next
  case (3 ppn)
  then show ?case
    by (simp add: sv39_def ppn_bits_def default_pte_is_valid_def sv39_flags_pte sv39_ppn_pte PTE_FLAG_V_def)
next
  case (4 ppn fl)
  then show ?case
    by (simp add: sv39_def ppn_bits_def default_pte_is_valid_def sv39_flags_pte sv39_ppn_pte)
next
  case (5 ppn fl f)
  then show ?case by (simp add: sv39_def sv39_flags_pte)
next
  case (6 b)
  then show ?case using unat_and_mask_bound [of 44] by (simp add: sv39_def ppn_bits_def sv39_pte_ppn_def del: push_bit_of_1)
next
  case (7 vpn l)
  then show ?case using sv39_vpn_index_bound by (simp add: sv39_def)
next
  case (8 vpn vpn')
  then show ?case using sv39_index_inj by (simp add: sv39_def)
qed (simp add: sv39_def)

section \<open>LoongArch meets the contract\<close>

lemmas la_bits = LA_PTE_V_def LA_PTE_D_def LA_PTE_PLV_USER_def LA_PTE_MAT_CC_def LA_PTE_G_def LA_PTE_P_def
  LA_PTE_W_def LA_PTE_A_def LA_PTE_GNX_def LA_PTE_GNR_def

lemma bit_3: "bit (3 :: u64) i \<longleftrightarrow> i = 0 \<or> i = 1"
proof -
  have "(3 :: u64) = mask 2" by (simp add: mask_eq_exp_minus_1)
  then have "bit (3 :: u64) i \<longleftrightarrow> i < 64 \<and> i < 2" by (simp only: bit_mask_iff) simp
  then show ?thesis by auto
qed

lemma bit_push_1: "k < 64 \<Longrightarrow> bit (push_bit k 1 :: u64) i \<longleftrightarrow> i = k"
  by (auto simp: bit_simps simp del: push_bit_of_1)

lemma bit_plv: "bit (push_bit 2 3 :: u64) i \<longleftrightarrow> i = 2 \<or> i = 3"
  unfolding bit_push_bit_iff bit_3 by auto

lemma la_bit_iff:
  "bit LA_PTE_V i \<longleftrightarrow> i = 0" "bit LA_PTE_D i \<longleftrightarrow> i = 1" "bit LA_PTE_PLV_USER i \<longleftrightarrow> i = 2 \<or> i = 3"
  "bit LA_PTE_MAT_CC i \<longleftrightarrow> i = 4" "bit LA_PTE_G i \<longleftrightarrow> i = 6" "bit LA_PTE_P i \<longleftrightarrow> i = 7" "bit LA_PTE_W i \<longleftrightarrow> i = 8"
  "bit LA_PTE_A i \<longleftrightarrow> i = 10" "bit LA_PTE_GNX i \<longleftrightarrow> i = 62" "bit LA_PTE_GNR i \<longleftrightarrow> i = 61"
  unfolding la_bits by (rule bit_plv | rule bit_push_1, simp)+

lemma bit_if_or: "bit (if c then x OR y else x) i \<longleftrightarrow> bit x i \<or> c \<and> bit y i" for x y :: u64
  by (simp add: bit_or_iff)

lemma la_pte_bit:
  assumes "i < 64"
  shows "bit (la_make_pte ppn fl) i \<longleftrightarrow>
    i \<ge> 12 \<and> bit ppn (i - 12) \<or> i \<in> {0, 4, 7} \<or> fl_has fl PTE_FLAG_A \<and> i = 10
    \<or> fl_has fl PTE_FLAG_W \<and> i \<in> {1, 8} \<or> fl_has fl PTE_FLAG_U \<and> i \<in> {2, 3} \<or> fl_has fl PTE_FLAG_G \<and> i = 6
    \<or> \<not> fl_has fl PTE_FLAG_R \<and> i = 61 \<or> \<not> fl_has fl PTE_FLAG_X \<and> i = 62"
proof -
  have "bit (push_bit 12 (of_nat ppn) :: u64) i \<longleftrightarrow> i \<ge> 12 \<and> bit ppn (i - 12)" using assms by (auto simp: bit_simps)
  then show ?thesis unfolding la_make_pte_def Let_def bit_if_or bit_or_iff la_bit_iff by blast
qed

lemma la_ppn_of_bits:
  fixes b :: u64
  assumes "ppn < 2 ^ 36" and "\<And>i. 12 \<le> i \<Longrightarrow> i < 48 \<Longrightarrow> bit b i \<longleftrightarrow> bit ppn (i - 12)"
  shows "la_pte_ppn b = ppn"
proof -
  have "drop_bit 12 b AND mask 36 = of_nat ppn"
  proof (rule bit_word_eqI)
    fix n assume "n < LENGTH(64)"
    then show "bit (drop_bit 12 b AND mask 36) n = bit (of_nat ppn :: u64) n"
      using assms(2) [of "12 + n"] of_nat_bit_bound [OF assms(1), where ?'a = 64, of n]
      by (auto simp: bit_simps)
  qed
  then show ?thesis
    using unat_of_nat_small [OF assms(1)] by (simp only: la_pte_ppn_def push_1_minus_1)
qed

lemma la_ppn_pte: "ppn < 2 ^ 36 \<Longrightarrow> la_pte_ppn (la_make_pte ppn fl) = ppn"
  by (rule la_ppn_of_bits) (auto simp: la_pte_bit)

lemma la_ppn_dir: "ppn < 2 ^ 36 \<Longrightarrow> la_pte_ppn (la_make_dir_entry ppn) = ppn"
  by (rule la_ppn_of_bits) (auto simp: la_make_dir_entry_def bit_simps)

lemma and_push_1: "i < 64 \<Longrightarrow> (b::u64) AND push_bit i 1 \<noteq> 0 \<longleftrightarrow> bit b i"
  by (simp add: bit_iff_and_push_bit_not_eq_0)

lemma and_plv: "(b::u64) AND push_bit 2 3 \<noteq> 0 \<longleftrightarrow> bit b 2 \<or> bit b 3"
proof
  assume "b AND push_bit 2 3 \<noteq> 0"
  then obtain i where "bit (b AND push_bit 2 3) i" using bit_word_eqI [of "b AND push_bit 2 3" 0] by auto
  then show "bit b 2 \<or> bit b 3" unfolding bit_and_iff bit_plv by blast
next
  assume "bit b 2 \<or> bit b 3"
  then have "bit (b AND push_bit 2 3) 2 \<or> bit (b AND push_bit 2 3) 3" unfolding bit_and_iff bit_plv by blast
  then show "b AND push_bit 2 3 \<noteq> 0" by auto
qed

lemma and_push_0: "i < 64 \<Longrightarrow> ((b::u64) AND push_bit i 1 = 0) = (\<not> bit b i)"
  using and_push_1 by blast

lemma and_plv_0: "((b::u64) AND push_bit 2 3 = 0) = (\<not> (bit b 2 \<or> bit b 3))"
  using and_plv by blast

lemma la_tests:
  "(b AND LA_PTE_V = 0) = (\<not> bit b 0)" "(b AND LA_PTE_D = 0) = (\<not> bit b 1)"
  "(b AND LA_PTE_PLV_USER = 0) = (\<not> (bit b 2 \<or> bit b 3))" "(b AND LA_PTE_G = 0) = (\<not> bit b 6)"
  "(b AND LA_PTE_W = 0) = (\<not> bit b 8)" "(b AND LA_PTE_A = 0) = (\<not> bit b 10)"
  "(b AND LA_PTE_GNX = 0) = (\<not> bit b 62)" "(b AND LA_PTE_GNR = 0) = (\<not> bit b 61)"
  unfolding la_bits by (rule and_plv_0 | rule and_push_0, simp)+

lemma la_flags_has:
  "fl_has (la_pte_flags b) PTE_FLAG_R \<longleftrightarrow> \<not> bit b 61" "fl_has (la_pte_flags b) PTE_FLAG_W \<longleftrightarrow> bit b 8"
  "fl_has (la_pte_flags b) PTE_FLAG_X \<longleftrightarrow> \<not> bit b 62" "fl_has (la_pte_flags b) PTE_FLAG_U \<longleftrightarrow> bit b 2 \<or> bit b 3"
  unfolding la_pte_flags_def Let_def la_tests not_not fl_has_def PTE_FLAG_V_def PTE_FLAG_R_def PTE_FLAG_W_def
    PTE_FLAG_X_def PTE_FLAG_U_def PTE_FLAG_G_def PTE_FLAG_A_def PTE_FLAG_D_def
  by simp_all

interpretation loongarch: paging loongarch
proof (unfold_locales, goal_cases)
  case (3 ppn)
  have "la_make_dir_entry ppn \<noteq> 0"
  proof
    assume "la_make_dir_entry ppn = 0"
    then have "la_pte_ppn 0 = ppn" using la_ppn_dir [of ppn] 3 by (simp add: loongarch_def ppn_bits_def)
    then show False using 3 by (simp add: la_pte_ppn_def)
  qed
  then show ?case using 3 by (simp add: loongarch_def ppn_bits_def la_ppn_dir)
next
  case (4 ppn fl)
  have "bit (la_make_pte ppn fl) 0" by (simp add: la_pte_bit)
  then have "la_make_pte ppn fl \<noteq> 0" by auto
  then show ?case using 4 by (simp add: loongarch_def ppn_bits_def la_ppn_pte)
next
  case (5 ppn fl f)
  have "\<not> bit ppn 49" "\<not> bit ppn 50"
    using 5 of_nat_bit_bound [of ppn 36 49, where ?'a = 64] of_nat_bit_bound [of ppn 36 50, where ?'a = 64]
    by (auto simp: loongarch_def ppn_bits_def bit_simps)
  then show ?case using 5 by (auto simp: loongarch_def la_flags_has la_pte_bit)
next
  case (6 b)
  then show ?case using unat_and_mask_bound [of 36] by (simp add: loongarch_def ppn_bits_def la_pte_ppn_def del: push_bit_of_1)
next
  case (7 vpn l)
  then show ?case using sv39_vpn_index_bound by (simp add: loongarch_def la_vpn_index_def sv39_vpn_index_def)
next
  case (8 vpn vpn')
  then show ?case using sv39_index_inj by (simp add: loongarch_def la_vpn_index_def sv39_vpn_index_def)
qed (simp_all add: loongarch_def)

section \<open>Range flushes and tokens\<close>

lemma flush_pages_eq:
  "f + 4096 * n \<le> usize_max \<Longrightarrow>
    flush_pages f (f + 4096 * n) asid = Some (map (\<lambda>i. FencePage (f + 4096 * i) asid) [0..<Suc n])"
proof (induction n arbitrary: f)
  case 0
  then show ?case by (simp add: flush_pages.simps)
next
  case (Suc n)
  have w: "wrap_add f 4096 = f + 4096" using Suc.prems by (intro wrap_add_exact) simp
  have "flush_pages (f + 4096) (f + 4096 * Suc n) asid = Some (map (\<lambda>i. FencePage (f + 4096 + 4096 * i) asid) [0..<Suc n])"
    using Suc.IH [of "f + 4096"] Suc.prems by (simp add: algebra_simps)
  then have "flush_pages f (f + 4096 * Suc n) asid =
      Some (FencePage f asid # map (\<lambda>i. FencePage (f + 4096 + 4096 * i) asid) [0..<Suc n])"
    by (subst flush_pages.simps) (simp add: w)
  moreover have "[0..<Suc (Suc n)] = 0 # map Suc [0..<Suc n]" by (simp add: map_Suc_upt upt_conv_Cons del: upt_Suc)
  ultimately show ?case by (simp add: comp_def del: upt_Suc)
qed

lemma page_floor: "va - va mod 4096 = 4096 * (va div 4096)" for va :: nat
  by (simp add: minus_mod_eq_mult_div)

lemma sv39_token_root:
  assumes "ppn < 2 ^ 44"
  shows "sv39_root_ppn (sv39_with_address_space_id (sv39_make_token ppn) asid) = ppn"
proof -
  define x :: u64 where "x = push_bit 60 8"
  have x: "\<not> bit x n" if "n < 44" for n using that unfolding x_def bit_push_bit_iff by simp
  have "((x OR of_nat ppn) AND NOT (push_bit 44 (mask 16)) OR push_bit 44 (of_nat asid AND mask 16)) AND mask 44
      = (of_nat ppn :: u64)"
  proof (rule bit_word_eqI)
    fix n assume "n < LENGTH(64)"
    then show "bit (((x OR of_nat ppn) AND NOT (push_bit 44 (mask 16)) OR push_bit 44 (of_nat asid AND mask 16)) AND mask 44) n
        = bit (of_nat ppn :: u64) n"
      using of_nat_bit_bound [OF assms, where ?'a = 64, of n] x [of n] by (auto simp: bit_simps)
  qed
  then show ?thesis
    using unat_of_nat_small [OF assms] unfolding x_def
    by (simp only: sv39_root_ppn_def sv39_with_address_space_id_def sv39_make_token_def SATP_ASID_MASK_def push_1_minus_1)
qed

lemma sv39_token_asid:
  assumes "asid < 2 ^ 16"
  shows "sv39_address_space_id (sv39_with_address_space_id token asid) = asid"
proof -
  have "drop_bit 44 (((token AND NOT (push_bit 44 (mask 16))) OR push_bit 44 (of_nat asid AND mask 16)) AND push_bit 44 (mask 16))
      = (of_nat asid :: u64)"
  proof (rule bit_word_eqI)
    fix n assume "n < LENGTH(64)"
    then show "bit (drop_bit 44 (((token AND NOT (push_bit 44 (mask 16))) OR push_bit 44 (of_nat asid AND mask 16)) AND push_bit 44 (mask 16))) n
        = bit (of_nat asid :: u64) n"
      using of_nat_bit_bound [OF assms, where ?'a = 64, of n] by (auto simp: bit_simps)
  qed
  then show ?thesis
    using unat_of_nat_small [OF assms]
    by (simp only: sv39_address_space_id_def sv39_with_address_space_id_def SATP_ASID_MASK_def push_1_minus_1)
qed

section \<open>Properties\<close>

text \<open>
  C28. A range flush always returns, and the fences it issues cover every address of the range: for each
  address either its page or the whole address space is flushed, under the given address-space id.
\<close>

theorem tlb_range_flush_covers:
  assumes "start < end_va" and "end_va \<le> usize_max"
  shows "\<exists>fs. sv39_flush_tlb_range_asid start end_va asid = Some fs
    \<and> (\<forall>va. start \<le> va \<and> va < end_va \<longrightarrow> FenceAsid asid \<in> set fs \<or> FencePage (va - va mod 4096) asid \<in> set fs)
    \<and> length fs \<le> TLB_RANGE_PAGE_LIMIT"
proof -
  define a where "a = start div 4096"
  define b where "b = (end_va - 1) div 4096"
  have ab: "a \<le> b" unfolding a_def b_def using assms(1) by (intro div_le_mono) simp
  then obtain n where n: "b = a + n" using le_iff_add by blast
  have last: "4096 * a + 4096 * n \<le> usize_max"
  proof -
    have "4096 * b \<le> end_va - 1" unfolding b_def by (rule times_div_less_eq_dividend)
    then show ?thesis using assms(2) unfolding n distrib_left by linarith
  qed
  have eq: "sv39_flush_tlb_range_asid start end_va asid = (if n + 1 > 32 then Some [FenceAsid asid]
      else Some (map (\<lambda>i. FencePage (4096 * a + 4096 * i) asid) [0..<Suc n]))"
  proof -
    have "start div 4096 = a" "(end_va - Suc 0) div 4096 = a + n" using n by (simp_all add: a_def b_def)
    then show ?thesis
      using assms(1) flush_pages_eq [OF last, of asid]
      by (simp add: sv39_flush_tlb_range_asid_def Let_def page_floor sat_sub_def TLB_RANGE_PAGE_LIMIT_def
          distrib_left del: upt_Suc)
  qed
  have "FencePage (va - va mod 4096) asid \<in> set (map (\<lambda>i. FencePage (4096 * a + 4096 * i) asid) [0..<Suc n])"
    if "start \<le> va" "va < end_va" for va
  proof -
    have "a \<le> va div 4096" "va div 4096 \<le> b" unfolding a_def b_def using that by (intro div_le_mono; simp)+
    then obtain i where "va div 4096 = a + i" "i < Suc n" using n le_iff_add by (metis add_le_cancel_left le_imp_less_Suc)
    then show ?thesis by (auto simp: page_floor distrib_left)
  qed
  then show ?thesis unfolding eq by (auto simp: TLB_RANGE_PAGE_LIMIT_def simp del: upt_Suc)
qed

theorem tlb_range_flush_covers_witness:
  "\<exists>fs. sv39_flush_tlb_range_asid 0x1800 0x3001 5 = Some fs \<and> length fs \<le> TLB_RANGE_PAGE_LIMIT"
  using tlb_range_flush_covers [of "0x1800" "0x3001" 5] by (auto simp: usize_max_def)

text \<open>
  The Sv39 token of an address space holds its root page number and its address-space id without
  loss: both are read back from the tagged token.
\<close>

lemma sv39_token_round_trip:
  assumes "ppn < 2 ^ 44" and "asid < 2 ^ 16"
  defines "token \<equiv> sv39_with_address_space_id (sv39_make_token ppn) asid"
  shows "sv39_root_ppn token = ppn \<and> sv39_address_space_id token = asid"
  unfolding token_def using sv39_token_root [OF assms(1)] sv39_token_asid [OF assms(2)] by blast


end
