(* ===== verification/Alloc_Interface.thy ===== *)
theory Alloc_Interface
  imports Kernel_Prelude
begin

text \<open>
  The contract that the kernel's allocators share: process ids and kernel-stack ids
  (\<open>RecycleAllocator\<close>), physical frames (\<open>BuddyFrameAllocator\<close>), EasyFS blocks
  (\<open>Bitmap\<close>) and FAT clusters (\<open>alloc_cluster\<close>) all hand out resources from a pool and take
  them back. The locale states what a provider promises; the client theorem is about any
  sequence of requests and releases made by the holders.
\<close>

text \<open>
  \<open>alloc\<close> answers \<open>None\<close> when the code panics, \<open>Some (None, s)\<close> when the pool is exhausted
  and \<open>Some (Some r, s)\<close> when \<open>r\<close> is granted. \<open>dealloc\<close> answers \<open>None\<close> when the code panics.
\<close>

datatype alloc_event = Acquire | Release nat

fun alloc_run ::
  "('s \<Rightarrow> ('r option \<times> 's) option) \<Rightarrow> ('s \<Rightarrow> 'r \<Rightarrow> 's option)
    \<Rightarrow> 's \<Rightarrow> 'r list \<Rightarrow> alloc_event list \<Rightarrow> ('s \<times> 'r list) option" where
  "alloc_run alloc dealloc s held [] = Some (s, held)"
| "alloc_run alloc dealloc s held (Acquire # es) =
     (case alloc s of
        None \<Rightarrow> None
      | Some (None, s') \<Rightarrow> alloc_run alloc dealloc s' held es
      | Some (Some r, s') \<Rightarrow> alloc_run alloc dealloc s' (r # held) es)"
| "alloc_run alloc dealloc s held (Release i # es) =
     (if i < length held then
        (case dealloc s (held ! i) of
           None \<Rightarrow> None
         | Some s' \<Rightarrow> alloc_run alloc dealloc s' (take i held @ drop (Suc i) held) es)
      else alloc_run alloc dealloc s held es)"

lemma set_take_drop_removed:
  assumes "i < length xs" and "distinct xs"
  shows "set (take i xs @ drop (Suc i) xs) = set xs - {xs ! i}"
    and "distinct (take i xs @ drop (Suc i) xs)"
proof -
  have xs: "xs = take i xs @ xs ! i # drop (Suc i) xs"
    using assms(1) by (simp add: id_take_nth_drop)
  have d: "distinct (take i xs @ xs ! i # drop (Suc i) xs)"
    using assms(2) xs by simp
  have "set xs = insert (xs ! i) (set (take i xs @ drop (Suc i) xs))"
    by (subst xs) simp
  moreover have "xs ! i \<notin> set (take i xs @ drop (Suc i) xs)"
    using d by simp
  ultimately show "set (take i xs @ drop (Suc i) xs) = set xs - {xs ! i}"
    by simp
  show "distinct (take i xs @ drop (Suc i) xs)"
    using d by simp
qed

locale resource_allocator =
  fixes alloc :: "'s \<Rightarrow> ('r option \<times> 's) option"
    and dealloc :: "'s \<Rightarrow> 'r \<Rightarrow> 's option"
    and live :: "'s \<Rightarrow> 'r set"
    and invar :: "'s \<Rightarrow> bool"
  assumes alloc_total: "invar s \<Longrightarrow> \<exists>ro s'. alloc s = Some (ro, s')"
    and alloc_invar: "invar s \<Longrightarrow> alloc s = Some (ro, s') \<Longrightarrow> invar s'"
    and alloc_fresh: "invar s \<Longrightarrow> alloc s = Some (Some r, s') \<Longrightarrow> r \<notin> live s"
    and alloc_live: "invar s \<Longrightarrow> alloc s = Some (Some r, s') \<Longrightarrow> live s' = insert r (live s)"
    and alloc_none_live: "invar s \<Longrightarrow> alloc s = Some (None, s') \<Longrightarrow> live s' = live s"
    and dealloc_total: "invar s \<Longrightarrow> r \<in> live s \<Longrightarrow> \<exists>s'. dealloc s r = Some s'"
    and dealloc_invar: "invar s \<Longrightarrow> r \<in> live s \<Longrightarrow> dealloc s r = Some s' \<Longrightarrow> invar s'"
    and dealloc_live: "invar s \<Longrightarrow> r \<in> live s \<Longrightarrow> dealloc s r = Some s' \<Longrightarrow> live s' = live s - {r}"
begin

text \<open>
  Whatever the order of requests and releases, no call panics, no resource is held twice, and
  the resources that are live but not held here stay exactly those that were so at the start.
\<close>

lemma run_safe:
  assumes "invar s" and "distinct held" and "set held \<subseteq> live s"
  shows "\<exists>s' held'. alloc_run alloc dealloc s held es = Some (s', held') \<and> invar s'
    \<and> distinct held' \<and> set held' \<subseteq> live s' \<and> live s' - set held' = live s - set held"
  using assms
proof (induction es arbitrary: s held)
  case Nil
  then show ?case by simp
next
  case (Cons e es)
  show ?case
  proof (cases e)
    case Acquire
    obtain ro t where at: "alloc s = Some (ro, t)"
      using alloc_total [OF Cons.prems(1)] by blast
    have it: "invar t" using alloc_invar [OF Cons.prems(1) at] .
    show ?thesis
    proof (cases ro)
      case None
      then have "live t = live s" using at alloc_none_live Cons.prems(1) by blast
      then show ?thesis
        using Cons.IH [OF it Cons.prems(2)] Cons.prems(3) Acquire at None by simp
    next
      case (Some r)
      have fresh: "r \<notin> live s" and lt: "live t = insert r (live s)"
        using alloc_fresh alloc_live Cons.prems(1) at Some by blast+
      then have "distinct (r # held)" and "set (r # held) \<subseteq> live t"
        and "live t - set (r # held) = live s - set held"
        using Cons.prems(2,3) by auto
      then show ?thesis
        using Cons.IH [OF it, of "r # held"] Acquire at Some by simp
    qed
  next
    case (Release i)
    show ?thesis
    proof (cases "i < length held")
      case True
      let ?h = "take i held @ drop (Suc i) held"
      have mem: "held ! i \<in> live s" using True Cons.prems(3) nth_mem by blast
      obtain t where dt: "dealloc s (held ! i) = Some t"
        using dealloc_total [OF Cons.prems(1) mem] by blast
      have it: "invar t" and lt: "live t = live s - {held ! i}"
        using dealloc_invar dealloc_live Cons.prems(1) mem dt by blast+
      have h: "set ?h = set held - {held ! i}" "distinct ?h"
        using set_take_drop_removed [OF True Cons.prems(2)] by blast+
      have "set ?h \<subseteq> live t" and "live t - set ?h = live s - set held"
        using h(1) lt Cons.prems(3) True nth_mem [OF True] by auto
      then show ?thesis
        using Cons.IH [OF it h(2)] Release True dt by simp
    next
      case False
      then show ?thesis using Cons.IH [OF Cons.prems] Release by simp
    qed
  qed
qed

end

end
