(* ===== verification/Task_Ids.thy ===== *)
theory Task_Ids
  imports Alloc_Interface
begin

text \<open>
  Process ids, thread ids and kernel-stack ids (\<open>os/src/task/id.rs\<close>): the recycling allocator,
  the pid allocator with its reserved pid 0, and the placement of kernel stacks, user stacks and
  trap contexts that is computed from an id.
\<close>

section \<open>RecycleAllocator\<close>

record recycle_allocator =
  ra_current :: nat
  ra_recycled :: "nat list"
  ra_recycled_flags :: "bool list"

definition ra_new :: recycle_allocator where
  "ra_new = \<lparr>ra_current = 0, ra_recycled = [], ra_recycled_flags = []\<rparr>"

definition ra_alloc :: "recycle_allocator \<Rightarrow> (nat \<times> recycle_allocator) option" where
  "ra_alloc a =
     (if ra_recycled a \<noteq> [] then
        let i = last (ra_recycled a) in
        if i < length (ra_recycled_flags a)
        then Some (i, a\<lparr>ra_recycled := butlast (ra_recycled a),
                         ra_recycled_flags := (ra_recycled_flags a)[i := False]\<rparr>)
        else None
      else Some (ra_current a, a\<lparr>ra_current := ra_current a + 1,
                              ra_recycled_flags := ra_recycled_flags a @ [False]\<rparr>))"

definition ra_dealloc :: "recycle_allocator \<Rightarrow> nat \<Rightarrow> recycle_allocator option" where
  "ra_dealloc a i =
     (if i < ra_current a then
        if i < length (ra_recycled_flags a)
        then Some (a\<lparr>ra_recycled_flags := (ra_recycled_flags a)[i := True],
                     ra_recycled := ra_recycled a @ [i]\<rparr>)
        else None
      else None)"

definition ra_inv :: "recycle_allocator \<Rightarrow> bool" where
  "ra_inv a \<longleftrightarrow> distinct (ra_recycled a) \<and> length (ra_recycled_flags a) = ra_current a
     \<and> (\<forall>i \<in> set (ra_recycled a). i < ra_current a)
     \<and> (\<forall>i < ra_current a. ra_recycled_flags a ! i \<longleftrightarrow> i \<in> set (ra_recycled a))"

definition ra_live :: "recycle_allocator \<Rightarrow> nat set" where
  "ra_live a = {..<ra_current a} - set (ra_recycled a)"

lemma ra_inv_new [inv_intros]: "ra_inv ra_new"
  by (simp add: ra_inv_def ra_new_def)

lemma ra_inv_recycled_bound: "ra_inv a \<Longrightarrow> i \<in> set (ra_recycled a) \<Longrightarrow> i < length (ra_recycled_flags a)"
  by (auto simp: ra_inv_def)

text \<open>The two branches of \<open>alloc\<close>: the most recently freed id first, a new one otherwise.\<close>

lemma ra_alloc_recycled:
  assumes "ra_inv a" and "ra_recycled a \<noteq> []"
  shows "ra_alloc a = Some (last (ra_recycled a),
    a\<lparr>ra_recycled := butlast (ra_recycled a), ra_recycled_flags := (ra_recycled_flags a)[last (ra_recycled a) := False]\<rparr>)"
  using assms ra_inv_recycled_bound [OF assms(1), of "last (ra_recycled a)"]
  by (simp add: ra_alloc_def Let_def)

lemma ra_alloc_grow:
  "ra_recycled a = [] \<Longrightarrow> ra_alloc a = Some (ra_current a,
     a\<lparr>ra_current := ra_current a + 1, ra_recycled_flags := ra_recycled_flags a @ [False]\<rparr>)"
  by (simp add: ra_alloc_def)

lemma ra_alloc_total: "ra_inv a \<Longrightarrow> \<exists>i a'. ra_alloc a = Some (i, a')"
  by (cases "ra_recycled a = []") (auto simp: ra_alloc_recycled ra_alloc_grow)

lemma ra_alloc_fresh:
  assumes "ra_inv a" and "ra_alloc a = Some (i, a')"
  shows "i \<notin> ra_live a"
proof (cases "ra_recycled a = []")
  case True
  then show ?thesis using assms by (auto simp: ra_alloc_grow ra_live_def)
next
  case False
  then show ?thesis using assms by (auto simp: ra_alloc_recycled ra_live_def)
qed

lemma ra_alloc_live:
  assumes "ra_inv a" and "ra_alloc a = Some (i, a')"
  shows "ra_live a' = insert i (ra_live a)"
proof (cases "ra_recycled a = []")
  case True
  then show ?thesis using assms by (auto simp: ra_alloc_grow ra_live_def)
next
  case False
  have b: "last (ra_recycled a) < ra_current a"
    using assms(1) last_in_set [OF False] by (auto simp: ra_inv_def)
  have e: "set (butlast (ra_recycled a)) = set (ra_recycled a) - {last (ra_recycled a)}"
    using set_butlast_distinct [OF False] assms(1) by (simp add: ra_inv_def)
  have "i = last (ra_recycled a)" and "ra_current a' = ra_current a"
    and "ra_recycled a' = butlast (ra_recycled a)"
    using assms(2) ra_alloc_recycled [OF assms(1) False] by auto
  then show ?thesis
    using b e last_in_set [OF False] by (auto simp: ra_live_def)
qed

lemma ra_alloc_inv [inv_intros]:
  assumes "ra_inv a" and "ra_alloc a = Some (i, a')"
  shows "ra_inv a'"
proof (cases "ra_recycled a = []")
  case True
  then show ?thesis
    using assms by (auto simp: ra_alloc_grow ra_inv_def nth_append less_Suc_eq)
next
  case False
  let ?l = "last (ra_recycled a)"
  have e: "set (butlast (ra_recycled a)) = set (ra_recycled a) - {?l}"
    using set_butlast_distinct [OF False] assms(1) by (simp add: ra_inv_def)
  have a': "a' = a\<lparr>ra_recycled := butlast (ra_recycled a),
      ra_recycled_flags := (ra_recycled_flags a)[?l := False]\<rparr>"
    using assms(2) ra_alloc_recycled [OF assms(1) False] by auto
  show ?thesis
    using assms(1) last_in_set [OF False] unfolding ra_inv_def a'
    by (auto simp: e nth_list_update distinct_butlast split: if_splits)
qed

lemma ra_dealloc_some:
  assumes "ra_inv a" and "i \<in> ra_live a"
  shows "ra_dealloc a i = Some (a\<lparr>ra_recycled_flags := (ra_recycled_flags a)[i := True],
                                   ra_recycled := ra_recycled a @ [i]\<rparr>)"
  using assms by (auto simp: ra_dealloc_def ra_inv_def ra_live_def)

lemma ra_dealloc_inv [inv_intros]:
  "ra_inv a \<Longrightarrow> i \<in> ra_live a \<Longrightarrow> ra_dealloc a i = Some a' \<Longrightarrow> ra_inv a'"
  by (auto simp: ra_dealloc_some ra_inv_def ra_live_def nth_list_update split: if_splits)

lemma ra_dealloc_live:
  "ra_inv a \<Longrightarrow> i \<in> ra_live a \<Longrightarrow> ra_dealloc a i = Some a' \<Longrightarrow> ra_live a' = ra_live a - {i}"
  by (auto simp: ra_dealloc_some ra_live_def)

text \<open>The allocator as a provider of the shared contract; it never reports exhaustion.\<close>

definition ra_acquire :: "recycle_allocator \<Rightarrow> (nat option \<times> recycle_allocator) option" where
  "ra_acquire a = map_option (\<lambda>(i, a'). (Some i, a')) (ra_alloc a)"

interpretation ids: resource_allocator ra_acquire ra_dealloc ra_live ra_inv
proof (unfold_locales, goal_cases)
  case (1 s)
  then obtain i a' where "ra_alloc s = Some (i, a')"
    using ra_alloc_total by blast
  then show ?case by (simp add: ra_acquire_def)
next
  case (2 s ro s')
  then show ?case by (auto simp: ra_acquire_def intro: ra_alloc_inv)
next
  case (3 s r s')
  then show ?case by (auto simp: ra_acquire_def dest: ra_alloc_fresh)
next
  case (4 s r s')
  then show ?case by (auto simp: ra_acquire_def dest: ra_alloc_live)
next
  case (5 s s')
  then show ?case by (auto simp: ra_acquire_def)
next
  case (6 s r)
  then show ?case by (simp add: ra_dealloc_some)
next
  case (7 s r s')
  then show ?case by (rule ra_dealloc_inv)
next
  case (8 s r s')
  then show ?case by (rule ra_dealloc_live)
qed

section \<open>Process ids\<close>

text \<open>The global pid allocator burns pid 0 when it is created.\<close>

definition pid_allocator_init :: recycle_allocator where
  "pid_allocator_init = (case ra_alloc ra_new of Some (_, a) \<Rightarrow> a | None \<Rightarrow> ra_new)"

lemma pid_allocator_init_inv [inv_intros]: "ra_inv pid_allocator_init"
  by (auto simp: pid_allocator_init_def ra_alloc_def ra_new_def ra_inv_def)

lemma pid_allocator_init_live: "ra_live pid_allocator_init = {0}"
  by (auto simp: pid_allocator_init_def ra_alloc_def ra_new_def ra_live_def)

section \<open>Properties\<close>

text \<open>
  C1. Process and thread ids: starting from the allocator as it is initialised, for every sequence
  of id requests and handle drops, no call panics, no two handles that are alive at the same time
  carry the same id, and no handle ever carries the reserved id 0.
\<close>

theorem pids_unique_and_nonzero:
  "\<exists>a held. alloc_run ra_acquire ra_dealloc pid_allocator_init [] es = Some (a, held)
     \<and> ra_inv a \<and> distinct held \<and> 0 \<notin> set held \<and> ra_live a = insert 0 (set held)"
proof -
  obtain a held where r: "alloc_run ra_acquire ra_dealloc pid_allocator_init [] es = Some (a, held)"
    "ra_inv a" "distinct held" "set held \<subseteq> ra_live a" "ra_live a - set held = {0}"
    using ids.run_safe [OF pid_allocator_init_inv, of "[]" es] by (auto simp: pid_allocator_init_live)
  then have "0 \<notin> set held" and "ra_live a = insert 0 (set held)" by blast+
  then show ?thesis using r by blast
qed

end
