(* ===== verification/Deferred_Recycle.thy ===== *)
theory Deferred_Recycle
  imports Kernel_Prelude
begin

text \<open>
  Deferred recycling of kernel virtual ranges (\<open>os/src/mm/tlb_shootdown.rs\<close>): the ranges that
  were unmapped but whose TLB shootdown is still to come, with the frames and kernel-stack ids
  that may only be reused after it.
\<close>

record va_range =
  va_start :: nat
  va_end :: nat

text \<open>A \<open>FrameTracker\<close> is represented by its physical page number.\<close>

record deferred_state =
  deferred_va_ranges :: "va_range list"
  deferred_va_range_count :: nat
  deferred_frames :: "nat list"
  deferred_kstack_ids :: "nat list"

definition deferred_new :: deferred_state where
  "deferred_new = \<lparr>deferred_va_ranges = [], deferred_va_range_count = 0,
     deferred_frames = [], deferred_kstack_ids = []\<rparr>"

definition ranges_overlap :: "va_range \<Rightarrow> va_range \<Rightarrow> bool" where
  "ranges_overlap lhs rhs \<longleftrightarrow> va_start lhs < va_end rhs \<and> va_start rhs < va_end lhs"

text \<open>
  The \<open>while\<close> loop of \<open>mark_va_range_deferred\<close>. The vector is split at the index: \<open>pre\<close> holds the
  elements before it, so \<open>remove(idx)\<close> drops the head of the rest and \<open>insert(idx, range)\<close> puts
  the range between the two parts.
\<close>

fun mark_loop :: "va_range \<Rightarrow> va_range list \<Rightarrow> va_range list \<Rightarrow> nat \<Rightarrow> va_range list \<times> nat" where
  "mark_loop rg pre [] cnt = (pre @ [rg], cnt)"
| "mark_loop rg pre (cur # rest) cnt =
     (if va_end cur < va_start rg then mark_loop rg (pre @ [cur]) rest cnt
      else if va_end rg < va_start cur then (pre @ rg # cur # rest, cnt)
      else if ranges_overlap cur rg \<or> va_end cur = va_start rg \<or> va_end rg = va_start cur
      then mark_loop (rg\<lparr>va_start := min (va_start rg) (va_start cur),
                            va_end := max (va_end rg) (va_end cur)\<rparr>) pre rest (sat_sub cnt 1)
      else mark_loop rg (pre @ [cur]) rest cnt)"

definition mark_va_range_deferred ::
  "deferred_state \<Rightarrow> va_range \<Rightarrow> nat list \<Rightarrow> nat option \<Rightarrow> deferred_state" where
  "mark_va_range_deferred st rg frames kstack_id =
     (if va_start rg \<ge> va_end rg then st
      else let (ranges, cnt) = mark_loop rg [] (deferred_va_ranges st) (deferred_va_range_count st)
           in st\<lparr>deferred_va_ranges := ranges, deferred_va_range_count := cnt + 1,
                 deferred_frames := deferred_frames st @ frames,
                 deferred_kstack_ids := deferred_kstack_ids st
                   @ (case kstack_id of Some i \<Rightarrow> [i] | None \<Rightarrow> [])\<rparr>)"

definition va_range_requires_flush :: "deferred_state \<Rightarrow> va_range \<Rightarrow> bool" where
  "va_range_requires_flush st rg \<longleftrightarrow>
     (if va_start rg \<ge> va_end rg then False
      else list_ex (\<lambda>cur. ranges_overlap cur rg) (deferred_va_ranges st))"

text \<open>\<open>take_all\<close> returns the batch and leaves the empty state.\<close>

definition take_all :: "deferred_state \<Rightarrow> deferred_state \<times> deferred_state" where
  "take_all st = (st, deferred_new)"

section \<open>Normal form and coverage\<close>

definition range_addrs :: "va_range \<Rightarrow> nat set" where
  "range_addrs r = {va_start r..<va_end r}"

definition covered :: "va_range list \<Rightarrow> nat set" where
  "covered rs = (\<Union>r\<in>set rs. range_addrs r)"

text \<open>Ranges are non-empty, sorted, and separated by at least one address.\<close>

definition gap_sorted :: "va_range list \<Rightarrow> bool" where
  "gap_sorted rs \<longleftrightarrow> sorted_wrt (\<lambda>a b. va_end a < va_start b) rs \<and> (\<forall>r\<in>set rs. va_start r < va_end r)"

definition deferred_inv :: "deferred_state \<Rightarrow> bool" where
  "deferred_inv st \<longleftrightarrow> gap_sorted (deferred_va_ranges st)
     \<and> deferred_va_range_count st = length (deferred_va_ranges st)"

lemma covered_simps [simp]:
  "covered [] = {}" "covered (r # rs) = range_addrs r \<union> covered rs"
  "covered (rs @ qs) = covered rs \<union> covered qs"
  by (auto simp: covered_def)

lemma gap_sorted_append:
  "gap_sorted (xs @ ys) \<longleftrightarrow> gap_sorted xs \<and> gap_sorted ys
     \<and> (\<forall>x\<in>set xs. \<forall>y\<in>set ys. va_end x < va_start y)"
  by (auto simp: gap_sorted_def sorted_wrt_append)

lemma gap_sorted_Cons:
  "gap_sorted (y # ys) \<longleftrightarrow> va_start y < va_end y \<and> gap_sorted ys
     \<and> (\<forall>z\<in>set ys. va_end y < va_start z)"
  by (auto simp: gap_sorted_def)

lemma merged_range_addrs:
  assumes "va_start r < va_end r" and "va_start c < va_end c"
    and "\<not> va_end c < va_start r" and "\<not> va_end r < va_start c"
  shows "range_addrs (r\<lparr>va_start := min (va_start r) (va_start c), va_end := max (va_end r) (va_end c)\<rparr>)
    = range_addrs r \<union> range_addrs c"
  using assms by (auto simp: range_addrs_def)

lemma mark_loop_correct:
  assumes "va_start r < va_end r" and "gap_sorted (pre @ rest)"
    and "\<forall>p\<in>set pre. va_end p < va_start r" and "cnt = length (pre @ rest)"
  shows "gap_sorted (fst (mark_loop r pre rest cnt))
    \<and> covered (fst (mark_loop r pre rest cnt)) = covered pre \<union> range_addrs r \<union> covered rest
    \<and> length (fst (mark_loop r pre rest cnt)) = snd (mark_loop r pre rest cnt) + 1"
  using assms
proof (induction r pre rest cnt rule: mark_loop.induct)
  case (1 r pre cnt)
  then show ?case by (auto simp: gap_sorted_def sorted_wrt_append)
next
  case (2 r pre cur rest cnt)
  have cur: "va_start cur < va_end cur" using "2.prems"(2) by (simp add: gap_sorted_append gap_sorted_Cons)
  consider (before) "va_end cur < va_start r"
    | (after) "\<not> va_end cur < va_start r" "va_end r < va_start cur"
    | (touch) "\<not> va_end cur < va_start r" "\<not> va_end r < va_start cur" by blast
  then show ?case
  proof cases
    case before
    have "gap_sorted ((pre @ [cur]) @ rest)" using "2.prems"(2) by simp
    moreover have "\<forall>p\<in>set (pre @ [cur]). va_end p < va_start r" using "2.prems"(3) before by simp
    moreover have "cnt = length ((pre @ [cur]) @ rest)" using "2.prems"(4) by simp
    ultimately show ?thesis using "2.IH"(1) [OF before "2.prems"(1)] before by auto
  next
    case after
    have "gap_sorted (pre @ r # cur # rest)"
      using "2.prems"(1-3) after by (auto simp: gap_sorted_append gap_sorted_Cons)
    then show ?thesis using after "2.prems"(4) by auto
  next
    case touch
    let ?m = "r\<lparr>va_start := min (va_start r) (va_start cur), va_end := max (va_end r) (va_end cur)\<rparr>"
    have cond: "ranges_overlap cur r \<or> va_end cur = va_start r \<or> va_end r = va_start cur"
      using touch by (auto simp: ranges_overlap_def)
    have "va_start ?m < va_end ?m" using cur by simp
    moreover have "gap_sorted (pre @ rest)" using "2.prems"(2) by (simp add: gap_sorted_append gap_sorted_Cons)
    moreover have "\<forall>p\<in>set pre. va_end p < va_start ?m"
      using "2.prems"(2,3) by (auto simp: gap_sorted_append)
    moreover have "sat_sub cnt 1 = length (pre @ rest)" using "2.prems"(4) by (simp add: sat_sub_def)
    ultimately have IH: "gap_sorted (fst (mark_loop ?m pre rest (sat_sub cnt 1)))
      \<and> covered (fst (mark_loop ?m pre rest (sat_sub cnt 1))) = covered pre \<union> range_addrs ?m \<union> covered rest
      \<and> length (fst (mark_loop ?m pre rest (sat_sub cnt 1))) = snd (mark_loop ?m pre rest (sat_sub cnt 1)) + 1"
      using "2.IH"(2) [OF touch cond] by blast
    have "mark_loop r pre (cur # rest) cnt = mark_loop ?m pre rest (sat_sub cnt 1)"
      using touch cond by simp
    then show ?thesis
      using IH merged_range_addrs [OF "2.prems"(1) cur touch] by auto
  qed
qed

lemma deferred_new_inv [inv_intros]: "deferred_inv deferred_new"
  by (simp add: deferred_inv_def deferred_new_def gap_sorted_def)

lemma mark_preserves [inv_intros]:
  assumes "deferred_inv st"
  shows "deferred_inv (mark_va_range_deferred st r fs k)"
  using assms mark_loop_correct [of r "[]" "deferred_va_ranges st" "deferred_va_range_count st"]
  by (auto simp: mark_va_range_deferred_def deferred_inv_def split: prod.splits)

lemma mark_covered:
  assumes "deferred_inv st"
  shows "covered (deferred_va_ranges (mark_va_range_deferred st r fs k))
    = covered (deferred_va_ranges st) \<union> range_addrs r"
  using assms mark_loop_correct [of r "[]" "deferred_va_ranges st" "deferred_va_range_count st"]
  by (auto simp: mark_va_range_deferred_def deferred_inv_def range_addrs_def split: prod.splits)

lemma overlap_iff_inter:
  assumes "va_start a < va_end a" and "va_start b < va_end b"
  shows "ranges_overlap a b \<longleftrightarrow> range_addrs a \<inter> range_addrs b \<noteq> {}"
proof
  assume "ranges_overlap a b"
  then have "max (va_start a) (va_start b) \<in> range_addrs a \<inter> range_addrs b"
    using assms by (auto simp: ranges_overlap_def range_addrs_def)
  then show "range_addrs a \<inter> range_addrs b \<noteq> {}" by blast
next
  assume "range_addrs a \<inter> range_addrs b \<noteq> {}"
  then show "ranges_overlap a b" by (auto simp: ranges_overlap_def range_addrs_def)
qed

lemma requires_flush_iff:
  assumes "deferred_inv st"
  shows "va_range_requires_flush st r \<longleftrightarrow> range_addrs r \<inter> covered (deferred_va_ranges st) \<noteq> {}"
proof (cases "va_start r < va_end r")
  case True
  have "va_range_requires_flush st r
    \<longleftrightarrow> (\<exists>c\<in>set (deferred_va_ranges st). range_addrs c \<inter> range_addrs r \<noteq> {})"
    using assms True overlap_iff_inter
    by (auto simp: va_range_requires_flush_def list_ex_iff deferred_inv_def gap_sorted_def)
  also have "\<dots> \<longleftrightarrow> range_addrs r \<inter> covered (deferred_va_ranges st) \<noteq> {}"
    by (auto simp: covered_def)
  finally show ?thesis .
next
  case False
  then show ?thesis by (simp add: va_range_requires_flush_def range_addrs_def)
qed

section \<open>Properties\<close>

text \<open>The state after a sequence of \<open>defer_release(start, end, kstack_id, frames)\<close> calls.\<close>

definition defer_release :: "nat \<Rightarrow> nat \<Rightarrow> nat option \<Rightarrow> nat list \<Rightarrow> deferred_state \<Rightarrow> deferred_state" where
  "defer_release s e k fs st = mark_va_range_deferred st \<lparr>va_start = s, va_end = e\<rparr> fs k"

definition needs_flush :: "nat \<Rightarrow> nat \<Rightarrow> deferred_state \<Rightarrow> bool" where
  "needs_flush s e st = va_range_requires_flush st \<lparr>va_start = s, va_end = e\<rparr>"

lemma defer_release_fold:
  assumes "deferred_inv st"
  shows "deferred_inv (foldl (\<lambda>st (s, e, k, fs). defer_release s e k fs st) st rs)
    \<and> covered (deferred_va_ranges (foldl (\<lambda>st (s, e, k, fs). defer_release s e k fs st) st rs))
        = covered (deferred_va_ranges st) \<union> (\<Union>(s, e, k, fs)\<in>set rs. {s..<e})"
  using assms
proof (induction rs arbitrary: st)
  case (Cons r rs)
  obtain s e k fs where r: "r = (s, e, k, fs)" by (cases r)
  have "deferred_inv (defer_release s e k fs st)"
    unfolding defer_release_def by (rule mark_preserves [OF Cons.prems])
  moreover have "covered (deferred_va_ranges (defer_release s e k fs st))
    = covered (deferred_va_ranges st) \<union> {s..<e}"
    unfolding defer_release_def by (simp add: mark_covered [OF Cons.prems] range_addrs_def)
  ultimately show ?case using Cons.IH by (simp add: r Un_assoc)
qed simp

text \<open>
  C2. Deferred kernel ranges: after any sequence of \<open>defer_release\<close> calls the recorded ranges are
  non-empty, sorted and pairwise separated (touching ranges have been merged), the cached count is
  their number, and a range must be flushed before reuse exactly when it contains an address of
  one of the released ranges.
\<close>

theorem deferred_ranges_exact:
  "let st = foldl (\<lambda>st (s, e, k, fs). defer_release s e k fs st) deferred_new rs in
     gap_sorted (deferred_va_ranges st)
     \<and> deferred_va_range_count st = length (deferred_va_ranges st)
     \<and> (needs_flush qs qe st \<longleftrightarrow> (\<exists>(s, e, k, fs)\<in>set rs. {qs..<qe} \<inter> {s..<e} \<noteq> {}))"
proof -
  let ?st = "foldl (\<lambda>st (s, e, k, fs). defer_release s e k fs st) deferred_new rs"
  have inv: "deferred_inv ?st" and cov: "covered (deferred_va_ranges ?st) = (\<Union>(s, e, k, fs)\<in>set rs. {s..<e})"
    using defer_release_fold [OF deferred_new_inv, of rs] by (auto simp: deferred_new_def)
  have "needs_flush qs qe ?st \<longleftrightarrow> {qs..<qe} \<inter> (\<Union>(s, e, k, fs)\<in>set rs. {s..<e}) \<noteq> {}"
    unfolding needs_flush_def requires_flush_iff [OF inv] cov by (simp add: range_addrs_def)
  also have "\<dots> \<longleftrightarrow> (\<exists>(s, e, k, fs)\<in>set rs. {qs..<qe} \<inter> {s..<e} \<noteq> {})"
    by (simp add: Int_UN_distrib case_prod_unfold)
  finally show ?thesis using inv by (simp add: deferred_inv_def Let_def)
qed

end
