(* ===== verification/Kernel_Stacks.thy ===== *)
theory Kernel_Stacks
  imports Task_Ids Deferred_Recycle
begin

text \<open>
  Kernel stacks (\<open>os/src/task/id.rs\<close>): their placement in the kernel half of the address space,
  the bounded cache of mapped stacks, and the path on which a dropped stack waits for a TLB
  shootdown (\<open>os/src/mm/tlb_shootdown.rs\<close>) before its id is handed out again. The kernel address
  space is an argument of the operations: \<open>insert_area\<close> stands for
  \<open>MemorySet::insert_framed_area\<close> and \<open>remove_vma\<close> for
  \<open>MemorySet::remove_vma_with_start_vpn_deferred\<close>, on an address space of any type.
\<close>

datatype mm_error = OutOfMemory | InvalidRange | Conflict | AddressUnavailable
  | NoMapping | PermissionDenied | BeyondFileEnd | InvalidElf

definition PAGE_SIZE :: nat where "PAGE_SIZE = 4096"
definition KERNEL_STACK_SIZE :: nat where "KERNEL_STACK_SIZE = 4096 * 32"
definition USER_STACK_SIZE :: nat where "USER_STACK_SIZE = 1024 * 8192"
definition TRAMPOLINE :: u64 where "TRAMPOLINE = (- 1) - 0x1000 + 1"
definition TRAP_CONTEXT_BASE :: u64 where "TRAP_CONTEXT_BASE = push_bit 38 1 - 2 * 4096"

definition KSTACK_DEFERRED_RECYCLE_WATERMARK :: nat where "KSTACK_DEFERRED_RECYCLE_WATERMARK = 64"
definition DEFERRED_FRAME_RECYCLE_WATERMARK :: nat where
  "DEFERRED_FRAME_RECYCLE_WATERMARK = 16 * 1024 * 1024 div PAGE_SIZE"
definition KSTACK_CACHE_LIMIT :: nat where "KSTACK_CACHE_LIMIT = 64"

lemmas stack_consts = PAGE_SIZE_def KERNEL_STACK_SIZE_def USER_STACK_SIZE_def TRAMPOLINE_def
  TRAP_CONTEXT_BASE_def

section \<open>Placement\<close>

definition kernel_stack_position :: "u64 \<Rightarrow> u64 \<times> u64" where
  "kernel_stack_position kstack_id =
     (let tp = TRAMPOLINE - kstack_id * (of_nat KERNEL_STACK_SIZE + of_nat PAGE_SIZE);
          bottom = tp - of_nat KERNEL_STACK_SIZE
      in (bottom, tp))"

definition trap_cx_bottom_from_tid :: "u64 \<Rightarrow> u64" where
  "trap_cx_bottom_from_tid tid = TRAP_CONTEXT_BASE - tid * of_nat PAGE_SIZE"

definition ustack_bottom_from_tid :: "u64 \<Rightarrow> u64 \<Rightarrow> u64" where
  "ustack_bottom_from_tid ustack_base tid = ustack_base + tid * (of_nat PAGE_SIZE + of_nat USER_STACK_SIZE)"

section \<open>The stack pool\<close>

record 'k kstack_pool =
  ks_alloc :: recycle_allocator
  ks_cache :: "nat list"
  ks_deferred :: deferred_state
  ks_space :: 'k

definition recycle_deferred_kstack_ids :: "recycle_allocator \<Rightarrow> nat list \<Rightarrow> recycle_allocator option" where
  "recycle_deferred_kstack_ids a ids = foldl (\<lambda>ao i. Option.bind ao (\<lambda>a. ra_dealloc a i)) (Some a) ids"

text \<open>
  \<open>flush_deferred\<close>: an empty batch returns early. The shootdown itself changes no state of
  the pool; the frames of the batch are dropped with it.
\<close>

definition flush_deferred :: "'k kstack_pool \<Rightarrow> 'k kstack_pool option" where
  "flush_deferred s =
     (let (batch, st) = take_all (ks_deferred s) in
      if deferred_va_ranges batch = [] \<and> deferred_frames batch = [] \<and> deferred_kstack_ids batch = []
      then Some (s\<lparr>ks_deferred := st\<rparr>)
      else map_option (\<lambda>a. s\<lparr>ks_deferred := st, ks_alloc := a\<rparr>)
             (recycle_deferred_kstack_ids (ks_alloc s) (deferred_kstack_ids batch)))"

definition try_cache_kstack :: "'k kstack_pool \<Rightarrow> nat \<Rightarrow> bool \<times> 'k kstack_pool" where
  "try_cache_kstack s i =
     (if length (ks_cache s) \<ge> KSTACK_CACHE_LIMIT then (False, s)
      else (True, s\<lparr>ks_cache := ks_cache s @ [i]\<rparr>))"

definition try_take_cached_kstack :: "'k kstack_pool \<Rightarrow> nat option \<times> 'k kstack_pool" where
  "try_take_cached_kstack s =
     (if ks_cache s = [] then (None, s)
      else (Some (last (ks_cache s)), s\<lparr>ks_cache := butlast (ks_cache s)\<rparr>))"

text \<open>
  \<open>kstack_alloc\<close>: \<open>None\<close> is a panic, an error of the mapping is returned as the code returns it
  (the state then keeps what was changed before the early return).
\<close>

definition kstack_alloc ::
  "('k \<Rightarrow> u64 \<Rightarrow> u64 \<Rightarrow> (mm_error + unit) \<times> 'k) \<Rightarrow> 'k kstack_pool
    \<Rightarrow> ((mm_error + nat) \<times> 'k kstack_pool) option" where
  "kstack_alloc insert_area s =
     Option.bind
       (if length (deferred_kstack_ids (ks_deferred s)) > KSTACK_DEFERRED_RECYCLE_WATERMARK
          \<or> length (deferred_frames (ks_deferred s)) > DEFERRED_FRAME_RECYCLE_WATERMARK
        then flush_deferred s else Some s)
       (\<lambda>s. case try_take_cached_kstack s of
          (Some i, s) \<Rightarrow> Some (Ok i, s)
        | (None, s) \<Rightarrow>
          Option.bind (ra_alloc (ks_alloc s))
            (\<lambda>(i, a). let s = s\<lparr>ks_alloc := a\<rparr>;
                          (bottom, tp) = kernel_stack_position (of_nat i);
                          (r, k) = insert_area (ks_space s) bottom tp;
                          s = s\<lparr>ks_space := k\<rparr>
                      in case r of Err e \<Rightarrow> Some (Err e, s) | Ok _ \<Rightarrow> Some (Ok i, s)))"

text \<open>The unmapping part shared by \<open>Drop for KernelStack\<close> and \<open>reclaim_cached_kstacks\<close>.\<close>

definition release_kstack_mapping ::
  "('k \<Rightarrow> u64 \<Rightarrow> nat list \<times> 'k) \<Rightarrow> 'k kstack_pool \<Rightarrow> nat \<Rightarrow> 'k kstack_pool" where
  "release_kstack_mapping remove_vma s i =
     (let (bottom, _) = kernel_stack_position (of_nat i);
          (frames, k) = remove_vma (ks_space s) bottom
      in s\<lparr>ks_space := k,
           ks_deferred := mark_va_range_deferred (ks_deferred s)
             \<lparr>va_start = unat bottom, va_end = unat (bottom + of_nat KERNEL_STACK_SIZE)\<rparr> frames (Some i)\<rparr>)"

definition drop_kernel_stack ::
  "('k \<Rightarrow> u64 \<Rightarrow> nat list \<times> 'k) \<Rightarrow> 'k kstack_pool \<Rightarrow> nat \<Rightarrow> 'k kstack_pool" where
  "drop_kernel_stack remove_vma s i =
     (case try_cache_kstack s i of
        (True, s) \<Rightarrow> s
      | (False, s) \<Rightarrow> release_kstack_mapping remove_vma s i)"

text \<open>The \<open>while cache.len() > target\<close> loop of \<open>reclaim_cached_kstacks\<close>.\<close>

function pop_cached :: "nat \<Rightarrow> nat list \<Rightarrow> nat list \<Rightarrow> nat list \<times> nat list" where
  "pop_cached target cache acc =
     (if length cache > target then pop_cached target (butlast cache) (acc @ [last cache])
      else (cache, acc))"
  by pat_completeness auto
termination by (relation "measure (\<lambda>(t, c, a). length c)") auto

declare pop_cached.simps [simp del]

definition reclaim_cached_kstacks ::
  "('k \<Rightarrow> u64 \<Rightarrow> nat list \<times> 'k) \<Rightarrow> 'k kstack_pool \<Rightarrow> nat \<Rightarrow> (nat \<times> 'k kstack_pool) option" where
  "reclaim_cached_kstacks remove_vma s target =
     (let (cache, ids) = pop_cached target (ks_cache s) [];
          s = foldl (release_kstack_mapping remove_vma) (s\<lparr>ks_cache := cache\<rparr>) ids
      in if length ids \<noteq> 0 then map_option (\<lambda>s. (length ids, s)) (flush_deferred s)
         else Some (0, s))"

section \<open>Placement is disjoint\<close>

text \<open>Ids below this bound are placed without wrapping around the 64-bit address space.\<close>

definition kstack_id_fits :: "u64 \<Rightarrow> bool" where
  "kstack_id_fits i \<longleftrightarrow> unat i * (KERNEL_STACK_SIZE + PAGE_SIZE) + KERNEL_STACK_SIZE + PAGE_SIZE \<le> unat TRAMPOLINE"

lemma unat_TRAMPOLINE [simp]: "unat TRAMPOLINE = 2 ^ 64 - 4096"
  by (simp add: TRAMPOLINE_def)

lemma kernel_stack_position_unat:
  assumes "kstack_id_fits i" and "kernel_stack_position i = (bottom, tp)"
  shows "unat tp = unat TRAMPOLINE - unat i * (KERNEL_STACK_SIZE + PAGE_SIZE)"
    and "unat bottom = unat tp - KERNEL_STACK_SIZE"
    and "KERNEL_STACK_SIZE + PAGE_SIZE \<le> unat tp"
proof -
  let ?w = "of_nat KERNEL_STACK_SIZE + of_nat PAGE_SIZE :: u64"
  have w: "unat ?w = KERNEL_STACK_SIZE + PAGE_SIZE" by (simp add: stack_consts)
  have "unat i * unat ?w < 2 ^ LENGTH(64)"
    using assms(1) by (simp add: kstack_id_fits_def w)
  then have m: "unat (i * ?w) = unat i * (KERNEL_STACK_SIZE + PAGE_SIZE)"
    using unat_mult_lem [of i ?w] by (simp add: w)
  have t: "tp = TRAMPOLINE - i * ?w" and b: "bottom = tp - of_nat KERNEL_STACK_SIZE"
    using assms(2) by (auto simp: kernel_stack_position_def Let_def)
  have le: "i * ?w \<le> TRAMPOLINE"
    using assms(1) m by (simp add: word_le_nat_alt kstack_id_fits_def)
  show ut: "unat tp = unat TRAMPOLINE - unat i * (KERNEL_STACK_SIZE + PAGE_SIZE)"
    by (simp only: t unat_sub [OF le] m)
  show big: "KERNEL_STACK_SIZE + PAGE_SIZE \<le> unat tp"
    using assms(1) by (simp add: ut kstack_id_fits_def)
  have uk: "unat (of_nat KERNEL_STACK_SIZE :: u64) = KERNEL_STACK_SIZE" by (simp add: stack_consts)
  then have "of_nat KERNEL_STACK_SIZE \<le> tp" using big by (simp add: word_le_nat_alt)
  then show "unat bottom = unat tp - KERNEL_STACK_SIZE"
    by (simp add: b unat_sub uk)
qed

lemma lower_kstack_below:
  assumes "kstack_id_fits i" and "kstack_id_fits j" and "i < j"
    and "kernel_stack_position i = (bi, ti)" and "kernel_stack_position j = (bj, tj)"
  shows "unat tj + PAGE_SIZE \<le> unat bi"
proof -
  let ?c = "KERNEL_STACK_SIZE + PAGE_SIZE"
  have "unat i + 1 \<le> unat j" using assms(3) by (simp add: word_less_nat_alt)
  then have "(unat i + 1) * ?c \<le> unat j * ?c" by (rule mult_le_mono1)
  then have "unat i * ?c + ?c \<le> unat j * ?c" by simp
  then show ?thesis
    using kernel_stack_position_unat [OF assms(1,4)] kernel_stack_position_unat [OF assms(2,5)]
      assms(2) unfolding kstack_id_fits_def by linarith
qed

section \<open>Runs of the pool\<close>

text \<open>
  The kernel's use of the pool: a task takes a stack, a holder drops one (by position among the
  stacks held), memory pressure reclaims cached stacks, and a flush commits the deferred batch.
\<close>

datatype kstack_event = KAlloc | KDrop nat | KReclaim nat | KFlush

fun kstack_step ::
  "('k \<Rightarrow> u64 \<Rightarrow> u64 \<Rightarrow> (mm_error + unit) \<times> 'k) \<Rightarrow> ('k \<Rightarrow> u64 \<Rightarrow> nat list \<times> 'k)
    \<Rightarrow> 'k kstack_pool \<times> nat list \<Rightarrow> kstack_event \<Rightarrow> ('k kstack_pool \<times> nat list) option" where
  "kstack_step ins rem (s, held) KAlloc =
     (case kstack_alloc ins s of
        None \<Rightarrow> None | Some (Err e, s') \<Rightarrow> Some (s', held) | Some (Ok i, s') \<Rightarrow> Some (s', i # held))"
| "kstack_step ins rem (s, held) (KDrop n) =
     (if n < length held
      then Some (drop_kernel_stack rem s (held ! n), take n held @ drop (Suc n) held)
      else Some (s, held))"
| "kstack_step ins rem (s, held) (KReclaim t) =
     map_option (\<lambda>(_, s'). (s', held)) (reclaim_cached_kstacks rem s t)"
| "kstack_step ins rem (s, held) KFlush = map_option (\<lambda>s'. (s', held)) (flush_deferred s)"

fun kstack_run ::
  "('k \<Rightarrow> u64 \<Rightarrow> u64 \<Rightarrow> (mm_error + unit) \<times> 'k) \<Rightarrow> ('k \<Rightarrow> u64 \<Rightarrow> nat list \<times> 'k)
    \<Rightarrow> 'k kstack_pool \<times> nat list \<Rightarrow> kstack_event list \<Rightarrow> ('k kstack_pool \<times> nat list) option" where
  "kstack_run ins rem c [] = Some c"
| "kstack_run ins rem c (e # es) =
     (case kstack_step ins rem c e of None \<Rightarrow> None | Some c' \<Rightarrow> kstack_run ins rem c' es)"

definition kstack_pool_init :: "'k \<Rightarrow> 'k kstack_pool" where
  "kstack_pool_init k = \<lparr>ks_alloc = ra_new, ks_cache = [], ks_deferred = deferred_new, ks_space = k\<rparr>"

text \<open>
  A stack id is in at most one of three places: in the hands of a task, in the cache, or waiting
  for the flush; and in each of them it is marked allocated.
\<close>

definition kstack_inv :: "'k kstack_pool \<Rightarrow> nat list \<Rightarrow> bool" where
  "kstack_inv s held \<longleftrightarrow> ra_inv (ks_alloc s)
     \<and> distinct (held @ ks_cache s @ deferred_kstack_ids (ks_deferred s))
     \<and> set (held @ ks_cache s @ deferred_kstack_ids (ks_deferred s)) \<subseteq> ra_live (ks_alloc s)
     \<and> length (ks_cache s) \<le> KSTACK_CACHE_LIMIT \<and> deferred_inv (ks_deferred s)"

lemma kstack_inv_ra: "kstack_inv s held \<Longrightarrow> ra_inv (ks_alloc s)"
  by (simp add: kstack_inv_def)

lemma kstack_inv_perm:
  "kstack_inv s held \<Longrightarrow> set held' = set held \<Longrightarrow> distinct held' \<Longrightarrow> kstack_inv s held'"
  by (simp add: kstack_inv_def)

lemma recycle_ids_correct:
  assumes "ra_inv a" and "distinct ids" and "set ids \<subseteq> ra_live a"
  shows "\<exists>a'. recycle_deferred_kstack_ids a ids = Some a' \<and> ra_inv a' \<and> ra_live a' = ra_live a - set ids"
  using assms unfolding recycle_deferred_kstack_ids_def
proof (induction ids arbitrary: a)
  case (Cons i ids)
  obtain b where b: "ra_dealloc a i = Some b" "ra_inv b" "ra_live b = ra_live a - {i}"
    using ids.dealloc_total [of a i] ids.dealloc_invar [of a i] ids.dealloc_live [of a i] Cons.prems
    by (metis insert_subset list.simps(15))
  have "set ids \<subseteq> ra_live b" using b(3) Cons.prems(2,3) by auto
  then show ?case using Cons.IH [OF b(2)] Cons.prems(2) b by auto
qed simp

lemma flush_keeps [inv_intros]:
  assumes "kstack_inv s held"
  shows "\<exists>s'. flush_deferred s = Some s' \<and> kstack_inv s' held \<and> ks_cache s' = ks_cache s
    \<and> deferred_kstack_ids (ks_deferred s') = []"
proof -
  obtain a where a: "recycle_deferred_kstack_ids (ks_alloc s) (deferred_kstack_ids (ks_deferred s)) = Some a"
    "ra_inv a" "ra_live a = ra_live (ks_alloc s) - set (deferred_kstack_ids (ks_deferred s))"
    using recycle_ids_correct [of "ks_alloc s" "deferred_kstack_ids (ks_deferred s)"] assms
    by (auto simp: kstack_inv_def)
  then show ?thesis
    using assms deferred_new_inv
    by (auto simp: flush_deferred_def take_all_def kstack_inv_def deferred_new_def)
qed

lemma kstack_alloc_cached:
  assumes "kstack_inv t held" and "ks_cache t \<noteq> []"
  shows "kstack_inv (t\<lparr>ks_cache := butlast (ks_cache t)\<rparr>) (last (ks_cache t) # held)"
proof -
  have e: "set (butlast (ks_cache t)) = set (ks_cache t) - {last (ks_cache t)}"
    using set_butlast_distinct [OF assms(2)] assms(1) by (simp add: kstack_inv_def)
  show ?thesis
    using assms(1) last_in_set [OF assms(2)] unfolding kstack_inv_def
    by (auto simp: e distinct_butlast)
qed

lemma kstack_alloc_new:
  assumes "kstack_inv t held" and "ra_alloc (ks_alloc t) = Some (i, a)"
  shows "kstack_inv (t\<lparr>ks_alloc := a, ks_space := k\<rparr>) held"
    and "kstack_inv (t\<lparr>ks_alloc := a, ks_space := k\<rparr>) (i # held)"
  using assms ra_alloc_inv [OF _ assms(2)] ra_alloc_live [OF _ assms(2)] ra_alloc_fresh [OF _ assms(2)]
  by (auto simp: kstack_inv_def)

lemma kstack_alloc_keeps:
  assumes "kstack_inv s held"
  shows "\<exists>r s'. kstack_alloc ins s = Some (r, s')
    \<and> kstack_inv s' (case r of Err _ \<Rightarrow> held | Ok i \<Rightarrow> i # held)"
proof -
  let ?first = "if length (deferred_kstack_ids (ks_deferred s)) > KSTACK_DEFERRED_RECYCLE_WATERMARK
      \<or> length (deferred_frames (ks_deferred s)) > DEFERRED_FRAME_RECYCLE_WATERMARK
      then flush_deferred s else Some s"
  have "\<exists>t. ?first = Some t \<and> kstack_inv t held"
    using assms flush_keeps [OF assms] by simp blast
  then obtain t where t: "?first = Some t" and inv: "kstack_inv t held" by blast
  show ?thesis
  proof (cases "ks_cache t = []")
    case True
    obtain i a where a: "ra_alloc (ks_alloc t) = Some (i, a)"
      using ra_alloc_total [OF kstack_inv_ra [OF inv]] by blast
    show ?thesis
      using True a kstack_alloc_new [OF inv a] unfolding kstack_alloc_def t
      by (auto simp: try_take_cached_kstack_def Let_def split: prod.splits sum.splits)
  next
    case False
    then show ?thesis
      using kstack_alloc_cached [OF inv] unfolding kstack_alloc_def t
      by (auto simp: try_take_cached_kstack_def)
  qed
qed

lemma mark_kstack_ids:
  "deferred_kstack_ids (mark_va_range_deferred st r fs (Some i))
    = deferred_kstack_ids st @ (if va_start r \<ge> va_end r then [] else [i])"
  by (simp add: mark_va_range_deferred_def split: prod.splits)

lemma release_mapping_keeps:
  assumes "kstack_inv s (i # held)"
  shows "kstack_inv (release_kstack_mapping rem s i) held"
  using assms
  by (auto simp: release_kstack_mapping_def kstack_inv_def mark_kstack_ids mark_preserves
      split: prod.splits)

lemma drop_keeps:
  "kstack_inv s (i # held) \<Longrightarrow> kstack_inv (drop_kernel_stack rem s i) held"
  using release_mapping_keeps [of s i held rem]
  by (auto simp: drop_kernel_stack_def try_cache_kstack_def kstack_inv_def)

lemma pop_cached_split:
  "pop_cached t cache acc = (cache', ids) \<Longrightarrow>
     \<exists>pop. cache = cache' @ pop \<and> ids = acc @ rev pop \<and> length cache' = min t (length cache)"
proof (induction t cache acc arbitrary: cache' ids rule: pop_cached.induct)
  case (1 t cache acc)
  show ?case
  proof (cases "length cache > t")
    case True
    then have ne: "cache \<noteq> []" by auto
    have "pop_cached t (butlast cache) (acc @ [last cache]) = (cache', ids)"
      using "1.prems" True by (simp add: pop_cached.simps [of t cache])
    from "1.IH" [OF True this] obtain pop where p: "butlast cache = cache' @ pop"
      "ids = (acc @ [last cache]) @ rev pop" "length cache' = min t (length (butlast cache))" by blast
    have "cache = cache' @ (pop @ [last cache])"
      using append_butlast_last_id [OF ne] p(1) by simp
    moreover have "ids = acc @ rev (pop @ [last cache])" using p(2) by simp
    moreover have "length cache' = min t (length cache)" using p(3) True by simp
    ultimately show ?thesis by blast
  next
    case False
    then show ?thesis using "1.prems" by (auto simp: pop_cached.simps [of t cache])
  qed
qed

lemma release_all_keep:
  assumes "kstack_inv s (ids @ held)"
  shows "kstack_inv (foldl (release_kstack_mapping rem) s ids) held"
  using assms
proof (induction ids arbitrary: s)
  case (Cons i ids)
  then show ?case using release_mapping_keeps [of s i "ids @ held" rem] by simp
qed simp

lemma reclaim_keeps:
  assumes "kstack_inv s held"
  shows "\<exists>n s'. reclaim_cached_kstacks rem s t = Some (n, s') \<and> kstack_inv s' held"
proof -
  obtain cache ids where pc: "pop_cached t (ks_cache s) [] = (cache, ids)" by fastforce
  from pop_cached_split [OF pc] obtain pop where p: "ks_cache s = cache @ pop" "ids = rev pop" by auto
  have "kstack_inv (s\<lparr>ks_cache := cache\<rparr>) (ids @ held)"
    using assms by (auto simp: kstack_inv_def p)
  from release_all_keep [OF this]
  have inv: "kstack_inv (foldl (release_kstack_mapping rem) (s\<lparr>ks_cache := cache\<rparr>) ids) held" .
  show ?thesis
    using flush_keeps [OF inv] inv by (auto simp: reclaim_cached_kstacks_def pc Let_def)
qed

lemma kstack_step_keeps:
  assumes "kstack_inv s held"
  shows "\<exists>s' held'. kstack_step ins rem (s, held) e = Some (s', held') \<and> kstack_inv s' held'"
proof (cases e)
  case KAlloc
  from kstack_alloc_keeps [OF assms, of ins] obtain r s' where
    "kstack_alloc ins s = Some (r, s')" "kstack_inv s' (case r of Err _ \<Rightarrow> held | Ok i \<Rightarrow> i # held)"
    by blast
  then show ?thesis using KAlloc by (cases r) auto
next
  case (KDrop n)
  show ?thesis
  proof (cases "n < length held")
    case True
    have d: "distinct held" using assms by (simp add: kstack_inv_def)
    note r = set_take_drop_removed [OF True d]
    have "set (held ! n # take n held @ drop (Suc n) held) = set held"
      using r(1) nth_mem [OF True] by (metis insert_Diff list.simps(15))
    moreover have "distinct (held ! n # take n held @ drop (Suc n) held)"
      using r by (metis Diff_iff distinct.simps(2) insertI1)
    ultimately have "kstack_inv s (held ! n # take n held @ drop (Suc n) held)"
      by (rule kstack_inv_perm [OF assms])
    from drop_keeps [OF this] show ?thesis using True KDrop by auto
  next
    case False
    then show ?thesis using assms KDrop by auto
  qed
next
  case (KReclaim t)
  then show ?thesis using reclaim_keeps [OF assms, of rem t] by auto
next
  case KFlush
  then show ?thesis using flush_keeps [OF assms] by auto
qed

lemma kstack_run_keeps:
  "kstack_inv s held \<Longrightarrow>
     \<exists>s' held'. kstack_run ins rem (s, held) es = Some (s', held') \<and> kstack_inv s' held'"
proof (induction es arbitrary: s held)
  case (Cons e es)
  from kstack_step_keeps [OF Cons.prems] obtain s1 h1
    where "kstack_step ins rem (s, held) e = Some (s1, h1)" "kstack_inv s1 h1" by blast
  then show ?case using Cons.IH by simp
qed simp

lemma kstack_pool_init_inv [inv_intros]: "kstack_inv (kstack_pool_init k) []"
  using ra_inv_new deferred_new_inv by (simp add: kstack_inv_def kstack_pool_init_def deferred_new_def)

section \<open>Properties\<close>

text \<open>
  C3. Kernel stacks of different ids do not overlap and have an unmapped guard page below each:
  for two different ids whose stacks fit into the address space, the higher id's stack ends at
  least one page below the bottom of the lower id's stack, in unsigned 64-bit arithmetic.
\<close>

theorem kernel_stacks_disjoint:
  assumes "kstack_id_fits i" and "kstack_id_fits j" and "i < j"
  shows "unat (snd (kernel_stack_position j)) + PAGE_SIZE \<le> unat (fst (kernel_stack_position i))
    \<and> unat (fst (kernel_stack_position j)) + KERNEL_STACK_SIZE = unat (snd (kernel_stack_position j))
    \<and> unat (snd (kernel_stack_position i)) \<le> unat TRAMPOLINE"
  using lower_kstack_below [OF assms prod.collapse [symmetric] prod.collapse [symmetric]]
    kernel_stack_position_unat [OF assms(2) prod.collapse [symmetric]]
    kernel_stack_position_unat [OF assms(1) prod.collapse [symmetric]]
  by linarith

theorem kernel_stacks_disjoint_witness:
  "kstack_id_fits 3 \<and> kstack_id_fits 7
   \<and> unat (snd (kernel_stack_position 7)) + PAGE_SIZE \<le> unat (fst (kernel_stack_position 3))"
proof -
  have "kstack_id_fits 3" and "kstack_id_fits 7"
    by (simp_all add: kstack_id_fits_def stack_consts)
  then show ?thesis using kernel_stacks_disjoint [of 3 7] by simp
qed

text \<open>
  C4. Life of a kernel stack id: for every sequence of allocations, drops, reclaims and flushes,
  and whatever the kernel address space answers, no operation panics; the ids held by tasks, the
  ids in the cache and the ids waiting for a TLB flush are pairwise different and all still marked
  allocated, so an id is never handed out while another task uses it or before its flush; and the
  cache never exceeds its limit.
\<close>

theorem kstack_pool_safe:
  "\<exists>s held. kstack_run insert_area remove_vma (kstack_pool_init k, []) es = Some (s, held)
     \<and> distinct (held @ ks_cache s @ deferred_kstack_ids (ks_deferred s))
     \<and> set (held @ ks_cache s @ deferred_kstack_ids (ks_deferred s)) \<subseteq> ra_live (ks_alloc s)
     \<and> length (ks_cache s) \<le> KSTACK_CACHE_LIMIT"
  using kstack_run_keeps [OF kstack_pool_init_inv] by (fastforce simp: kstack_inv_def)

text \<open>
  When mapping a new stack fails, the id that was just allocated is neither returned to the
  allocator nor recorded anywhere: it stays allocated for ever, also after a flush.
\<close>

theorem kstack_alloc_failure_leaks_id:
  "case kstack_alloc (\<lambda>k b t. (Err OutOfMemory, k)) (kstack_pool_init ()) of
     Some (r, s) \<Rightarrow> r = Err OutOfMemory \<and> 0 \<in> ra_live (ks_alloc s) \<and> ks_cache s = []
       \<and> deferred_kstack_ids (ks_deferred s) = [] \<and> flush_deferred s = Some s
   | None \<Rightarrow> False"
  by (simp add: kstack_alloc_def kstack_pool_init_def deferred_new_def ra_alloc_def ra_new_def
      try_take_cached_kstack_def ra_live_def flush_deferred_def take_all_def
      split: prod.splits)

end
