(* ===== verification/Page_Table.thy ===== *)
theory Page_Table
  imports Paging_Arch Kernel_Stacks
begin

text \<open>
  Page tables (\<open>os/src/mm/page_table.rs\<close>) over any paging architecture. The frames that hold tables
  are arrays of entries in \<open>pt_mem\<close>; \<open>falloc\<close> stands for \<open>frame_alloc_with_reclaim\<close>, on a source of
  frames of any type. An operation that panics answers \<open>None\<close>.
\<close>

section \<open>State\<close>

record 'f machine =
  pt_mem :: "nat \<Rightarrow> nat \<Rightarrow> u64"
  frame_src :: 'f

record page_table =
  root_ppn :: nat
  root_owned :: bool
  pt_frames :: "nat list"

type_synonym 'f falloc = "'f \<Rightarrow> nat option \<times> 'f"
type_synonym slot = "nat \<times> nat"

definition read_slot :: "'f machine \<Rightarrow> slot \<Rightarrow> u64" where
  "read_slot m sl = pt_mem m (fst sl) (snd sl)"

definition write_slot :: "slot \<Rightarrow> u64 \<Rightarrow> 'f machine \<Rightarrow> 'f machine" where
  "write_slot sl b m = m\<lparr>pt_mem := (pt_mem m)(fst sl := (pt_mem m (fst sl))(snd sl := b))\<rparr>"

text \<open>A frame comes back zeroed from the allocator.\<close>

definition alloc_frame :: "'f falloc \<Rightarrow> 'f machine \<Rightarrow> nat option \<times> 'f machine" where
  "alloc_frame falloc m =
     (case falloc (frame_src m) of
        (None, f) \<Rightarrow> (None, m\<lparr>frame_src := f\<rparr>)
      | (Some q, f) \<Rightarrow> (Some q, m\<lparr>frame_src := f, pt_mem := (pt_mem m)(q := (\<lambda>_. 0))\<rparr>))"

text \<open>\<open>PageTableEntry::new\<close>, \<open>ppn\<close>: the page number is masked to the architecture's width.\<close>

definition entry_new :: "paging_arch \<Rightarrow> nat \<Rightarrow> u16 \<Rightarrow> u64" where
  "entry_new A ppn fl = make_pte A ppn fl"

definition entry_ppn :: "paging_arch \<Rightarrow> u64 \<Rightarrow> nat" where
  "entry_ppn A b = pte_ppn A b mod 2 ^ ppn_bits A"

definition entry_has :: "paging_arch \<Rightarrow> u16 \<Rightarrow> u64 \<Rightarrow> bool" where
  "entry_has A f b \<longleftrightarrow> pte_flags A b AND f \<noteq> 0"

definition readable :: "paging_arch \<Rightarrow> u64 \<Rightarrow> bool" where "readable A b = entry_has A PTE_FLAG_R b"
definition writable :: "paging_arch \<Rightarrow> u64 \<Rightarrow> bool" where "writable A b = entry_has A PTE_FLAG_W b"
definition executable :: "paging_arch \<Rightarrow> u64 \<Rightarrow> bool" where "executable A b = entry_has A PTE_FLAG_X b"
definition is_user :: "paging_arch \<Rightarrow> u64 \<Rightarrow> bool" where "is_user A b = entry_has A PTE_FLAG_U b"

section \<open>Operations\<close>

definition pt_new :: "'f falloc \<Rightarrow> 'f machine \<Rightarrow> (mm_error + page_table) \<times> 'f machine" where
  "pt_new falloc m =
     (case alloc_frame falloc m of
        (None, m) \<Rightarrow> (Err OutOfMemory, m)
      | (Some q, m) \<Rightarrow> (Ok \<lparr>root_ppn = q, root_owned = True, pt_frames = []\<rparr>, m))"

definition share_kernel_half_from :: "paging_arch \<Rightarrow> page_table \<Rightarrow> page_table \<Rightarrow> 'f machine \<Rightarrow> 'f machine" where
  "share_kernel_half_from A t kpt m =
     (let entry_count = 2 ^ index_bits A; kernel_start = entry_count div 2 in
      m\<lparr>pt_mem := (pt_mem m)(root_ppn t := (\<lambda>i.
          if kernel_start \<le> i \<and> i < entry_count then pt_mem m (root_ppn kpt) i else pt_mem m (root_ppn t) i))\<rparr>)"

definition mark_kernel_half_global :: "paging_arch \<Rightarrow> page_table \<Rightarrow> 'f machine \<Rightarrow> 'f machine" where
  "mark_kernel_half_global A t m =
     (let entry_count = 2 ^ index_bits A in
      m\<lparr>pt_mem := (pt_mem m)(root_ppn t := (\<lambda>i.
          if entry_count div 2 \<le> i \<and> i < entry_count \<and> pte_is_valid A (pt_mem m (root_ppn t) i)
          then or (pt_mem m (root_ppn t) i) (ucast PTE_FLAG_G) else pt_mem m (root_ppn t) i))\<rparr>)"

definition from_token :: "paging_arch \<Rightarrow> u64 \<Rightarrow> page_table" where
  "from_token A token = \<lparr>root_ppn = token_root_ppn A token mod 2 ^ ppn_bits A, root_owned = False, pt_frames = []\<rparr>"

fun find_pte_create_loop ::
  "paging_arch \<Rightarrow> 'f falloc \<Rightarrow> bool \<Rightarrow> nat \<Rightarrow> nat list \<Rightarrow> nat \<Rightarrow> page_table \<Rightarrow> 'f machine
    \<Rightarrow> (mm_error + slot option) \<times> page_table \<times> 'f machine" where
  "find_pte_create_loop A falloc tracked vpn [] ppn t m = (Ok None, t, m)"
| "find_pte_create_loop A falloc tracked vpn (level # rest) ppn t m =
     (let sl = (ppn, vpn_index A vpn level) in
      if level + 1 = levels A then (Ok (Some sl), t, m)
      else if \<not> pte_is_valid A (read_slot m sl) then
        (case alloc_frame falloc m of
           (None, m) \<Rightarrow> (Err OutOfMemory, t, m)
         | (Some q, m) \<Rightarrow>
             let m = write_slot sl (make_dir_entry A q) m;
                 t = (if tracked then t\<lparr>pt_frames := pt_frames t @ [q]\<rparr> else t)
             in find_pte_create_loop A falloc tracked vpn rest (entry_ppn A (read_slot m sl)) t m)
      else find_pte_create_loop A falloc tracked vpn rest (entry_ppn A (read_slot m sl)) t m)"

definition find_pte_create ::
  "paging_arch \<Rightarrow> 'f falloc \<Rightarrow> nat \<Rightarrow> page_table \<Rightarrow> 'f machine \<Rightarrow> (mm_error + slot option) \<times> page_table \<times> 'f machine" where
  "find_pte_create A falloc vpn t m = find_pte_create_loop A falloc True vpn [0..<levels A] (root_ppn t) t m"

definition find_pte_create_untracked ::
  "paging_arch \<Rightarrow> 'f falloc \<Rightarrow> nat \<Rightarrow> page_table \<Rightarrow> 'f machine \<Rightarrow> (mm_error + slot option) \<times> page_table \<times> 'f machine" where
  "find_pte_create_untracked A falloc vpn t m = find_pte_create_loop A falloc False vpn [0..<levels A] (root_ppn t) t m"

fun find_pte_loop :: "paging_arch \<Rightarrow> 'f machine \<Rightarrow> nat \<Rightarrow> nat list \<Rightarrow> nat \<Rightarrow> slot option" where
  "find_pte_loop A m vpn [] ppn = None"
| "find_pte_loop A m vpn (level # rest) ppn =
     (let sl = (ppn, vpn_index A vpn level) in
      if level + 1 = levels A then Some sl
      else if \<not> pte_is_valid A (read_slot m sl) then None
      else find_pte_loop A m vpn rest (entry_ppn A (read_slot m sl)))"

definition find_pte :: "paging_arch \<Rightarrow> page_table \<Rightarrow> 'f machine \<Rightarrow> nat \<Rightarrow> slot option" where
  "find_pte A t m vpn = find_pte_loop A m vpn [0..<levels A] (root_ppn t)"

definition store_leaf ::
  "paging_arch \<Rightarrow> nat \<Rightarrow> u16 \<Rightarrow> (mm_error + slot option) \<times> page_table \<times> 'f machine
    \<Rightarrow> (mm_error + unit) \<times> page_table \<times> 'f machine" where
  "store_leaf A ppn fl res =
     (case res of
        (Err e, t, m) \<Rightarrow> (Err e, t, m)
      | (Ok None, t, m) \<Rightarrow> (Err NoMapping, t, m)
      | (Ok (Some sl), t, m) \<Rightarrow> (Ok (), t, write_slot sl (entry_new A ppn (or fl PTE_FLAG_V)) m))"

definition pt_map ::
  "paging_arch \<Rightarrow> 'f falloc \<Rightarrow> nat \<Rightarrow> nat \<Rightarrow> u16 \<Rightarrow> page_table \<Rightarrow> 'f machine \<Rightarrow> (mm_error + unit) \<times> page_table \<times> 'f machine" where
  "pt_map A falloc vpn ppn fl t m = store_leaf A ppn fl (find_pte_create A falloc vpn t m)"

definition ensure_leaf ::
  "paging_arch \<Rightarrow> 'f falloc \<Rightarrow> nat \<Rightarrow> page_table \<Rightarrow> 'f machine \<Rightarrow> (mm_error + unit) \<times> page_table \<times> 'f machine" where
  "ensure_leaf A falloc vpn t m =
     (case find_pte_create A falloc vpn t m of
        (Err e, t, m) \<Rightarrow> (Err e, t, m)
      | (Ok None, t, m) \<Rightarrow> (Err NoMapping, t, m)
      | (Ok (Some sl), t, m) \<Rightarrow> (Ok (), t, m))"

definition map_kernel_untracked ::
  "paging_arch \<Rightarrow> 'f falloc \<Rightarrow> nat \<Rightarrow> nat \<Rightarrow> u16 \<Rightarrow> page_table \<Rightarrow> 'f machine \<Rightarrow> (mm_error + unit) \<times> page_table \<times> 'f machine" where
  "map_kernel_untracked A falloc vpn ppn fl t m = store_leaf A ppn fl (find_pte_create_untracked A falloc vpn t m)"

text \<open>\<open>frame_alloc().unwrap()\<close> panics when memory is exhausted.\<close>

definition ensure_subtree_root_untracked ::
  "paging_arch \<Rightarrow> bool \<Rightarrow> 'f falloc \<Rightarrow> nat \<Rightarrow> page_table \<Rightarrow> 'f machine \<Rightarrow> (nat \<times> 'f machine) option" where
  "ensure_subtree_root_untracked A is_riscv falloc vpn t m =
     (let sl = (root_ppn t, vpn_index A vpn 0) in do {
        m \<leftarrow> (if \<not> pte_is_valid A (read_slot m sl) then
               (case alloc_frame falloc m of
                  (None, m) \<Rightarrow> None
                | (Some q, m) \<Rightarrow> Some (write_slot sl (make_dir_entry A q) m))
             else Some m);
        let m = (if is_riscv then write_slot sl (or (read_slot m sl) (ucast PTE_FLAG_G)) m else m);
        Some (entry_ppn A (read_slot m sl), m)
      })"

definition unmap :: "paging_arch \<Rightarrow> nat \<Rightarrow> page_table \<Rightarrow> 'f machine \<Rightarrow> 'f machine option" where
  "unmap A vpn t m = map_option (\<lambda>sl. write_slot sl 0 m) (find_pte A t m vpn)"

definition clear_pte :: "paging_arch \<Rightarrow> nat \<Rightarrow> page_table \<Rightarrow> 'f machine \<Rightarrow> u64 option \<times> 'f machine" where
  "clear_pte A vpn t m =
     (case find_pte A t m vpn of
        None \<Rightarrow> (None, m)
      | Some sl \<Rightarrow>
          if \<not> pte_is_valid A (read_slot m sl) then (None, m)
          else (Some (read_slot m sl), write_slot sl 0 m))"

definition update_flags :: "paging_arch \<Rightarrow> nat \<Rightarrow> u16 \<Rightarrow> page_table \<Rightarrow> 'f machine \<Rightarrow> bool \<times> 'f machine" where
  "update_flags A vpn fl t m =
     (case find_pte A t m vpn of
        Some sl \<Rightarrow>
          if pte_is_valid A (read_slot m sl)
          then (True, write_slot sl (entry_new A (entry_ppn A (read_slot m sl)) (or fl PTE_FLAG_V)) m)
          else (False, m)
      | None \<Rightarrow> (False, m))"

definition replace_pte :: "paging_arch \<Rightarrow> nat \<Rightarrow> nat \<Rightarrow> u16 \<Rightarrow> page_table \<Rightarrow> 'f machine \<Rightarrow> bool \<times> 'f machine" where
  "replace_pte A vpn ppn fl t m =
     (case find_pte A t m vpn of
        Some sl \<Rightarrow>
          if pte_is_valid A (read_slot m sl)
          then (True, write_slot sl (entry_new A ppn (or fl PTE_FLAG_V)) m)
          else (False, m)
      | None \<Rightarrow> (False, m))"

definition translate :: "paging_arch \<Rightarrow> page_table \<Rightarrow> 'f machine \<Rightarrow> nat \<Rightarrow> u64 option" where
  "translate A t m vpn =
     (case find_pte A t m vpn of
        None \<Rightarrow> None
      | Some sl \<Rightarrow> if pte_is_valid A (read_slot m sl) then Some (read_slot m sl) else None)"

definition translate_va :: "paging_arch \<Rightarrow> page_table \<Rightarrow> 'f machine \<Rightarrow> nat \<Rightarrow> nat option" where
  "translate_va A t m va =
     map_option (\<lambda>pte. (entry_ppn A pte * 4096 + va mod 4096) mod 2 ^ pa_bits A) (translate A t m (va div 4096))"

section \<open>User buffers\<close>

definition checked_user_va :: "paging_arch \<Rightarrow> nat \<Rightarrow> nat option" where
  "checked_user_va A va = (if va < user_space_end A then Some va else None)"

definition checked_user_range :: "paging_arch \<Rightarrow> nat \<Rightarrow> nat \<Rightarrow> nat option" where
  "checked_user_range A start len =
     (if len = 0 then Some start
      else if start \<ge> user_space_end A then None
      else if start + len > usize_max then None
      else if start + len \<le> user_space_end A then Some (start + len) else None)"

text \<open>A slice of a frame is its page number with the first and the last offset.\<close>

type_synonym slice = "nat \<times> nat \<times> nat"

function translated_slices :: "paging_arch \<Rightarrow> page_table \<Rightarrow> 'f machine \<Rightarrow> nat \<Rightarrow> nat \<Rightarrow> slice list \<Rightarrow> slice list option" where
  "translated_slices A t m start end_va v =
     (if start < end_va then
        (case checked_user_va A start of
           None \<Rightarrow> None
         | Some start_va \<Rightarrow>
             (case translate A t m (start_va div 4096) of
                None \<Rightarrow> None
              | Some pte \<Rightarrow>
                  let chunk_end = min ((start_va div 4096 + 1) * 4096) end_va;
                      sl = (if chunk_end mod 4096 = 0 then (entry_ppn A pte, start_va mod 4096, 4096)
                            else (entry_ppn A pte, start_va mod 4096, chunk_end mod 4096))
                  in translated_slices A t m chunk_end end_va (v @ [sl])))
      else Some v)"
  by pat_completeness auto
termination
proof (relation "measure (\<lambda>(A, t, m, start, e, v). e - start)", goal_cases)
  case (2 A t m start end_va v va pte ce sl)
  have "va = start" using 2(2) by (simp add: checked_user_va_def split: if_splits)
  moreover have "va < (va div 4096 + 1) * 4096" using mult_div_mod_eq [of 4096 va] mod_less_divisor [of 4096 va] by simp
  ultimately have "start < ce" "ce \<le> end_va" using 2(1,4) by (simp_all add: min_def)
  then show ?case using 2(1) by simp
qed simp

declare translated_slices.simps [simp del]

definition translated_byte_buffer ::
  "paging_arch \<Rightarrow> u64 \<Rightarrow> nat \<Rightarrow> nat \<Rightarrow> 'f machine \<Rightarrow> slice list option" where
  "translated_byte_buffer A token ptr len m = do {
     end_va \<leftarrow> checked_user_range A ptr len;
     translated_slices A (from_token A token) m ptr end_va []
   }"

text \<open>
  \<open>bytes\<close> gives the byte at a physical address; the loop ends at the first zero byte. A byte is pushed onto the
  string as the character with that number, and the string holds characters in UTF-8: from 128 on they take two bytes.
\<close>

definition char_utf8 :: "u8 \<Rightarrow> u8 list" where
  "char_utf8 ch = (if ch < 0x80 then [ch] else [0xC0 OR drop_bit 6 ch, 0x80 OR (ch AND 0x3F)])"

function translated_str_loop :: "paging_arch \<Rightarrow> page_table \<Rightarrow> (nat \<Rightarrow> u8) \<Rightarrow> 'f machine \<Rightarrow> nat \<Rightarrow> u8 list \<Rightarrow> u8 list option" where
  "translated_str_loop A t bytes m va acc =
     (case checked_user_va A va of
        None \<Rightarrow> None
      | Some va' \<Rightarrow>
          (case translate_va A t m va' of
             None \<Rightarrow> None
           | Some pa \<Rightarrow>
               if bytes pa = 0 then Some acc
               else if va + 1 > usize_max then None
               else if va + 1 \<ge> user_space_end A then None
               else translated_str_loop A t bytes m (va + 1) (acc @ char_utf8 (bytes pa))))"
  by pat_completeness auto
termination by (relation "measure (\<lambda>(A, t, b, m, va, acc). user_space_end A - va)") auto

declare translated_str_loop.simps [simp del]

definition translated_str :: "paging_arch \<Rightarrow> u64 \<Rightarrow> (nat \<Rightarrow> u8) \<Rightarrow> nat \<Rightarrow> 'f machine \<Rightarrow> u8 list option" where
  "translated_str A token bytes ptr m = translated_str_loop A (from_token A token) bytes m ptr []"

definition translated_ref :: "paging_arch \<Rightarrow> u64 \<Rightarrow> nat \<Rightarrow> nat \<Rightarrow> 'f machine \<Rightarrow> nat option" where
  "translated_ref A token ptr sz m = do {
     _ \<leftarrow> checked_user_range A ptr (max sz 1);
     translate_va A (from_token A token) m ptr
   }"

section \<open>User buffers as iterators\<close>

text \<open>
  \<open>UserBuffer\<close> over the slices above, and the walk of a \<open>for\<close> loop over its iterator.
  Indexing past the end of a slice panics.
\<close>

definition slice_len :: "slice \<Rightarrow> nat" where
  "slice_len sl = (case sl of (p, a, b) \<Rightarrow> b - a)"

definition user_buffer_len :: "slice list \<Rightarrow> nat" where
  "user_buffer_len buffers = foldl (\<lambda>total b. total + slice_len b) 0 buffers"

definition slice_index :: "slice \<Rightarrow> nat \<Rightarrow> nat option" where
  "slice_index sl i = (case sl of (p, a, b) \<Rightarrow> if i < slice_len sl then Some (p * 4096 + (a + i)) else None)"

record user_buffer_iterator =
  ub_buffers :: "slice list"
  current_buffer :: nat
  current_idx :: nat

definition user_buffer_into_iter :: "slice list \<Rightarrow> user_buffer_iterator" where
  "user_buffer_into_iter buffers = \<lparr>ub_buffers = buffers, current_buffer = 0, current_idx = 0\<rparr>"

definition user_buffer_next :: "user_buffer_iterator \<Rightarrow> (nat option \<times> user_buffer_iterator) option" where
  "user_buffer_next it =
     (if current_buffer it \<ge> length (ub_buffers it) then Some (None, it)
      else do {
        buf \<leftarrow> idx (ub_buffers it) (current_buffer it);
        r \<leftarrow> slice_index buf (current_idx it);
        Some (Some r,
          if current_idx it + 1 = slice_len buf
          then it\<lparr>current_idx := 0, current_buffer := current_buffer it + 1\<rparr>
          else it\<lparr>current_idx := current_idx it + 1\<rparr>)
      })"

partial_function (option) user_buffer_walk :: "user_buffer_iterator \<Rightarrow> nat list \<Rightarrow> nat list option" where
  "user_buffer_walk it seen = do {
     (r, it') \<leftarrow> user_buffer_next it;
     (case r of None \<Rightarrow> Some seen | Some p \<Rightarrow> user_buffer_walk it' (seen @ [p]))
   }"

end
