(* ===== verification/Address_Space.thy ===== *)
theory Address_Space
  imports Page_Table
begin

text \<open>
  Page tables as maps from virtual pages to entries: the operations on the tree of table frames
  implement lookup, update and removal of one page, on any architecture that meets the paging
  contract and with any source of fresh frames; calls on two tables in any order act on two separate maps.
\<close>

section \<open>Frame sources\<close>

text \<open>
  \<open>src_ok U f\<close>: the source \<open>f\<close> will not hand out a frame of \<open>U\<close>. A source hands out each frame once;
  frame 0 is never handed out (the LoongArch directory entry of frame 0 would read as absent).
\<close>

locale frame_source =
  fixes falloc :: "'f falloc" and src_ok :: "nat set \<Rightarrow> 'f \<Rightarrow> bool" and ppn_limit :: nat
  assumes source_some: "src_ok U f \<Longrightarrow> falloc f = (Some q, f') \<Longrightarrow>
      q \<notin> U \<and> 0 < q \<and> q < ppn_limit \<and> src_ok (insert q U) f'"
    and source_none: "src_ok U f \<Longrightarrow> falloc f = (None, f') \<Longrightarrow> src_ok U f'"

section \<open>The tree of tables\<close>

fun table_at :: "paging_arch \<Rightarrow> (nat \<Rightarrow> nat \<Rightarrow> u64) \<Rightarrow> nat \<Rightarrow> nat \<Rightarrow> nat \<Rightarrow> nat option" where
  "table_at A mm root vpn 0 = Some root"
| "table_at A mm root vpn (Suc l) =
     (case table_at A mm root vpn l of
        None \<Rightarrow> None
      | Some p \<Rightarrow>
          if pte_is_valid A (mm p (vpn_index A vpn l)) then Some (entry_ppn A (mm p (vpn_index A vpn l))) else None)"

definition same_prefix :: "paging_arch \<Rightarrow> nat \<Rightarrow> nat \<Rightarrow> nat \<Rightarrow> bool" where
  "same_prefix A l vpn vpn' \<longleftrightarrow> (\<forall>i<l. vpn_index A vpn i = vpn_index A vpn' i)"

text \<open>No frame is a table in two places.\<close>

definition tree_ok :: "paging_arch \<Rightarrow> (nat \<Rightarrow> nat \<Rightarrow> u64) \<Rightarrow> nat \<Rightarrow> bool" where
  "tree_ok A mm root \<longleftrightarrow> (\<forall>l<levels A. \<forall>l'<levels A. \<forall>vpn vpn' p.
     table_at A mm root vpn l = Some p \<longrightarrow> table_at A mm root vpn' l' = Some p \<longrightarrow> l = l' \<and> same_prefix A l vpn vpn')"

definition tables :: "paging_arch \<Rightarrow> (nat \<Rightarrow> nat \<Rightarrow> u64) \<Rightarrow> nat \<Rightarrow> nat set" where
  "tables A mm root = {p. \<exists>vpn. \<exists>l<levels A. table_at A mm root vpn l = Some p}"

lemma same_prefix_refl [simp]: "same_prefix A l v v" by (simp add: same_prefix_def)

lemma same_prefix_Suc: "same_prefix A (Suc l) v v' \<longleftrightarrow> same_prefix A l v v' \<and> vpn_index A v l = vpn_index A v' l"
  by (auto simp: same_prefix_def less_Suc_eq)

lemma same_prefix_le: "same_prefix A l v v' \<Longrightarrow> k \<le> l \<Longrightarrow> same_prefix A k v v'"
  by (auto simp: same_prefix_def)

lemma table_at_cong:
  "same_prefix A l v v' \<Longrightarrow> table_at A mm root v l = table_at A mm root v' l"
  by (induction l) (auto simp: same_prefix_Suc split: option.splits)

lemma tree_okD:
  "tree_ok A mm root \<Longrightarrow> l < levels A \<Longrightarrow> l' < levels A \<Longrightarrow> table_at A mm root v l = Some p \<Longrightarrow>
    table_at A mm root v' l' = Some p \<Longrightarrow> l = l' \<and> same_prefix A l v v'"
  unfolding tree_ok_def by blast

lemma table_at_prefix:
  "table_at A mm root v l = Some p \<Longrightarrow> k \<le> l \<Longrightarrow> \<exists>q. table_at A mm root v k = Some q"
  by (induction l arbitrary: p) (auto simp: le_Suc_eq split: option.splits if_splits)

lemma tables_root: "0 < levels A \<Longrightarrow> root \<in> tables A mm root"
  unfolding tables_def by (intro CollectI exI [of _ 0] exI [of _ "0::nat"]) auto

lemma tables_at: "l < levels A \<Longrightarrow> table_at A mm root v l = Some p \<Longrightarrow> p \<in> tables A mm root"
  unfolding tables_def by blast

text \<open>The walk of \<open>find_pte\<close> follows the tree.\<close>

lemma find_pte_loop_eq:
  assumes "l < levels A" and "table_at A (pt_mem m) root vpn l = Some ppn"
  shows "find_pte_loop A m vpn [l..<levels A] ppn =
    map_option (\<lambda>p. (p, vpn_index A vpn (levels A - 1))) (table_at A (pt_mem m) root vpn (levels A - 1))"
  using assms
proof (induction "levels A - l" arbitrary: l ppn)
  case 0
  then show ?case by simp
next
  case (Suc n)
  have u: "[l..<levels A] = l # [Suc l..<levels A]" using Suc.prems(1) by (simp add: upt_conv_Cons)
  show ?case
  proof (cases "l + 1 = levels A")
    case True
    then have "levels A - 1 = l" by simp
    then show ?thesis using True Suc.prems(2) by (simp add: u)
  next
    case False
    then have sl: "Suc l < levels A" "n = levels A - Suc l" using Suc.prems(1) Suc.hyps(2) by auto
    show ?thesis
    proof (cases "pte_is_valid A (pt_mem m ppn (vpn_index A vpn l))")
      case True
      then have "table_at A (pt_mem m) root vpn (Suc l) = Some (entry_ppn A (pt_mem m ppn (vpn_index A vpn l)))"
        using Suc.prems(2) by simp
      from Suc.hyps(1) [OF sl(2,1) this] show ?thesis using True False by (simp add: u read_slot_def)
    next
      case invalid: False
      then have "table_at A (pt_mem m) root vpn (Suc l) = None" using Suc.prems(2) by simp
      then have "table_at A (pt_mem m) root vpn (levels A - 1) = None"
        using table_at_prefix [of A "pt_mem m" root vpn "levels A - 1" _ "Suc l"] sl(1) by fastforce
      then show ?thesis using invalid False by (simp add: u read_slot_def)
    qed
  qed
qed

lemma find_pte_eq:
  "0 < levels A \<Longrightarrow> find_pte A t m vpn =
    map_option (\<lambda>p. (p, vpn_index A vpn (levels A - 1))) (table_at A (pt_mem m) (root_ppn t) vpn (levels A - 1))"
  unfolding find_pte_def by (rule find_pte_loop_eq) simp_all

section \<open>Writing a leaf\<close>

lemma table_at_leaf_write:
  assumes ok: "tree_ok A mm root" and leaf: "table_at A mm root vpn (levels A - 1) = Some p" and pos: "0 < levels A"
    and l: "l < levels A"
  shows "table_at A (mm(p := (mm p)(i := b))) root v l = table_at A mm root v l"
  using l
proof (induction l)
  case (Suc l)
  have "q \<noteq> p" if "table_at A mm root v l = Some q" for q
  proof
    assume "q = p"
    then have "l = levels A - 1" using tree_okD [OF ok _ _ that, of "levels A - 1" vpn] leaf Suc.prems pos by simp
    then show False using Suc.prems by simp
  qed
  then show ?case using Suc by (auto split: option.splits)
qed simp

definition same_page :: "paging_arch \<Rightarrow> nat \<Rightarrow> nat \<Rightarrow> bool" where
  "same_page A v v' \<longleftrightarrow> v mod 2 ^ (index_bits A * levels A) = v' mod 2 ^ (index_bits A * levels A)"

definition entry_opt :: "paging_arch \<Rightarrow> u64 \<Rightarrow> u64 option" where
  "entry_opt A b = (if pte_is_valid A b then Some b else None)"

lemma write_slot_mem [simp]:
  "pt_mem (write_slot sl b m) = (pt_mem m)(fst sl := (pt_mem m (fst sl))(snd sl := b))"
  "frame_src (write_slot sl b m) = frame_src m"
  by (simp_all add: write_slot_def)

lemma tree_ok_cong:
  assumes "\<And>v l. l < levels A \<Longrightarrow> table_at A mm' root v l = table_at A mm root v l"
  shows "tree_ok A mm' root = tree_ok A mm root" and "tables A mm' root = tables A mm root"
  using assms by (simp_all add: tree_ok_def tables_def cong: conj_cong)

context paging
begin

lemma same_page_prefix: "same_page A v v' \<longleftrightarrow> same_prefix A (levels A) v v'"
  unfolding same_page_def same_prefix_def using index_inj by blast

lemma same_page_last:
  "same_page A v v' \<longleftrightarrow> same_prefix A (levels A - 1) v v' \<and> vpn_index A v (levels A - 1) = vpn_index A v' (levels A - 1)"
  using same_prefix_Suc [of A "levels A - 1" v v'] levels_pos by (simp add: same_page_prefix)

lemma translate_eq:
  "translate A t m v = Option.bind (table_at A (pt_mem m) (root_ppn t) v (levels A - 1))
     (\<lambda>p. entry_opt A (pt_mem m p (vpn_index A v (levels A - 1))))"
  unfolding translate_def find_pte_eq [OF levels_pos]
  by (auto simp: read_slot_def entry_opt_def split: option.splits)

lemma entry_ppn_bound: "entry_ppn A b = pte_ppn A b"
  unfolding entry_ppn_def using ppn_bound [of b] by simp

lemma write_leaf:
  assumes ok: "tree_ok A (pt_mem m) (root_ppn t)" and sl: "find_pte A t m vpn = Some sl"
  shows "translate A t (write_slot sl b m) v = (if same_page A v vpn then entry_opt A b else translate A t m v)"
    and "tree_ok A (pt_mem (write_slot sl b m)) (root_ppn t)"
    and "tables A (pt_mem (write_slot sl b m)) (root_ppn t) = tables A (pt_mem m) (root_ppn t)"
proof -
  obtain p where p: "table_at A (pt_mem m) (root_ppn t) vpn (levels A - 1) = Some p" "sl = (p, vpn_index A vpn (levels A - 1))"
    using sl unfolding find_pte_eq [OF levels_pos] by auto
  have tab: "table_at A (pt_mem (write_slot sl b m)) (root_ppn t) v l = table_at A (pt_mem m) (root_ppn t) v l"
    if "l < levels A" for v l
    using table_at_leaf_write [OF ok p(1) levels_pos that] by (simp add: p(2))
  have last: "levels A - 1 < levels A" using levels_pos by simp
  show "tree_ok A (pt_mem (write_slot sl b m)) (root_ppn t)"
    and "tables A (pt_mem (write_slot sl b m)) (root_ppn t) = tables A (pt_mem m) (root_ppn t)"
    using tree_ok_cong [OF tab] ok by blast+
  show "translate A t (write_slot sl b m) v = (if same_page A v vpn then entry_opt A b else translate A t m v)"
  proof (cases "same_page A v vpn")
    case True
    then have "table_at A (pt_mem m) (root_ppn t) v (levels A - 1) = Some p" "vpn_index A v (levels A - 1) = vpn_index A vpn (levels A - 1)"
      using p(1) table_at_cong same_page_last by (metis, blast)
    then show ?thesis using True unfolding translate_eq tab [OF last] by (simp add: p(2))
  next
    case False
    have "\<not> (table_at A (pt_mem m) (root_ppn t) v (levels A - 1) = Some p \<and> vpn_index A v (levels A - 1) = vpn_index A vpn (levels A - 1))"
      using tree_okD [OF ok last last _ p(1)] False same_page_last by blast
    then show ?thesis
      using False unfolding translate_eq tab [OF last] by (auto simp: p(2) split: option.splits bind_splits)
  qed
qed

lemma dir_add:
  fixes mm :: "nat \<Rightarrow> nat \<Rightarrow> u64"
  assumes ok: "tree_ok A mm root" and l: "Suc l < levels A" and p: "table_at A mm root vpn l = Some p"
    and inv: "\<not> pte_is_valid A (mm p (vpn_index A vpn l))" and q: "q \<notin> tables A mm root" "0 < q" "q < 2 ^ ppn_bits A"
  defines "mm' \<equiv> (mm(q := (\<lambda>_. 0)))(p := (mm p)(vpn_index A vpn l := make_dir_entry A q))"
  shows "k < levels A \<Longrightarrow> table_at A mm' root v k =
    (if same_prefix A (Suc l) v vpn \<and> Suc l \<le> k then (if k = Suc l then Some q else None) else table_at A mm root v k)"
proof (induction k)
  case 0
  then show ?case by simp
next
  case (Suc k)
  have pt: "p \<in> tables A mm root" by (rule tables_at [OF _ p]) (use l in simp)
  then have pq: "p \<noteq> q" using q(1) by auto
  have dir: "pte_is_valid A (make_dir_entry A q)" "entry_ppn A (make_dir_entry A q) = q"
    using dir_entry [OF q(2,3)] by (auto simp: entry_ppn_bound)
  have IH: "table_at A mm' root v k =
    (if same_prefix A (Suc l) v vpn \<and> Suc l \<le> k then (if k = Suc l then Some q else None) else table_at A mm root v k)"
    using Suc by simp
  consider (below) "same_prefix A (Suc l) v vpn" "Suc l \<le> k"
    | (here) "k = l" "same_prefix A l v vpn"
    | (other) "\<not> (same_prefix A (Suc l) v vpn \<and> Suc l \<le> k)" "\<not> (k = l \<and> same_prefix A l v vpn)" by blast
  then show ?case
  proof cases
    case below
    have "mm' q = (\<lambda>_. 0)" using pq by (simp add: mm'_def)
    then show ?thesis using below IH empty_invalid by auto
  next
    case here
    then have "table_at A mm root v k = Some p" "table_at A mm' root v k = Some p"
      using p table_at_cong [of A l v vpn mm root] IH by auto
    moreover have "mm' p = (mm p)(vpn_index A vpn l := make_dir_entry A q)" by (simp add: mm'_def)
    ultimately show ?thesis using here dir by (auto simp: same_prefix_Suc)
  next
    case other
    have eq: "table_at A mm' root v k = table_at A mm root v k" using IH other(1) by simp
    have "\<not> (same_prefix A (Suc l) v vpn \<and> Suc l \<le> Suc k)" using other by (auto simp: same_prefix_Suc le_Suc_eq)
    moreover have "mm' r = mm r" if r: "table_at A mm root v k = Some r" for r
    proof -
      have "r \<noteq> q" using tables_at [OF _ r] Suc.prems q(1) by auto
      moreover have "r \<noteq> p" using tree_okD [OF ok _ _ r, of l vpn] p other(2) Suc.prems l by auto
      ultimately show ?thesis by (simp add: mm'_def)
    qed
    ultimately show ?thesis using eq by (auto split: option.splits)
  qed
qed

lemma dir_add_ok:
  fixes mm :: "nat \<Rightarrow> nat \<Rightarrow> u64"
  assumes ok: "tree_ok A mm root" and l: "Suc l < levels A" and p: "table_at A mm root vpn l = Some p"
    and inv: "\<not> pte_is_valid A (mm p (vpn_index A vpn l))" and q: "q \<notin> tables A mm root" "0 < q" "q < 2 ^ ppn_bits A"
  defines "mm' \<equiv> (mm(q := (\<lambda>_. 0)))(p := (mm p)(vpn_index A vpn l := make_dir_entry A q))"
  shows "tree_ok A mm' root" and "tables A mm' root = insert q (tables A mm root)"
    and "table_at A mm' root vpn (Suc l) = Some q"
    and "Option.bind (table_at A mm' root v (levels A - 1)) (\<lambda>p. entry_opt A (mm' p (vpn_index A v (levels A - 1))))
      = Option.bind (table_at A mm root v (levels A - 1)) (\<lambda>p. entry_opt A (mm p (vpn_index A v (levels A - 1))))"
proof -
  note da = dir_add [OF ok l p inv q, folded mm'_def]
  have nq: "table_at A mm root v k \<noteq> Some q" if "k < levels A" for v k using tables_at [OF that] q(1) by blast
  show "tree_ok A mm' root"
    unfolding tree_ok_def
  proof (intro allI impI)
    fix k k' v v' r assume "k < levels A" "k' < levels A" "table_at A mm' root v k = Some r" "table_at A mm' root v' k' = Some r"
    then show "k = k' \<and> same_prefix A k v v'"
      using nq [of k v] nq [of k' v'] tree_okD [OF ok, of k k' v r v'] unfolding da [OF \<open>k < levels A\<close>] da [OF \<open>k' < levels A\<close>]
      by (auto simp: same_prefix_def split: if_splits)
  qed
  show new: "table_at A mm' root vpn (Suc l) = Some q" using da [OF l, of vpn] by simp
  have gone: "table_at A mm root v k = None" if pre: "same_prefix A (Suc l) v vpn" and ge: "Suc l \<le> k" for v k
  proof (rule ccontr)
    assume "table_at A mm root v k \<noteq> None"
    then obtain r where "table_at A mm root v (Suc l) = Some r" using table_at_prefix ge by (metis not_Some_eq)
    then have "table_at A mm root vpn (Suc l) = Some r" using table_at_cong [OF pre] by metis
    then show False using p inv by simp
  qed
  show "tables A mm' root = insert q (tables A mm root)"
  proof
    show "tables A mm' root \<subseteq> insert q (tables A mm root)"
    proof
      fix r assume "r \<in> tables A mm' root"
      then obtain v k where r: "k < levels A" "table_at A mm' root v k = Some r" unfolding tables_def by blast
      then show "r \<in> insert q (tables A mm root)"
        using da [OF r(1), of v] tables_at [OF r(1), of mm root v r] by (auto split: if_splits)
    qed
    have "r \<in> tables A mm' root" if "r \<in> tables A mm root" for r
    proof -
      obtain v k where r: "k < levels A" "table_at A mm root v k = Some r" using \<open>r \<in> tables A mm root\<close> unfolding tables_def by blast
      then have "table_at A mm' root v k = Some r" using da [OF r(1), of v] gone [of v k] by auto
      then show ?thesis using tables_at [OF r(1)] by blast
    qed
    moreover have "q \<in> tables A mm' root" using tables_at [OF l new] .
    ultimately show "insert q (tables A mm root) \<subseteq> tables A mm' root" by blast
  qed
  have last: "levels A - 1 < levels A" "Suc l \<le> levels A - 1" using l by auto
  have pq: "p \<noteq> q" using nq [of l vpn] p l by auto
  show "Option.bind (table_at A mm' root v (levels A - 1)) (\<lambda>p. entry_opt A (mm' p (vpn_index A v (levels A - 1))))
      = Option.bind (table_at A mm root v (levels A - 1)) (\<lambda>p. entry_opt A (mm p (vpn_index A v (levels A - 1))))"
  proof (cases "same_prefix A (Suc l) v vpn")
    case True
    have "entry_opt A 0 = None" using empty_invalid by (simp add: entry_opt_def)
    then show ?thesis using da [OF last(1), of v] gone [OF True last(2)] True last(2) pq by (auto simp: mm'_def)
  next
    case False
    have "mm' r = mm r" if "table_at A mm root v (levels A - 1) = Some r" for r
    proof -
      have "r \<noteq> q" using nq [OF last(1)] that by auto
      moreover have "r \<noteq> p" using tree_okD [OF ok last(1) _ that, of l vpn] p l by auto
      ultimately show ?thesis by (simp add: mm'_def)
    qed
    then show ?thesis using da [OF last(1), of v] False by (auto split: option.splits bind_splits)
  qed
qed

end

section \<open>Creating the path to a leaf\<close>

definition space_ok :: "paging_arch \<Rightarrow> (nat set \<Rightarrow> 'f \<Rightarrow> bool) \<Rightarrow> nat set \<Rightarrow> page_table \<Rightarrow> 'f machine \<Rightarrow> bool" where
  "space_ok A src_ok U t m \<longleftrightarrow> tree_ok A (pt_mem m) (root_ppn t) \<and> tables A (pt_mem m) (root_ppn t) \<subseteq> U
     \<and> src_ok U (frame_src m)"

definition on_path :: "paging_arch \<Rightarrow> page_table \<Rightarrow> 'f machine \<Rightarrow> nat \<Rightarrow> nat set" where
  "on_path A t m vpn = {p. \<exists>k<levels A. table_at A (pt_mem m) (root_ppn t) vpn k = Some p}"

text \<open>What an operation on page \<open>vpn\<close> may change: frames on the path of \<open>vpn\<close> and fresh ones.\<close>

definition frame_cond :: "paging_arch \<Rightarrow> nat set \<Rightarrow> nat \<Rightarrow> page_table \<Rightarrow> 'f machine \<Rightarrow> 'f machine \<Rightarrow> bool" where
  "frame_cond A U vpn t m m' \<longleftrightarrow> (\<forall>p\<in>U. p \<notin> on_path A t m vpn \<longrightarrow> pt_mem m' p = pt_mem m p)"

definition created ::
  "paging_arch \<Rightarrow> (nat set \<Rightarrow> 'f \<Rightarrow> bool) \<Rightarrow> bool \<Rightarrow> nat \<Rightarrow> nat set \<Rightarrow> page_table \<Rightarrow> 'f machine
    \<Rightarrow> (mm_error + slot option) \<times> page_table \<times> 'f machine \<Rightarrow> bool" where
  "created A src_ok tr vpn U t m res \<longleftrightarrow> (\<exists>r t' m' U'. res = (r, t', m') \<and> space_ok A src_ok U' t' m' \<and> U \<subseteq> U'
     \<and> root_ppn t' = root_ppn t \<and> (\<forall>v. translate A t' m' v = translate A t m v) \<and> frame_cond A U vpn t m m'
     \<and> on_path A t' m' vpn \<inter> U \<subseteq> on_path A t m vpn
     \<and> tables A (pt_mem m') (root_ppn t) \<inter> U \<subseteq> tables A (pt_mem m) (root_ppn t)
     \<and> (tr \<longrightarrow> tables A (pt_mem m') (root_ppn t) \<subseteq> tables A (pt_mem m) (root_ppn t) \<union> set (pt_frames t'))
     \<and> set (pt_frames t) \<subseteq> set (pt_frames t')
     \<and> (r = Err OutOfMemory \<or> (\<exists>sl. r = Ok (Some sl) \<and> find_pte A t' m' vpn = Some sl)))"

locale page_tables = paging A + frame_source falloc src_ok "2 ^ ppn_bits A"
  for A :: paging_arch and falloc :: "'f falloc" and src_ok :: "nat set \<Rightarrow> 'f \<Rightarrow> bool"
begin

lemma created_refl:
  assumes "space_ok A src_ok U t m" and "r = Err OutOfMemory \<or> (\<exists>sl. r = Ok (Some sl) \<and> find_pte A t m vpn = Some sl)"
  shows "created A src_ok tr vpn U t m (r, t, m)"
  unfolding created_def using assms
  by (intro exI [of _ r] exI [of _ t] exI [of _ m] exI [of _ U]) (auto simp: frame_cond_def)

lemma translate_root: "root_ppn t = root_ppn t' \<Longrightarrow> translate A t m v = translate A t' m v"
  by (simp add: translate_eq)

lemma created_step:
  fixes tr :: bool
  assumes ok: "space_ok A src_ok U t m" and l: "Suc l < levels A" and p: "table_at A (pt_mem m) (root_ppn t) vpn l = Some ppn"
    and inv: "\<not> pte_is_valid A (read_slot m (ppn, vpn_index A vpn l))"
    and a: "alloc_frame falloc m = (Some q, m1)"
  defines "m2 \<equiv> write_slot (ppn, vpn_index A vpn l) (make_dir_entry A q) m1"
    and "t2 \<equiv> (if tr then t\<lparr>pt_frames := pt_frames t @ [q]\<rparr> else t)"
  shows "space_ok A src_ok (insert q U) t2 m2" and "table_at A (pt_mem m2) (root_ppn t) vpn (Suc l) = Some q"
    and "entry_ppn A (read_slot m2 (ppn, vpn_index A vpn l)) = q"
    and "created A src_ok tr vpn (insert q U) t2 m2 res \<Longrightarrow> created A src_ok tr vpn U t m res"
proof -
  have T: "tree_ok A (pt_mem m) (root_ppn t)" "tables A (pt_mem m) (root_ppn t) \<subseteq> U" "src_ok U (frame_src m)"
    using ok by (auto simp: space_ok_def)
  obtain f where f: "falloc (frame_src m) = (Some q, f)" "m1 = m\<lparr>frame_src := f, pt_mem := (pt_mem m)(q := (\<lambda>_. 0))\<rparr>"
    using a by (auto simp: alloc_frame_def split: prod.splits option.splits)
  have q: "q \<notin> U" "0 < q" "q < 2 ^ ppn_bits A" "src_ok (insert q U) f" using source_some [OF T(3) f(1)] by auto
  have pU: "ppn \<in> U" using tables_at [OF _ p] l T(2) by auto
  then have pq: "ppn \<noteq> q" using q(1) by auto
  have qt: "q \<notin> tables A (pt_mem m) (root_ppn t)" using q(1) T(2) by blast
  have mem: "pt_mem m2 = ((pt_mem m)(q := (\<lambda>_. 0)))(ppn := (pt_mem m ppn)(vpn_index A vpn l := make_dir_entry A q))"
    using pq by (simp add: m2_def f(2))
  have rt: "root_ppn t2 = root_ppn t" by (simp add: t2_def)
  note da = dir_add_ok [OF T(1) l p inv [unfolded read_slot_def fst_conv snd_conv] qt q(2,3), folded mem]
  show "space_ok A src_ok (insert q U) t2 m2"
    using da(1,2) T(2) q(4) by (auto simp: space_ok_def rt m2_def f(2))
  show "table_at A (pt_mem m2) (root_ppn t) vpn (Suc l) = Some q" by (rule da(3))
  show "entry_ppn A (read_slot m2 (ppn, vpn_index A vpn l)) = q"
    using dir_entry [OF q(2,3)] by (simp add: read_slot_def mem entry_ppn_bound)
  have tr: "translate A t2 m2 v = translate A t m v" for v unfolding translate_eq rt by (rule da(4))
  have path: "on_path A t2 m2 vpn \<subseteq> insert q (on_path A t m vpn)"
    unfolding on_path_def rt using dir_add [OF T(1) l p inv [unfolded read_slot_def fst_conv snd_conv] qt q(2,3), folded mem]
    by (fastforce split: if_splits)
  have pp: "ppn \<in> on_path A t m vpn" unfolding on_path_def using p l by (intro CollectI exI [of _ l]) simp
  assume "created A src_ok tr vpn (insert q U) t2 m2 res"
  then obtain r t' m' U' where c: "res = (r, t', m')" "space_ok A src_ok U' t' m'" "insert q U \<subseteq> U'" "root_ppn t' = root_ppn t2"
    "\<And>v. translate A t' m' v = translate A t2 m2 v" "frame_cond A (insert q U) vpn t2 m2 m'"
    "on_path A t' m' vpn \<inter> insert q U \<subseteq> on_path A t2 m2 vpn"
    "tr \<longrightarrow> tables A (pt_mem m') (root_ppn t2) \<subseteq> tables A (pt_mem m2) (root_ppn t2) \<union> set (pt_frames t')"
    "set (pt_frames t2) \<subseteq> set (pt_frames t')"
    "r = Err OutOfMemory \<or> (\<exists>sl. r = Ok (Some sl) \<and> find_pte A t' m' vpn = Some sl)"
    and tb: "tables A (pt_mem m') (root_ppn t2) \<inter> insert q U \<subseteq> tables A (pt_mem m2) (root_ppn t2)"
    unfolding created_def by blast
  have "tables A (pt_mem m') (root_ppn t) \<inter> U \<subseteq> tables A (pt_mem m) (root_ppn t)" using tb da(2) rt q(1) by auto
  moreover have "frame_cond A U vpn t m m'"
    unfolding frame_cond_def
  proof (intro ballI impI)
    fix x assume x: "x \<in> U" "x \<notin> on_path A t m vpn"
    then have "x \<noteq> q" "x \<noteq> ppn" using q(1) pp by auto
    then have "pt_mem m2 x = pt_mem m x" by (simp add: mem)
    moreover have "x \<notin> on_path A t2 m2 vpn" using path x(2) \<open>x \<noteq> q\<close> by auto
    ultimately show "pt_mem m' x = pt_mem m x" using c(6) x(1) by (simp add: frame_cond_def)
  qed
  moreover have "on_path A t' m' vpn \<inter> U \<subseteq> on_path A t m vpn" using c(7) path q(1) by blast
  moreover have "set (pt_frames t) \<subseteq> set (pt_frames t')" using c(9) by (auto simp: t2_def split: if_splits)
  moreover have "tr \<longrightarrow> tables A (pt_mem m') (root_ppn t) \<subseteq> tables A (pt_mem m) (root_ppn t) \<union> set (pt_frames t')"
    using c(8,9) da(2) rt by (auto simp: t2_def)
  ultimately show "created A src_ok tr vpn U t m res"
    unfolding created_def using c tr rt
    by (intro exI [of _ r] exI [of _ t'] exI [of _ m'] exI [of _ U']) auto
qed

lemma create_loop:
  assumes "space_ok A src_ok U t m" and "l < levels A" and "table_at A (pt_mem m) (root_ppn t) vpn l = Some ppn"
  shows "created A src_ok tr vpn U t m (find_pte_create_loop A falloc tr vpn [l..<levels A] ppn t m)"
  using assms
proof (induction "levels A - l" arbitrary: l ppn t m U)
  case 0
  then show ?case by simp
next
  case (Suc n)
  have u: "[l..<levels A] = l # [Suc l..<levels A]" using Suc.prems(2) by (simp add: upt_conv_Cons)
  show ?case
  proof (cases "l + 1 = levels A")
    case True
    then have "find_pte A t m vpn = Some (ppn, vpn_index A vpn l)"
      using Suc.prems(3) find_pte_eq [OF levels_pos, of t m vpn] by (metis add_diff_cancel_right' option.map(2))
    then show ?thesis using created_refl [OF Suc.prems(1)] True by (simp add: u Let_def)
  next
    case False
    then have sl: "Suc l < levels A" "n = levels A - Suc l" using Suc.prems(2) Suc.hyps(2) by auto
    show ?thesis
    proof (cases "pte_is_valid A (read_slot m (ppn, vpn_index A vpn l))")
      case True
      then have "table_at A (pt_mem m) (root_ppn t) vpn (Suc l) = Some (entry_ppn A (read_slot m (ppn, vpn_index A vpn l)))"
        using Suc.prems(3) by (simp add: read_slot_def)
      from Suc.hyps(1) [OF sl(2) Suc.prems(1) sl(1) this] show ?thesis using True False by (simp add: u Let_def)
    next
      case inv: False
      obtain a m1 where a: "alloc_frame falloc m = (a, m1)" by (cases "alloc_frame falloc m")
      show ?thesis
      proof (cases a)
        case None
        then have "space_ok A src_ok U t m1" "pt_mem m1 = pt_mem m"
          using a Suc.prems(1) source_none by (auto simp: space_ok_def alloc_frame_def split: prod.splits option.splits)
        then have "created A src_ok tr vpn U t m (Err OutOfMemory, t, m1)"
          unfolding created_def
          by (intro exI [of _ "Err OutOfMemory"] exI [of _ t] exI [of _ m1] exI [of _ U]) (simp add: frame_cond_def translate_eq on_path_def)
        then show ?thesis using None a inv False by (simp add: u Let_def)
      next
        case (Some q)
        note st = created_step [OF Suc.prems(1) sl(1) Suc.prems(3) inv a [unfolded Some]]
        have "root_ppn (if tr then t\<lparr>pt_frames := pt_frames t @ [q]\<rparr> else t) = root_ppn t" by simp
        then show ?thesis
          using st(4) [OF Suc.hyps(1) [OF sl(2) st(1) [where tr = tr] sl(1)]] st(2,3) Some a inv False by (simp add: u Let_def)
      qed
    qed
  qed
qed

end

section \<open>Operations\<close>

datatype pt_op = PtMap nat nat u16 | PtClear nat | PtUpdate nat u16 | PtReplace nat nat u16

fun op_page :: "pt_op \<Rightarrow> nat" where
  "op_page (PtMap vpn _ _) = vpn"
| "op_page (PtClear vpn) = vpn"
| "op_page (PtUpdate vpn _) = vpn"
| "op_page (PtReplace vpn _ _) = vpn"

fun op_ok :: "paging_arch \<Rightarrow> pt_op \<Rightarrow> bool" where
  "op_ok A (PtMap _ ppn fl) \<longleftrightarrow> ppn < 2 ^ ppn_bits A \<and> and fl 0xff = fl"
| "op_ok A (PtClear _) \<longleftrightarrow> True"
| "op_ok A (PtUpdate _ fl) \<longleftrightarrow> and fl 0xff = fl"
| "op_ok A (PtReplace _ ppn fl) \<longleftrightarrow> ppn < 2 ^ ppn_bits A \<and> and fl 0xff = fl"

text \<open>One call, with whether it succeeded.\<close>

fun pt_exec :: "paging_arch \<Rightarrow> 'f falloc \<Rightarrow> pt_op \<Rightarrow> page_table \<Rightarrow> 'f machine \<Rightarrow> bool \<times> page_table \<times> 'f machine" where
  "pt_exec A falloc (PtMap vpn ppn fl) t m = (let (r, t', m') = pt_map A falloc vpn ppn fl t m in (r = Ok (), t', m'))"
| "pt_exec A falloc (PtClear vpn) t m = (let (r, m') = clear_pte A vpn t m in (r \<noteq> None, t, m'))"
| "pt_exec A falloc (PtUpdate vpn fl) t m = (let (r, m') = update_flags A vpn fl t m in (r, t, m'))"
| "pt_exec A falloc (PtReplace vpn ppn fl) t m = (let (r, m') = replace_pte A vpn ppn fl t m in (r, t, m'))"

fun pt_run :: "paging_arch \<Rightarrow> 'f falloc \<Rightarrow> pt_op list \<Rightarrow> page_table \<Rightarrow> 'f machine \<Rightarrow> bool list \<times> page_table \<times> 'f machine" where
  "pt_run A falloc [] t m = ([], t, m)"
| "pt_run A falloc (op # ops) t m =
     (let (ok, t', m') = pt_exec A falloc op t m; (oks, t'', m'') = pt_run A falloc ops t' m' in (ok # oks, t'', m''))"

text \<open>
  The abstract address space: a map from pages to entries. A failed call changes nothing; clearing,
  changing flags and replacing succeed exactly on mapped pages.
\<close>

type_synonym space_map = "nat \<Rightarrow> u64 option"

definition set_page :: "paging_arch \<Rightarrow> nat \<Rightarrow> u64 option \<Rightarrow> space_map \<Rightarrow> space_map" where
  "set_page A vpn x V = (\<lambda>v. if same_page A v vpn then x else V v)"

fun spec_exec :: "paging_arch \<Rightarrow> pt_op \<Rightarrow> bool \<Rightarrow> space_map \<Rightarrow> space_map option" where
  "spec_exec A (PtMap vpn ppn fl) ok V =
     Some (if ok then set_page A vpn (Some (entry_new A ppn (or fl PTE_FLAG_V))) V else V)"
| "spec_exec A (PtClear vpn) ok V =
     (if ok \<longleftrightarrow> V vpn \<noteq> None then Some (if ok then set_page A vpn None V else V) else None)"
| "spec_exec A (PtUpdate vpn fl) ok V =
     (if ok \<longleftrightarrow> V vpn \<noteq> None
      then Some (case V vpn of None \<Rightarrow> V
                 | Some b \<Rightarrow> set_page A vpn (Some (entry_new A (entry_ppn A b) (or fl PTE_FLAG_V))) V) else None)"
| "spec_exec A (PtReplace vpn ppn fl) ok V =
     (if ok \<longleftrightarrow> V vpn \<noteq> None
      then Some (if ok then set_page A vpn (Some (entry_new A ppn (or fl PTE_FLAG_V))) V else V) else None)"

fun spec_run :: "paging_arch \<Rightarrow> pt_op list \<Rightarrow> bool list \<Rightarrow> space_map \<Rightarrow> space_map option" where
  "spec_run A [] [] V = Some V"
| "spec_run A (op # ops) (ok # oks) V = Option.bind (spec_exec A op ok V) (spec_run A ops oks)"
| "spec_run A _ _ V = None"

lemma flags_or_V: "and fl 0xff = (fl::u16) \<Longrightarrow> and (or fl PTE_FLAG_V) 0xff = or fl PTE_FLAG_V"
  "and (or (fl::u16) PTE_FLAG_V) PTE_FLAG_V \<noteq> 0"
proof -
  assume "and fl 0xff = fl"
  then show "and (or fl PTE_FLAG_V) 0xff = or fl PTE_FLAG_V"
    by (simp add: bit.conj_disj_distrib2 PTE_FLAG_V_def)
next
  have "bit (and (or fl PTE_FLAG_V) PTE_FLAG_V) 0" by (simp add: PTE_FLAG_V_def bit_simps)
  then show "and (or fl PTE_FLAG_V) PTE_FLAG_V \<noteq> 0" by auto
qed

definition stepped ::
  "paging_arch \<Rightarrow> (nat set \<Rightarrow> 'f \<Rightarrow> bool) \<Rightarrow> nat \<Rightarrow> nat set \<Rightarrow> page_table \<Rightarrow> 'f machine \<Rightarrow> page_table \<Rightarrow> 'f machine \<Rightarrow> bool" where
  "stepped A src_ok vpn U t m t' m' \<longleftrightarrow> (\<exists>U'. U \<subseteq> U' \<and> space_ok A src_ok U' t' m') \<and> root_ppn t' = root_ppn t
     \<and> frame_cond A U vpn t m m' \<and> tables A (pt_mem m') (root_ppn t') \<inter> U \<subseteq> tables A (pt_mem m) (root_ppn t)
     \<and> tables A (pt_mem m') (root_ppn t') \<subseteq> tables A (pt_mem m) (root_ppn t) \<union> set (pt_frames t')
     \<and> set (pt_frames t) \<subseteq> set (pt_frames t')"

context page_tables
begin

lemma leaf_valid: "ppn < 2 ^ ppn_bits A \<Longrightarrow> and fl 0xff = fl \<Longrightarrow>
    entry_opt A (entry_new A ppn (or fl PTE_FLAG_V)) = Some (entry_new A ppn (or fl PTE_FLAG_V))"
  using leaf_entry flags_or_V by (simp add: entry_opt_def entry_new_def)

lemma slot_on_path:
  assumes "find_pte A t m vpn = Some sl"
  shows "fst sl \<in> on_path A t m vpn"
proof -
  obtain p where "table_at A (pt_mem m) (root_ppn t) vpn (levels A - 1) = Some p" "fst sl = p"
    using assms unfolding find_pte_eq [OF levels_pos] by auto
  then show ?thesis unfolding on_path_def using levels_pos by (intro CollectI exI [of _ "levels A - 1"]) simp
qed

lemma leaf_step:
  assumes ok: "space_ok A src_ok U t m" and sl: "find_pte A t m vpn = Some sl"
  shows "stepped A src_ok vpn U t m t (write_slot sl b m)"
    and "translate A t (write_slot sl b m) = set_page A vpn (entry_opt A b) (translate A t m)"
proof -
  have T: "tree_ok A (pt_mem m) (root_ppn t)" using ok by (simp add: space_ok_def)
  note w = write_leaf [OF T sl, of b]
  have "space_ok A src_ok U t (write_slot sl b m)" using ok w(2,3) unfolding space_ok_def by (simp del: write_slot_mem(1))
  moreover have "frame_cond A U vpn t m (write_slot sl b m)" using slot_on_path [OF sl] by (auto simp: frame_cond_def)
  ultimately show "stepped A src_ok vpn U t m t (write_slot sl b m)"
    unfolding stepped_def using w(3) by blast
  show "translate A t (write_slot sl b m) = set_page A vpn (entry_opt A b) (translate A t m)"
    using w(1) by (auto simp: set_page_def)
qed

lemma stepped_refl: "space_ok A src_ok U t m \<Longrightarrow> stepped A src_ok vpn U t m t m"
  by (auto simp: stepped_def frame_cond_def)

lemma map_step:
  assumes ok: "space_ok A src_ok U t m" and ppn: "ppn < 2 ^ ppn_bits A" "and fl 0xff = fl"
  shows "\<exists>r t' m'. pt_map A falloc vpn ppn fl t m = (r, t', m') \<and> stepped A src_ok vpn U t m t' m'
    \<and> (r = Err OutOfMemory \<and> translate A t' m' = translate A t m
       \<or> r = Ok () \<and> translate A t' m' = set_page A vpn (Some (entry_new A ppn (or fl PTE_FLAG_V))) (translate A t m))"
proof -
  have "created A src_ok True vpn U t m (find_pte_create A falloc vpn t m)"
    unfolding find_pte_create_def using create_loop [OF ok levels_pos, of vpn "root_ppn t" True] by simp
  then obtain r t1 m1 U' where c: "find_pte_create A falloc vpn t m = (r, t1, m1)" "space_ok A src_ok U' t1 m1" "U \<subseteq> U'"
    "root_ppn t1 = root_ppn t" "\<And>v. translate A t1 m1 v = translate A t m v" "frame_cond A U vpn t m m1"
    "on_path A t1 m1 vpn \<inter> U \<subseteq> on_path A t m vpn"
    "tables A (pt_mem m1) (root_ppn t) \<subseteq> tables A (pt_mem m) (root_ppn t) \<union> set (pt_frames t1)"
    "set (pt_frames t) \<subseteq> set (pt_frames t1)"
    "r = Err OutOfMemory \<or> (\<exists>sl. r = Ok (Some sl) \<and> find_pte A t1 m1 vpn = Some sl)"
    and tb: "tables A (pt_mem m1) (root_ppn t) \<inter> U \<subseteq> tables A (pt_mem m) (root_ppn t)"
    unfolding created_def by blast
  have s1: "stepped A src_ok vpn U t m t1 m1" unfolding stepped_def using c tb by auto
  show ?thesis
    using c(10)
  proof
    assume "r = Err OutOfMemory"
    then show ?thesis using c(1,5) s1 by (auto simp: pt_map_def store_leaf_def)
  next
    assume "\<exists>sl. r = Ok (Some sl) \<and> find_pte A t1 m1 vpn = Some sl"
    then obtain sl where sl: "r = Ok (Some sl)" "find_pte A t1 m1 vpn = Some sl" by blast
    let ?b = "entry_new A ppn (or fl PTE_FLAG_V)"
    note l = leaf_step [OF c(2) sl(2), of ?b]
    have "fst sl \<notin> U \<or> fst sl \<in> on_path A t m vpn" using slot_on_path [OF sl(2)] c(7) by blast
    then have "frame_cond A U vpn t m (write_slot sl ?b m1)" using c(6) by (auto simp: frame_cond_def)
    moreover obtain U2 where "U \<subseteq> U2" "space_ok A src_ok U2 t1 (write_slot sl ?b m1)"
      "tables A (pt_mem (write_slot sl ?b m1)) (root_ppn t1) \<subseteq> tables A (pt_mem m1) (root_ppn t1) \<union> set (pt_frames t1)"
      "tables A (pt_mem (write_slot sl ?b m1)) (root_ppn t1) \<inter> U' \<subseteq> tables A (pt_mem m1) (root_ppn t1)"
      using l(1) subset_trans [OF c(3)] unfolding stepped_def by blast
    ultimately have "stepped A src_ok vpn U t m t1 (write_slot sl ?b m1)"
      using c(3,4,8,9) tb unfolding stepped_def by (auto simp del: write_slot_mem)
    moreover have "translate A t1 (write_slot sl ?b m1) = set_page A vpn (Some ?b) (translate A t m)"
      using l(2) leaf_valid [OF ppn] c(5) by (auto simp: set_page_def)
    moreover have "pt_map A falloc vpn ppn fl t m = (Ok (), t1, write_slot sl ?b m1)"
      using c(1) sl(1) by (simp add: pt_map_def store_leaf_def)
    ultimately show ?thesis by blast
  qed
qed

lemma mapped_slot:
  "translate A t m vpn = Some b \<longleftrightarrow> (\<exists>sl. find_pte A t m vpn = Some sl \<and> pte_is_valid A (read_slot m sl) \<and> b = read_slot m sl)"
  by (auto simp: translate_def split: option.splits)

lemma unmapped_slot:
  "translate A t m vpn = None \<longleftrightarrow> (\<forall>sl. find_pte A t m vpn = Some sl \<longrightarrow> \<not> pte_is_valid A (read_slot m sl))"
  by (auto simp: translate_def split: option.splits)

lemma exec_step:
  assumes ok: "space_ok A src_ok U t m" and op: "op_ok A op" and ex: "pt_exec A falloc op t m = (b, t', m')"
  shows "stepped A src_ok (op_page op) U t m t' m' \<and> spec_exec A op b (translate A t m) = Some (translate A t' m')"
proof (cases op)
  case (PtMap vpn ppn fl)
  then show ?thesis using map_step [OF ok, of ppn fl vpn] op ex by auto
next
  case (PtClear vpn)
  show ?thesis
  proof (cases "translate A t m vpn")
    case None
    then have "clear_pte A vpn t m = (None, m)" by (auto simp: clear_pte_def unmapped_slot split: option.splits)
    then show ?thesis using PtClear ex None stepped_refl [OF ok] by auto
  next
    case (Some c)
    then obtain sl where sl: "find_pte A t m vpn = Some sl" "pte_is_valid A (read_slot m sl)" using mapped_slot by blast
    have "entry_opt A 0 = None" using empty_invalid by (simp add: entry_opt_def)
    then show ?thesis using PtClear ex Some sl leaf_step [OF ok sl(1), of 0] by (auto simp: clear_pte_def)
  qed
next
  case (PtUpdate vpn fl)
  show ?thesis
  proof (cases "translate A t m vpn")
    case None
    then have "update_flags A vpn fl t m = (False, m)" by (auto simp: update_flags_def unmapped_slot split: option.splits)
    then show ?thesis using PtUpdate ex None stepped_refl [OF ok] by auto
  next
    case (Some c)
    then obtain sl where sl: "find_pte A t m vpn = Some sl" "pte_is_valid A (read_slot m sl)" "c = read_slot m sl"
      using mapped_slot by blast
    have "entry_ppn A c < 2 ^ ppn_bits A" by (simp add: entry_ppn_def)
    then show ?thesis
      using PtUpdate op ex Some sl leaf_valid [of "entry_ppn A c" fl] leaf_step [OF ok sl(1), of "entry_new A (entry_ppn A c) (or fl PTE_FLAG_V)"]
      by (auto simp: update_flags_def)
  qed
next
  case (PtReplace vpn ppn fl)
  show ?thesis
  proof (cases "translate A t m vpn")
    case None
    then have "replace_pte A vpn ppn fl t m = (False, m)" by (auto simp: replace_pte_def unmapped_slot split: option.splits)
    then show ?thesis using PtReplace ex None stepped_refl [OF ok] by auto
  next
    case (Some c)
    then obtain sl where sl: "find_pte A t m vpn = Some sl" "pte_is_valid A (read_slot m sl)" using mapped_slot by blast
    then show ?thesis
      using PtReplace op ex Some leaf_valid [of ppn fl] leaf_step [OF ok sl(1), of "entry_new A ppn (or fl PTE_FLAG_V)"]
      by (auto simp: replace_pte_def)
  qed
qed

lemma run_refines:
  assumes "space_ok A src_ok U t m" and "list_all (op_ok A) ops" and "pt_run A falloc ops t m = (oks, t', m')"
  shows "(\<exists>U'. U \<subseteq> U' \<and> space_ok A src_ok U' t' m') \<and> spec_run A ops oks (translate A t m) = Some (translate A t' m')
    \<and> tables A (pt_mem m') (root_ppn t') \<subseteq> tables A (pt_mem m) (root_ppn t) \<union> set (pt_frames t')
    \<and> set (pt_frames t) \<subseteq> set (pt_frames t')"
  using assms
proof (induction ops arbitrary: U t m oks)
  case (Cons op ops)
  obtain b t1 m1 where e: "pt_exec A falloc op t m = (b, t1, m1)" by (metis prod_cases3)
  obtain oks' where r: "pt_run A falloc ops t1 m1 = (oks', t', m')" "oks = b # oks'"
    using Cons.prems(3) e by (auto split: prod.splits)
  have x: "stepped A src_ok (op_page op) U t m t1 m1" "spec_exec A op b (translate A t m) = Some (translate A t1 m1)"
    using exec_step [OF Cons.prems(1) _ e] Cons.prems(2) by auto
  then obtain U1 where U1: "U \<subseteq> U1" "space_ok A src_ok U1 t1 m1" "root_ppn t1 = root_ppn t"
    "tables A (pt_mem m1) (root_ppn t1) \<subseteq> tables A (pt_mem m) (root_ppn t) \<union> set (pt_frames t1)"
    "set (pt_frames t) \<subseteq> set (pt_frames t1)"
    unfolding stepped_def by blast
  have "list_all (op_ok A) ops" using Cons.prems(2) by simp
  from Cons.IH [OF U1(2) this r(1)] obtain U' where "U1 \<subseteq> U'" "space_ok A src_ok U' t' m'"
    "spec_run A ops oks' (translate A t1 m1) = Some (translate A t' m')"
    "tables A (pt_mem m') (root_ppn t') \<subseteq> tables A (pt_mem m1) (root_ppn t1) \<union> set (pt_frames t')"
    "set (pt_frames t1) \<subseteq> set (pt_frames t')"
    by blast
  moreover have "U \<subseteq> U'" using calculation(1) U1(1) by blast
  ultimately show ?case using x(2) r(2) U1(4,5) by auto
qed auto

text \<open>A table whose frames are not on the path of the page keeps its contents.\<close>

lemma other_table:
  assumes "\<And>p. p \<in> tables A (pt_mem m) r \<Longrightarrow> pt_mem m' p = pt_mem m p" and "l < levels A"
  shows "table_at A (pt_mem m') r v l = table_at A (pt_mem m) r v l"
  using assms(2)
proof (induction l)
  case (Suc l)
  have "pt_mem m' p = pt_mem m p" if "table_at A (pt_mem m) r v l = Some p" for p
    using assms(1) [OF tables_at [OF _ that]] Suc.prems by simp
  then show ?case using Suc by (auto split: option.splits)
qed simp

end

section \<open>Fresh tables\<close>

context page_tables
begin

lemma new_table:
  assumes "src_ok U (frame_src m)" and "pt_new falloc m = (Ok t, m')"
  shows "space_ok A src_ok (insert (root_ppn t) U) t m'" and "translate A t m' = (\<lambda>_. None)"
    and "tables A (pt_mem m') (root_ppn t) = {root_ppn t}" and "root_ppn t \<notin> U"
    and "\<And>p. p \<in> U \<Longrightarrow> pt_mem m' p = pt_mem m p"
proof -
  obtain q f where q: "falloc (frame_src m) = (Some q, f)" "root_ppn t = q"
    "m' = m\<lparr>frame_src := f, pt_mem := (pt_mem m)(q := (\<lambda>_. 0))\<rparr>"
    using assms(2) by (auto simp: pt_new_def alloc_frame_def split: prod.splits option.splits)
  have s: "q \<notin> U" "src_ok (insert q U) f" using source_some [OF assms(1) q(1)] by auto
  have none: "table_at A (pt_mem m') q v (Suc l) = None" for v l
    by (induction l) (use empty_invalid in \<open>simp_all add: q(3)\<close>)
  have at: "table_at A (pt_mem m') q v l = (if l = 0 then Some q else None)" for v l
    using none by (cases l) auto
  show "tables A (pt_mem m') (root_ppn t) = {root_ppn t}"
    unfolding tables_def q(2) at using levels_pos by auto
  moreover have "tree_ok A (pt_mem m') q" unfolding tree_ok_def at by (auto simp: same_prefix_def split: if_splits)
  ultimately show "space_ok A src_ok (insert (root_ppn t) U) t m'"
    using s q by (simp add: space_ok_def)
  show "translate A t m' = (\<lambda>_. None)"
    unfolding translate_eq q(2) at using empty_invalid by (auto simp: q(3) entry_opt_def)
  show "root_ppn t \<notin> U" "\<And>p. p \<in> U \<Longrightarrow> pt_mem m' p = pt_mem m p" using s(1) q by auto
qed

lemma new_run_refines:
  assumes "src_ok U (frame_src m0)" and "pt_new falloc m0 = (Ok t, m)" and "list_all (op_ok A) ops"
    and "pt_run A falloc ops t m = (oks, t', m')"
  shows "spec_run A ops oks (\<lambda>_. None) = Some (translate A t' m')
    \<and> tables A (pt_mem m') (root_ppn t') \<subseteq> insert (root_ppn t) (set (pt_frames t'))"
  using run_refines [OF new_table(1) [OF assms(1,2)] assms(3,4)] new_table(2,3) [OF assms(1,2)] by auto

end

section \<open>Two address spaces\<close>

text \<open>Calls on two page tables in any order, on the one memory and frame allocator.\<close>

fun pt_run2 :: "paging_arch \<Rightarrow> 'f falloc \<Rightarrow> (bool \<times> pt_op) list \<Rightarrow> page_table \<Rightarrow> page_table \<Rightarrow> 'f machine
    \<Rightarrow> bool list \<times> page_table \<times> page_table \<times> 'f machine" where
  "pt_run2 A falloc [] t1 t2 m = ([], t1, t2, m)"
| "pt_run2 A falloc ((b, op) # ops) t1 t2 m =
     (let (ok, t', m') = pt_exec A falloc op (if b then t1 else t2) m;
          (oks, t1', t2', m'') = pt_run2 A falloc ops (if b then t' else t1) (if b then t2 else t') m'
      in (ok # oks, t1', t2', m''))"

definition ops_of :: "bool \<Rightarrow> (bool \<times> pt_op) list \<Rightarrow> pt_op list" where
  "ops_of b ops = map snd (filter (\<lambda>(b', _). b' = b) ops)"

definition oks_of :: "bool \<Rightarrow> (bool \<times> pt_op) list \<Rightarrow> bool list \<Rightarrow> bool list" where
  "oks_of b ops oks = map snd (filter (\<lambda>((b', _), _). b' = b) (zip ops oks))"

lemma ops_of_simps [simp]: "ops_of b [] = []" "ops_of b ((c, op) # ops) = (if c = b then op # ops_of b ops else ops_of b ops)"
  "oks_of b [] oks = []" "oks_of b ((c, op) # ops) (ok # oks) = (if c = b then ok # oks_of b ops oks else oks_of b ops oks)"
  by (auto simp: ops_of_def oks_of_def)

definition apart :: "paging_arch \<Rightarrow> (nat set \<Rightarrow> 'f \<Rightarrow> bool) \<Rightarrow> nat set \<Rightarrow> page_table \<Rightarrow> page_table \<Rightarrow> 'f machine \<Rightarrow> bool" where
  "apart A src_ok U t1 t2 m \<longleftrightarrow> space_ok A src_ok U t1 m \<and> space_ok A src_ok U t2 m
     \<and> tables A (pt_mem m) (root_ppn t1) \<inter> tables A (pt_mem m) (root_ppn t2) = {}"

lemma apart_sym: "apart A src_ok U t1 t2 m \<Longrightarrow> apart A src_ok U t2 t1 m" by (auto simp: apart_def)

context page_tables
begin

lemma space_ok_other:
  assumes "space_ok A src_ok U t m" and "src_ok U' (frame_src m')" and "U \<subseteq> U'"
    and same: "\<And>p. p \<in> tables A (pt_mem m) (root_ppn t) \<Longrightarrow> pt_mem m' p = pt_mem m p"
  shows "space_ok A src_ok U' t m'" and "tables A (pt_mem m') (root_ppn t) = tables A (pt_mem m) (root_ppn t)"
    and "translate A t m' = translate A t m"
proof -
  have at: "table_at A (pt_mem m') (root_ppn t) v l = table_at A (pt_mem m) (root_ppn t) v l" if "l < levels A" for v l
    using other_table same that by blast
  note c = tree_ok_cong [OF at]
  show "space_ok A src_ok U' t m'" using assms(1-3) c by (auto simp: space_ok_def)
  show "tables A (pt_mem m') (root_ppn t) = tables A (pt_mem m) (root_ppn t)" by (rule c(2))
  have last: "levels A - 1 < levels A" using levels_pos by simp
  show "translate A t m' = translate A t m"
  proof
    fix v
    show "translate A t m' v = translate A t m v"
      unfolding translate_eq at [OF last]
      using same [OF tables_at [OF last]] by (cases "table_at A (pt_mem m) (root_ppn t) v (levels A - 1)") simp_all
  qed
qed

lemma apart_step:
  assumes ap: "apart A src_ok U t1 t2 m" and op: "op_ok A op" and ex: "pt_exec A falloc op t1 m = (b, t1', m')"
  shows "\<exists>U'. U \<subseteq> U' \<and> apart A src_ok U' t1' t2 m'" and "translate A t2 m' = translate A t2 m"
    and "spec_exec A op b (translate A t1 m) = Some (translate A t1' m')"
proof -
  have ok: "space_ok A src_ok U t1 m" "space_ok A src_ok U t2 m"
    "tables A (pt_mem m) (root_ppn t1) \<inter> tables A (pt_mem m) (root_ppn t2) = {}" using ap by (auto simp: apart_def)
  note e = exec_step [OF ok(1) op ex]
  then obtain U' where U': "U \<subseteq> U'" "space_ok A src_ok U' t1' m'" "frame_cond A U (op_page op) t1 m m'"
    "tables A (pt_mem m') (root_ppn t1') \<inter> U \<subseteq> tables A (pt_mem m) (root_ppn t1)"
    unfolding stepped_def by blast
  have T2: "tables A (pt_mem m) (root_ppn t2) \<subseteq> U" using ok(2) by (simp add: space_ok_def)
  have "on_path A t1 m (op_page op) \<subseteq> tables A (pt_mem m) (root_ppn t1)" by (auto simp: on_path_def tables_def)
  then have same: "pt_mem m' p = pt_mem m p" if "p \<in> tables A (pt_mem m) (root_ppn t2)" for p
    using that U'(3) T2 ok(3) unfolding frame_cond_def by blast
  have "src_ok U' (frame_src m')" using U'(2) by (simp add: space_ok_def)
  note o = space_ok_other [OF ok(2) this U'(1) same]
  have "apart A src_ok U' t1' t2 m'" unfolding apart_def using U'(2,4) o(1,2) T2 ok(3) by auto
  then show "\<exists>U'. U \<subseteq> U' \<and> apart A src_ok U' t1' t2 m'" using U'(1) by blast
  show "translate A t2 m' = translate A t2 m" by (rule o(3))
  show "spec_exec A op b (translate A t1 m) = Some (translate A t1' m')" using e by simp
qed

lemma run2_refines:
  assumes "apart A src_ok U t1 t2 m" and "list_all (\<lambda>(_, op). op_ok A op) ops" and "pt_run2 A falloc ops t1 t2 m = (oks, t1', t2', m')"
  shows "spec_run A (ops_of True ops) (oks_of True ops oks) (translate A t1 m) = Some (translate A t1' m')
    \<and> spec_run A (ops_of False ops) (oks_of False ops oks) (translate A t2 m) = Some (translate A t2' m')"
  using assms
proof (induction ops arbitrary: U t1 t2 m oks)
  case (Cons o1 ops)
  obtain b op where o1: "o1 = (b, op)" by force
  obtain ok t m1 where e: "pt_exec A falloc op (if b then t1 else t2) m = (ok, t, m1)" by (metis prod_cases3)
  obtain oks' where r: "pt_run2 A falloc ops (if b then t else t1) (if b then t2 else t) m1 = (oks', t1', t2', m')" "oks = ok # oks'"
    using Cons.prems(3) e by (auto simp: o1 split: prod.splits)
  have op: "op_ok A op" "list_all (\<lambda>(_, op). op_ok A op) ops" using Cons.prems(2) by (auto simp: o1)
  show ?case
  proof (cases b)
    case True
    note s = apart_step [OF Cons.prems(1) op(1), of ok t m1]
    obtain U1 where "apart A src_ok U1 t t2 m1" using s(1) e True by auto
    then show ?thesis using Cons.IH [OF _ op(2), of U1 t t2 m1 oks'] s(2,3) e r True by (simp add: o1)
  next
    case False
    note s = apart_step [OF apart_sym [OF Cons.prems(1)] op(1), of ok t m1]
    obtain U1 where "apart A src_ok U1 t1 t m1" using s(1) e False apart_sym by fastforce
    then show ?thesis using Cons.IH [OF _ op(2), of U1 t1 t m1 oks'] s(2,3) e r False by (simp add: o1)
  qed
qed auto

lemma new_apart:
  assumes "src_ok U (frame_src m0)" and "pt_new falloc m0 = (Ok t1, m1)" and "pt_new falloc m1 = (Ok t2, m2)"
  shows "\<exists>U'. apart A src_ok U' t1 t2 m2" and "translate A t1 m2 = (\<lambda>_. None)" and "translate A t2 m2 = (\<lambda>_. None)"
proof -
  note n1 = new_table [OF assms(1,2)]
  have src: "src_ok (insert (root_ppn t1) U) (frame_src m1)" using n1(1) by (simp add: space_ok_def)
  note n2 = new_table [OF src assms(3)]
  have same: "pt_mem m2 p = pt_mem m1 p" if "p \<in> tables A (pt_mem m1) (root_ppn t1)" for p using n2(5) that n1(3) by simp
  have "src_ok (insert (root_ppn t2) (insert (root_ppn t1) U)) (frame_src m2)" using n2(1) by (simp add: space_ok_def)
  note o = space_ok_other [OF n1(1) this subset_insertI same]
  show "\<exists>U'. apart A src_ok U' t1 t2 m2" unfolding apart_def using n2(1,3,4) o(1,2) n1(3) by auto
  show "translate A t1 m2 = (\<lambda>_. None)" "translate A t2 m2 = (\<lambda>_. None)" using o(3) n1(2) n2(2) by simp_all
qed

end

end
