(* ===== verification/User_Buffers.thy ===== *)
theory User_Buffers
  imports Address_Space
begin

text \<open>
  The buffers and strings that system calls read and write through a page table: the page-wise
  slices of \<open>translated_byte_buffer\<close> against the translation of every single address.
\<close>

section \<open>User buffers\<close>

definition slice_addrs :: "slice \<Rightarrow> nat list" where
  "slice_addrs sl = (case sl of (p, a, b) \<Rightarrow> map (\<lambda>i. p * 4096 + i) [a..<b])"

text \<open>The reference: every address translated on its own.\<close>

definition user_addr :: "paging_arch \<Rightarrow> page_table \<Rightarrow> 'f machine \<Rightarrow> nat \<Rightarrow> nat option" where
  "user_addr A t m va = map_option (\<lambda>pte. entry_ppn A pte * 4096 + va mod 4096) (translate A t m (va div 4096))"

lemma upt_split: "i \<le> j \<Longrightarrow> j \<le> k \<Longrightarrow> [i..<k] = [i..<j] @ [j..<k]"
  using upt_add_eq_append [of i j "k - j"] by simp

lemma map_shift_upt: "map (\<lambda>i. n + i) [a..<b] = [n + a..<n + b]"
  by (induction b) auto

lemma those_append: "those (xs @ ys) = Option.bind (those xs) (\<lambda>a. map_option (\<lambda>b. a @ b) (those ys))"
  by (cases "those ys"; induction xs) (auto split: option.splits bind_splits)

lemma those_map_Some: "(\<And>x. x \<in> set xs \<Longrightarrow> f x = Some (g x)) \<Longrightarrow> those (map f xs) = Some (map g xs)"
  by (induction xs) auto

lemma those_None: "x \<in> set xs \<Longrightarrow> f x = None \<Longrightarrow> those (map f xs) = None"
  by (induction xs) (auto split: option.splits)

lemma chunk:
  fixes start e :: nat
  assumes "start < e"
  defines "ce \<equiv> min ((start div 4096 + 1) * 4096) e"
  shows "start < ce" and "ce \<le> e" and "\<And>va. start \<le> va \<Longrightarrow> va < ce \<Longrightarrow> va div 4096 = start div 4096"
    and "[start..<ce] = map (\<lambda>i. 4096 * (start div 4096) + i) [start mod 4096..<(if ce mod 4096 = 0 then 4096 else ce mod 4096)]"
proof -
  let ?d = "start div 4096"
  have b: "4096 * ?d + start mod 4096 = start" "start mod 4096 < 4096" by simp_all
  have lt: "start < (?d + 1) * 4096" using b by simp
  then show c: "start < ce" "ce \<le> e" using assms by (auto simp: ce_def)
  have up: "ce \<le> 4096 * ?d + 4096" by (simp add: ce_def min_def)
  show "va div 4096 = ?d" if "start \<le> va" "va < ce" for va
  proof (rule div_nat_eqI)
    show "4096 * ?d \<le> va" using that b by linarith
    show "va < 4096 * Suc ?d" using that up by simp
  qed
  have e: "4096 * ?d + (if ce mod 4096 = 0 then 4096 else ce mod 4096) = ce"
  proof (cases "ce = 4096 * ?d + 4096")
    case True
    then show ?thesis by simp
  next
    case False
    then have "ce < 4096 * Suc ?d" "4096 * ?d \<le> ce" using up c b by (simp, linarith)
    then have "ce div 4096 = ?d" by (intro div_nat_eqI) simp_all
    then have eq: "ce = 4096 * ?d + ce mod 4096" using mult_div_mod_eq [of 4096 ce] by simp
    have "ce mod 4096 \<noteq> 0"
    proof
      assume "ce mod 4096 = 0"
      then show False using eq c(1) b(1) by linarith
    qed
    then show ?thesis using eq by simp
  qed
  have "map (\<lambda>i. 4096 * ?d + i) [start mod 4096..<(if ce mod 4096 = 0 then 4096 else ce mod 4096)]
      = [4096 * ?d + start mod 4096..<4096 * ?d + (if ce mod 4096 = 0 then 4096 else ce mod 4096)]"
    by (rule map_shift_upt)
  then show "[start..<ce] = map (\<lambda>i. 4096 * ?d + i) [start mod 4096..<(if ce mod 4096 = 0 then 4096 else ce mod 4096)]"
    unfolding e b(1) by simp
qed

lemma translated_slices_spec:
  assumes "e \<le> user_space_end A"
  shows "map_option (\<lambda>v. concat (map slice_addrs v)) (translated_slices A t m start e v) =
    map_option (\<lambda>xs. concat (map slice_addrs v) @ xs) (those (map (user_addr A t m) [start..<e]))"
  using assms
proof (induction A t m start e v rule: translated_slices.induct)
  case (1 A t m start e v)
  show ?case
  proof (cases "start < e")
    case False
    then show ?thesis by (simp add: translated_slices.simps [of A t m start e v])
  next
    case True
    define ce where "ce = min ((start div 4096 + 1) * 4096) e"
    note ch = chunk [OF True, folded ce_def]
    have app: "[start..<e] = [start..<ce] @ [ce..<e]" using upt_split [of start ce e] ch(1,2) by simp
    have va: "checked_user_va A start = Some start" using True "1.prems" by (simp add: checked_user_va_def)
    show ?thesis
    proof (cases "translate A t m (start div 4096)")
      case None
      have "those (map (user_addr A t m) [start..<ce]) = None"
        using ch(1) by (intro those_None [of start]) (simp_all add: user_addr_def None)
      then have "those (map (user_addr A t m) [start..<e]) = None" unfolding app map_append those_append by simp
      moreover have "translated_slices A t m start e v = None" by (subst translated_slices.simps) (simp add: True va None)
      ultimately show ?thesis by simp
    next
      case (Some pte)
      define sl where "sl = (if ce mod 4096 = 0 then (entry_ppn A pte, start mod 4096, 4096)
        else (entry_ppn A pte, start mod 4096, ce mod 4096))"
      have "those (map (user_addr A t m) [start..<ce]) = Some (map (\<lambda>va. entry_ppn A pte * 4096 + va mod 4096) [start..<ce])"
      proof (rule those_map_Some)
        fix x assume "x \<in> set [start..<ce]"
        then have "x div 4096 = start div 4096" by (intro ch(3)) simp_all
        then show "user_addr A t m x = Some (entry_ppn A pte * 4096 + x mod 4096)" by (simp only: user_addr_def Some option.map)
      qed
      also have "map (\<lambda>va. entry_ppn A pte * 4096 + va mod 4096) [start..<ce] = slice_addrs sl"
        unfolding ch(4) slice_addrs_def sl_def by auto
      finally have sl: "those (map (user_addr A t m) [start..<ce]) = Some (slice_addrs sl)" .
      have "translated_slices A t m start e v = translated_slices A t m ce e (v @ [sl])"
        by (subst translated_slices.simps) (simp only: True va Some option.case if_True Let_def ce_def [symmetric] sl_def [symmetric])
      moreover have "those (map (user_addr A t m) [start..<e]) =
          map_option (\<lambda>b. slice_addrs sl @ b) (those (map (user_addr A t m) [ce..<e]))"
        unfolding app map_append those_append sl by simp
      ultimately show ?thesis
        using "1.IH" [OF True va Some ce_def sl_def "1.prems"] by (simp add: option.map_comp comp_def)
    qed
  qed
qed

text \<open>The byte that a user address reads as, and the zero-terminated string at an address.\<close>

definition user_byte :: "paging_arch \<Rightarrow> page_table \<Rightarrow> (nat \<Rightarrow> u8) \<Rightarrow> 'f machine \<Rightarrow> nat \<Rightarrow> u8 option" where
  "user_byte A t bytes m va = (if va < user_space_end A then map_option bytes (translate_va A t m va) else None)"

fun cstr_at :: "(nat \<Rightarrow> u8 option) \<Rightarrow> nat \<Rightarrow> u8 list \<Rightarrow> bool" where
  "cstr_at get va [] \<longleftrightarrow> get va = Some 0"
| "cstr_at get va (b # w) \<longleftrightarrow> b \<noteq> 0 \<and> get va = Some b \<and> cstr_at get (va + 1) w"

definition latin1_utf8 :: "u8 list \<Rightarrow> u8 list" where
  "latin1_utf8 w = concat (map char_utf8 w)"

lemma latin1_utf8_same: "latin1_utf8 w = w \<longleftrightarrow> list_all (\<lambda>b. b < 0x80) w"
proof -
  have len: "length w \<le> length (latin1_utf8 w)" for w by (induction w) (auto simp: latin1_utf8_def char_utf8_def)
  show ?thesis
  proof (induction w)
    case (Cons b w)
    have "length (latin1_utf8 (b # w)) = length (latin1_utf8 w) + (if b < 0x80 then 1 else 2)" by (simp add: latin1_utf8_def char_utf8_def)
    then have "latin1_utf8 (b # w) \<noteq> b # w" if "\<not> b < 0x80" using len [of w] that by (auto dest!: arg_cong [where f = length])
    then show ?case using Cons by (auto simp: latin1_utf8_def char_utf8_def)
  qed (simp add: latin1_utf8_def)
qed

lemma cstr_at_unique: "cstr_at get va w \<Longrightarrow> cstr_at get va w' \<Longrightarrow> w' = w"
proof (induction w arbitrary: va w')
  case Nil
  then show ?case by (cases w') auto
next
  case (Cons b w)
  then show ?case by (cases w') auto
qed

lemma translated_str_spec:
  assumes "user_space_end A \<le> usize_max"
  shows "translated_str_loop A t bytes m va acc = Some s \<longleftrightarrow> (\<exists>w. s = acc @ latin1_utf8 w \<and> cstr_at (user_byte A t bytes m) va w)"
  using assms
proof (induction A t bytes m va acc rule: translated_str_loop.induct)
  case (1 A t bytes m va acc)
  note loop = translated_str_loop.simps [of A t bytes m va acc]
  show ?case
  proof (cases "user_byte A t bytes m va")
    case None
    then have "translated_str_loop A t bytes m va acc = None"
      by (auto simp: user_byte_def checked_user_va_def loop split: if_splits)
    moreover have "\<not> cstr_at (user_byte A t bytes m) va w" for w using None by (cases w) auto
    ultimately show ?thesis by simp
  next
    case (Some c)
    then obtain pa where pa: "va < user_space_end A" "translate_va A t m va = Some pa" "c = bytes pa"
      by (auto simp: user_byte_def split: if_splits)
    have va: "checked_user_va A va = Some va" using pa by (simp add: checked_user_va_def)
    show ?thesis
    proof (cases "c = 0")
      case True
      moreover have "cstr_at (user_byte A t bytes m) va w \<longleftrightarrow> w = []" for w using Some True by (cases w) auto
      ultimately show ?thesis using pa va by (auto simp: loop latin1_utf8_def)
    next
      case False
      have unroll: "(\<exists>w. s = acc @ latin1_utf8 w \<and> cstr_at (user_byte A t bytes m) va w)
          \<longleftrightarrow> (\<exists>w. s = (acc @ char_utf8 c) @ latin1_utf8 w \<and> cstr_at (user_byte A t bytes m) (va + 1) w)"
      proof
        assume "\<exists>w. s = acc @ latin1_utf8 w \<and> cstr_at (user_byte A t bytes m) va w"
        then obtain w where w: "s = acc @ latin1_utf8 w" "cstr_at (user_byte A t bytes m) va w" by blast
        then obtain w' where "w = c # w'" using Some False by (cases w) auto
        then show "\<exists>w. s = (acc @ char_utf8 c) @ latin1_utf8 w \<and> cstr_at (user_byte A t bytes m) (va + 1) w" using w by (auto simp: latin1_utf8_def)
      next
        assume "\<exists>w. s = (acc @ char_utf8 c) @ latin1_utf8 w \<and> cstr_at (user_byte A t bytes m) (va + 1) w"
        then obtain w where "s = acc @ latin1_utf8 (c # w)" "cstr_at (user_byte A t bytes m) va (c # w)" using Some False by (auto simp: latin1_utf8_def)
        then show "\<exists>w. s = acc @ latin1_utf8 w \<and> cstr_at (user_byte A t bytes m) va w" by blast
      qed
      show ?thesis
      proof (cases "va + 1 < user_space_end A")
        case True
        then have "\<not> va + 1 > usize_max" "\<not> va + 1 \<ge> user_space_end A" using "1.prems" by auto
        then show ?thesis
          unfolding unroll using "1.IH" [OF va pa(2) _ _ _ "1.prems"] False pa va by (simp add: loop)
      next
        case out: False
        have "\<not> cstr_at (user_byte A t bytes m) (va + 1) w" for w using out by (cases w) (auto simp: user_byte_def)
        moreover have "translated_str_loop A t bytes m va acc = None" using out False pa va by (simp add: loop)
        ultimately show ?thesis unfolding unroll by simp
      qed
    qed
  qed
qed

section \<open>Walking a buffer\<close>

lemma those_length: "those xs = Some ys \<Longrightarrow> length ys = length xs"
  by (induction xs arbitrary: ys) (auto split: option.splits)

lemma user_buffer_len_sum: "user_buffer_len v = length (concat (map slice_addrs v))"
proof -
  have "foldl (\<lambda>total b. total + slice_len b) n v = n + length (concat (map slice_addrs v))" for n
    by (induction v arbitrary: n) (auto simp: slice_len_def slice_addrs_def)
  then show ?thesis by (simp add: user_buffer_len_def)
qed

lemma translated_slices_nonempty:
  assumes "translated_slices A t m start e v = Some v'" and "e \<le> user_space_end A" and "\<forall>sl\<in>set v. 0 < slice_len sl"
  shows "\<forall>sl\<in>set v'. 0 < slice_len sl"
  using assms
proof (induction A t m start e v rule: translated_slices.induct)
  case (1 A t m start e v)
  show ?case
  proof (cases "start < e")
    case False
    then show ?thesis using 1 by (simp add: translated_slices.simps [of A t m start e v])
  next
    case True
    define ce where "ce = min ((start div 4096 + 1) * 4096) e"
    have va: "checked_user_va A start = Some start" using True "1.prems"(2) by (simp add: checked_user_va_def)
    obtain pte where pte: "translate A t m (start div 4096) = Some pte"
      using "1.prems"(1) True va by (subst (asm) translated_slices.simps) (auto split: option.splits)
    define sl where "sl = (if ce mod 4096 = 0 then (entry_ppn A pte, start mod 4096, 4096)
        else (entry_ppn A pte, start mod 4096, ce mod 4096))"
    have rec: "translated_slices A t m ce e (v @ [sl]) = Some v'"
      using "1.prems"(1) by (subst (asm) translated_slices.simps)
        (simp only: True va pte option.case if_True Let_def ce_def [symmetric] sl_def [symmetric])
    note ch = chunk [OF True, folded ce_def]
    have "start mod 4096 < (if ce mod 4096 = 0 then 4096 else ce mod 4096)"
    proof (rule ccontr)
      assume "\<not> start mod 4096 < (if ce mod 4096 = 0 then 4096 else ce mod 4096)"
      then have "[start mod 4096..<(if ce mod 4096 = 0 then 4096 else ce mod 4096)] = []" by (simp only: upt_conv_Nil not_less)
      then have "[start..<ce] = []" using ch(4) by (simp only: list.map)
      then show False using ch(1) by simp
    qed
    moreover have "slice_len sl = (if ce mod 4096 = 0 then 4096 else ce mod 4096) - start mod 4096"
      unfolding sl_def slice_len_def by (cases "ce mod 4096 = 0") (simp_all only: if_True if_False prod.case refl)
    ultimately have "0 < slice_len sl" by (simp only: zero_less_diff)
    then have "\<forall>x\<in>set (v @ [sl]). 0 < slice_len x" using "1.prems"(3) by simp
    from "1.IH" [OF True va pte ce_def sl_def rec "1.prems"(2) this] show ?thesis .
  qed
qed

lemma slice_index_addrs: "i < slice_len sl \<Longrightarrow> slice_index sl i = Some (slice_addrs sl ! i)"
  by (auto simp: slice_index_def slice_addrs_def slice_len_def split: prod.splits)

lemma slice_addrs_length [simp]: "length (slice_addrs sl) = slice_len sl"
  by (auto simp: slice_addrs_def slice_len_def split: prod.splits)

lemma user_buffer_walk_spec:
  assumes "\<forall>sl\<in>set v. 0 < slice_len sl" and "k < length v \<Longrightarrow> i < slice_len (v ! k)" and "k \<ge> length v \<Longrightarrow> i = 0"
  shows "user_buffer_walk \<lparr>ub_buffers = v, current_buffer = k, current_idx = i\<rparr> seen
    = Some (seen @ drop i (concat (map slice_addrs (drop k v))))"
  using assms(2,3)
proof (induction "length (drop i (concat (map slice_addrs (drop k v))))" arbitrary: k i seen rule: less_induct)
  case less
  let ?it = "\<lparr>ub_buffers = v, current_buffer = k, current_idx = i\<rparr>"
  show ?case
  proof (cases "k < length v")
    case False
    then have "user_buffer_next ?it = Some (None, ?it)" by (simp add: user_buffer_next_def)
    then show ?thesis using False less.prems by (subst user_buffer_walk.simps) simp
  next
    case True
    note i = less.prems(1) [OF True]
    define rest where "rest = concat (map slice_addrs (drop (Suc k) v))"
    have dr: "concat (map slice_addrs (drop k v)) = slice_addrs (v ! k) @ rest"
      using True by (simp add: Cons_nth_drop_Suc [symmetric] rest_def)
    have unfold: "drop i (slice_addrs (v ! k) @ rest) = slice_addrs (v ! k) ! i # drop (Suc i) (slice_addrs (v ! k) @ rest)"
      using i by (simp add: Cons_nth_drop_Suc [symmetric])
    show ?thesis
    proof (cases "i + 1 = slice_len (v ! k)")
      case last: True
      have "user_buffer_next ?it = Some (Some (slice_addrs (v ! k) ! i), \<lparr>ub_buffers = v, current_buffer = Suc k, current_idx = 0\<rparr>)"
        using True last i by (simp add: user_buffer_next_def slice_index_addrs idx_def)
      moreover have "drop (Suc i) (slice_addrs (v ! k) @ rest) = rest" using last by simp
      moreover have "user_buffer_walk \<lparr>ub_buffers = v, current_buffer = Suc k, current_idx = 0\<rparr> (seen @ [slice_addrs (v ! k) ! i])
          = Some ((seen @ [slice_addrs (v ! k) ! i]) @ drop 0 (concat (map slice_addrs (drop (Suc k) v))))"
        using assms(1) last i unfolding dr by (intro less.hyps) (auto simp: dr rest_def)
      ultimately show ?thesis by (subst user_buffer_walk.simps) (simp add: dr unfold [unfolded rest_def] rest_def del: drop_append)
    next
      case more: False
      have "user_buffer_next ?it = Some (Some (slice_addrs (v ! k) ! i), \<lparr>ub_buffers = v, current_buffer = k, current_idx = Suc i\<rparr>)"
        using True more i by (simp add: user_buffer_next_def slice_index_addrs idx_def)
      moreover have "user_buffer_walk \<lparr>ub_buffers = v, current_buffer = k, current_idx = Suc i\<rparr> (seen @ [slice_addrs (v ! k) ! i])
          = Some ((seen @ [slice_addrs (v ! k) ! i]) @ drop (Suc i) (concat (map slice_addrs (drop k v))))"
        using more i True by (intro less.hyps) (auto simp: dr)
      ultimately show ?thesis by (subst user_buffer_walk.simps) (simp add: dr unfold del: drop_append)
    qed
  qed
qed

section \<open>Properties\<close>

text \<open>
  C26. \<open>translated_byte_buffer\<close> succeeds exactly when the range lies in user space and every address of it is mapped. The
  buffer then has the requested length, and walking it never indexes out of a slice and visits the physical
  addresses of the range one by one, in order: the page-wise slices are the address-wise translation.
\<close>

theorem user_buffer_exact:
  "map_option (\<lambda>v. (user_buffer_len v, user_buffer_walk (user_buffer_into_iter v) [])) (translated_byte_buffer A token ptr len m) =
    (if len = 0 \<or> ptr + len \<le> user_space_end A \<and> ptr + len \<le> usize_max
     then map_option (\<lambda>xs. (len, Some xs)) (those (map (user_addr A (from_token A token) m) [ptr..<ptr + len]))
     else None)"
proof (cases "len = 0 \<or> ptr + len \<le> user_space_end A \<and> ptr + len \<le> usize_max")
  case False
  then have "checked_user_range A ptr len = None" by (auto simp: checked_user_range_def)
  then show ?thesis using False by (auto simp: translated_byte_buffer_def)
next
  case True
  let ?t = "from_token A token"
  have len: "length xs = len" if "those (map (user_addr A ?t m) [ptr..<ptr + len]) = Some xs" for xs
    using those_length [OF that] by simp
  show ?thesis
  proof (cases "len = 0")
    case True
    then show ?thesis
      by (simp add: translated_byte_buffer_def checked_user_range_def translated_slices.simps [of A _ m ptr ptr]
          user_buffer_len_def user_buffer_into_iter_def user_buffer_walk.simps [of "\<lparr>ub_buffers = [], current_buffer = 0, current_idx = 0\<rparr>"] user_buffer_next_def)
  next
    case pos: False
    then have r: "checked_user_range A ptr len = Some (ptr + len)" and e: "ptr + len \<le> user_space_end A"
      using True by (auto simp: checked_user_range_def)
    note sp = translated_slices_spec [OF e, of ?t m ptr "[]"]
    show ?thesis
    proof (cases "translated_slices A ?t m ptr (ptr + len) []")
      case None
      then show ?thesis using sp r True by (simp add: translated_byte_buffer_def)
    next
      case (Some v)
      have ne: "\<forall>sl\<in>set v. 0 < slice_len sl" using translated_slices_nonempty [OF Some e] by simp
      have "user_buffer_walk (user_buffer_into_iter v) [] = Some (concat (map slice_addrs v))"
        using user_buffer_walk_spec [OF ne, of 0 0 "[]"] ne by (cases v) (auto simp: user_buffer_into_iter_def)
      moreover have "those (map (user_addr A ?t m) [ptr..<ptr + len]) = Some (concat (map slice_addrs v))" using sp Some by (simp add: option.map_ident)
      ultimately show ?thesis using r True Some len by (simp add: translated_byte_buffer_def user_buffer_len_sum)
    qed
  qed
qed

definition example_machine :: "unit machine" where
  "example_machine = \<lparr>pt_mem = (\<lambda>p i. if i = 0 then make_pte sv39 (p + 1) (if p < 3 then 1 else 0x1f) else 0), frame_src = ()\<rparr>"

lemma example_translate:
  "translate sv39 (from_token sv39 1) example_machine 0 = Some (make_pte sv39 4 0x1f)" and example_ppn: "entry_ppn sv39 (make_pte sv39 4 0x1f) = 4"
proof -
  have u: "[0..<levels sv39] = [0, 1, 2]" by (simp add: sv39_def upt_conv_Cons)
  have r: "root_ppn (from_token sv39 1) = 1" by (simp add: from_token_def sv39_def sv39_root_ppn_def ppn_bits_def)
  have lv: "levels sv39 = 3" by (simp add: sv39_def)
  have i: "vpn_index sv39 0 k = 0" for k by (simp add: sv39_def sv39_vpn_index_def)
  have l: "pte_is_valid sv39 (make_pte sv39 p f) \<and> entry_ppn sv39 (make_pte sv39 p f) = p" if "p < 8" "f \<in> {1, 0x1f}" for p f
    using that sv39.leaf_entry [of p f] by (auto simp: sv39_def ppn_bits_def PTE_FLAG_V_def entry_ppn_def)
  show "translate sv39 (from_token sv39 1) example_machine 0 = Some (make_pte sv39 4 0x1f)"
    using l lv by (simp add: translate_def find_pte_def u r i read_slot_def example_machine_def Let_def numeral_eq_Suc)
  show "entry_ppn sv39 (make_pte sv39 4 0x1f) = 4" using l by simp
qed

lemma example_byte: "va < 4096 \<Longrightarrow> user_byte sv39 (from_token sv39 1) bytes example_machine va = Some (bytes (0x4000 + va))"
  using example_ppn by (simp add: user_byte_def translate_va_def example_translate)
   (simp add: user_space_end_def sv39_def)

text \<open>
  C27. \<open>translated_str\<close> ends on every pointer. It answers exactly when the user addresses from the pointer on, all of
  them mapped and below the end of user space, hold a zero-terminated string, and answers that string with each byte taken
  for the character of that number: the bytes of the answer are those of the user string exactly when the user string is
  ASCII. A string that runs past the end of user space or into an unmapped page is refused.
\<close>

theorem translated_str_exact:
  assumes "A = sv39 \<or> A = loongarch"
  shows "(translated_str A token bytes ptr m = Some s \<longleftrightarrow> (\<exists>w. s = latin1_utf8 w \<and> cstr_at (user_byte A (from_token A token) bytes m) ptr w))
    \<and> (cstr_at (user_byte A (from_token A token) bytes m) ptr s \<longrightarrow>
         (translated_str A token bytes ptr m = Some s \<longleftrightarrow> list_all (\<lambda>b. b < 0x80) s))"
proof -
  have "user_space_end A \<le> usize_max" using assms by (auto simp: user_space_end_def sv39_def loongarch_def usize_max_def)
  then have "translated_str A token bytes ptr m = Some s \<longleftrightarrow> (\<exists>w. s = latin1_utf8 w \<and> cstr_at (user_byte A (from_token A token) bytes m) ptr w)"
    using translated_str_spec [of A "from_token A token" bytes m ptr "[]" s] by (simp add: translated_str_def)
  then show ?thesis using cstr_at_unique latin1_utf8_same by metis
qed

text \<open>The two bytes of an accented letter become the four bytes of two other letters.\<close>

theorem translated_str_exact_witness:
  "translated_str sv39 1 (\<lambda>a. if a = 0x4010 then 104 else if a = 0x4011 then 105 else 0) 0x10 example_machine = Some [104, 105]
   \<and> translated_str sv39 1 (\<lambda>a. if a = 0x4010 then 0xC3 else if a = 0x4011 then 0xA9 else 0) 0x10 example_machine = Some [0xC3, 0x83, 0xC2, 0xA9]"
proof -
  have "latin1_utf8 [0xC3, 0xA9] = [0xC3, 0x83, 0xC2, 0xA9]" by code_simp
  then show ?thesis
    using translated_str_exact [of sv39 1 "\<lambda>a. if a = 0x4010 then 104 else if a = 0x4011 then 105 else 0" "0x10" example_machine "[104, 105]"]
      translated_str_exact [of sv39 1 "\<lambda>a. if a = 0x4010 then 0xC3 else if a = 0x4011 then 0xA9 else 0" "0x10" example_machine "[0xC3, 0x83, 0xC2, 0xA9]"]
    by (auto simp: example_byte intro!: exI [of _ "[0xC3, 0xA9]"])
qed

end
