(* ===== verification/Buddy_Bitmap.thy ===== *)
theory Buddy_Bitmap
  imports Kernel_Prelude
begin

text \<open>
  The free-block bitmap of the buddy allocator (\<open>FreeBlockBitmap\<close> in
  \<open>os/src/mm/frame_allocator.rs\<close>): one bit per possible block of every order, packed into one array
  of 64-bit words. Access outside the array panics (\<open>None\<close>).
\<close>

unbundle bit_operations_syntax

definition MAX_ORDER :: nat where "MAX_ORDER = 32"
definition MEMORY_END :: nat where "MEMORY_END = 0x180000000"
definition MAX_BITMAP_PAGES :: nat where "MAX_BITMAP_PAGES = MEMORY_END div 4096"
definition MAX_BITMAP_WORDS :: nat where
  "MAX_BITMAP_WORDS = (2 * MAX_BITMAP_PAGES + MAX_ORDER + 63) div 64"

record bitmap =
  bm_bits :: "u64 list"
  bm_offsets :: "nat list"
  bm_words :: "nat list"
  bm_base :: nat
  bm_span_pages :: nat
  bm_enabled :: bool

definition bitmap_empty :: bitmap where
  "bitmap_empty = \<lparr>bm_bits = replicate MAX_BITMAP_WORDS 0, bm_offsets = replicate MAX_ORDER 0,
     bm_words = replicate MAX_ORDER 0, bm_base = 0, bm_span_pages = 0, bm_enabled = False\<rparr>"

definition order_words :: "nat \<Rightarrow> nat \<Rightarrow> nat" where
  "order_words span order =
     (let block_size = 2 ^ order; block_count = (span + block_size - 1) div block_size
      in (block_count + 63) div 64)"

text \<open>The layout loop of \<open>reset\<close>, over the offset and the two arrays filled so far.\<close>

fun layout_loop :: "nat \<Rightarrow> nat list \<Rightarrow> nat \<times> nat list \<times> nat list \<Rightarrow> nat \<times> nat list \<times> nat list" where
  "layout_loop span [] acc = acc"
| "layout_loop span (order # rest) (off, offs, ws) =
     layout_loop span rest
       (off + order_words span order, offs[order := off], ws[order := order_words span order])"

definition bitmap_reset :: "nat \<Rightarrow> nat \<Rightarrow> bitmap" where
  "bitmap_reset base end_ppn =
     (let span = sat_sub end_ppn base;
          b = bitmap_empty\<lparr>bm_base := base, bm_span_pages := span,
                bm_enabled := base < end_ppn \<and> span \<le> MAX_BITMAP_PAGES\<rparr>
      in if \<not> bm_enabled b then b
         else let (_, offs, ws) = layout_loop span [0..<MAX_ORDER] (0, bm_offsets b, bm_words b)
              in b\<lparr>bm_offsets := offs, bm_words := ws\<rparr>)"

definition position :: "bitmap \<Rightarrow> nat \<Rightarrow> nat \<Rightarrow> (nat \<times> u64) option" where
  "position b order ppn =
     (if \<not> bm_enabled b \<or> order \<ge> MAX_ORDER \<or> ppn < bm_base b then None
      else
        let relative = ppn - bm_base b in
        if relative \<ge> bm_span_pages b then None
        else
          let block = drop_bit order relative; word = drop_bit 6 block in
          if word \<ge> bm_words b ! order then None
          else Some (bm_offsets b ! order + word, push_bit (block AND 63) 1))"

definition bm_is_set :: "bitmap \<Rightarrow> nat \<Rightarrow> nat \<Rightarrow> bool option" where
  "bm_is_set b order ppn =
     (case position b order ppn of
        None \<Rightarrow> Some False
      | Some (w, m) \<Rightarrow> map_option (\<lambda>x. x AND m \<noteq> 0) (idx (bm_bits b) w))"

definition bm_set :: "bitmap \<Rightarrow> nat \<Rightarrow> nat \<Rightarrow> bitmap option" where
  "bm_set b order ppn =
     (case position b order ppn of
        None \<Rightarrow> Some b
      | Some (w, m) \<Rightarrow> do {
          x \<leftarrow> idx (bm_bits b) w;
          bits \<leftarrow> put (bm_bits b) w (x OR m);
          Some (b\<lparr>bm_bits := bits\<rparr>)
        })"

definition bm_clear :: "bitmap \<Rightarrow> nat \<Rightarrow> nat \<Rightarrow> bitmap option" where
  "bm_clear b order ppn =
     (case position b order ppn of
        None \<Rightarrow> Some b
      | Some (w, m) \<Rightarrow> do {
          x \<leftarrow> idx (bm_bits b) w;
          bits \<leftarrow> put (bm_bits b) w (x AND NOT m);
          Some (b\<lparr>bm_bits := bits\<rparr>)
        })"

section \<open>Layout\<close>

definition layout_offset :: "nat \<Rightarrow> nat \<Rightarrow> nat" where
  "layout_offset span order = (\<Sum>k<order. order_words span k)"

lemma layout_loop_upt:
  assumes "n \<le> length offs" and "n \<le> length ws"
  shows "layout_loop span [0..<n] (0, offs, ws) =
    (layout_offset span n, map (layout_offset span) [0..<n] @ drop n offs, map (order_words span) [0..<n] @ drop n ws)"
proof -
  have app: "layout_loop span (xs @ ys) acc = layout_loop span ys (layout_loop span xs acc)" for xs ys acc
    by (induction xs arbitrary: acc) (auto split: prod.splits)
  show ?thesis
    using assms
  proof (induction n)
    case 0
    then show ?case by (simp add: layout_offset_def)
  next
    case (Suc n)
    have d: "(xs @ drop n zs)[n := (v::nat)] = xs @ [v] @ drop (Suc n) zs" if "n < length zs" "length xs = n" for xs zs v
      using that by (simp add: list_update_append Cons_nth_drop_Suc [symmetric])
    show ?case
      using Suc by (simp add: app d layout_offset_def)
  qed
qed

definition bitmap_wf :: "bitmap \<Rightarrow> bool" where
  "bitmap_wf b \<longleftrightarrow> length (bm_bits b) = MAX_BITMAP_WORDS
     \<and> (bm_enabled b \<longrightarrow> bm_offsets b = map (layout_offset (bm_span_pages b)) [0..<MAX_ORDER]
          \<and> bm_words b = map (order_words (bm_span_pages b)) [0..<MAX_ORDER]
          \<and> layout_offset (bm_span_pages b) MAX_ORDER \<le> MAX_BITMAP_WORDS)"

lemma order_words_mono: "span \<le> span' \<Longrightarrow> order_words span k \<le> order_words span' k"
  unfolding order_words_def Let_def by (intro div_le_mono add_le_mono1 diff_le_mono) simp

lemma layout_offset_mono: "span \<le> span' \<Longrightarrow> layout_offset span k \<le> layout_offset span' k"
  unfolding layout_offset_def by (intro sum_mono order_words_mono)

text \<open>The array is large enough for the four-gigabyte window that the source's comment names.\<close>

lemma layout_fits_4GiB: "span \<le> 2 ^ 20 \<Longrightarrow> layout_offset span MAX_ORDER \<le> MAX_BITMAP_WORDS"
proof -
  have "layout_offset (2 ^ 20) MAX_ORDER \<le> MAX_BITMAP_WORDS" by code_simp
  then show "span \<le> 2 ^ 20 \<Longrightarrow> ?thesis" using layout_offset_mono le_trans by blast
qed

lemma bitmap_reset_wf:
  assumes "end_ppn - base \<le> 2 ^ 20"
  shows "bitmap_wf (bitmap_reset base end_ppn)"
  using assms layout_fits_4GiB
  by (auto simp: bitmap_reset_def bitmap_wf_def bitmap_empty_def Let_def sat_sub_def layout_loop_upt)

section \<open>Slots\<close>

definition in_bitmap :: "bitmap \<Rightarrow> nat \<Rightarrow> nat \<Rightarrow> bool" where
  "in_bitmap b k p \<longleftrightarrow> bm_enabled b \<and> k < MAX_ORDER \<and> bm_base b \<le> p \<and> p < bm_base b + bm_span_pages b"

definition block_no :: "bitmap \<Rightarrow> nat \<Rightarrow> nat \<Rightarrow> nat" where
  "block_no b k p = (p - bm_base b) div 2 ^ k"

definition slot_word :: "bitmap \<Rightarrow> nat \<Rightarrow> nat \<Rightarrow> nat" where
  "slot_word b k p = layout_offset (bm_span_pages b) k + block_no b k p div 64"

lemma layout_offset_Suc: "layout_offset span (Suc k) = layout_offset span k + order_words span k"
  by (simp add: layout_offset_def)

lemma layout_offset_le: "j \<le> k \<Longrightarrow> layout_offset span j \<le> layout_offset span k"
  unfolding layout_offset_def by (intro sum_mono2) auto

lemma block_word_bound:
  assumes "r < span"
  shows "r div 2 ^ k div 64 < order_words span k"
proof -
  have "r div 2 ^ k < (span + 2 ^ k - 1) div 2 ^ k"
  proof -
    have "r div 2 ^ k + 1 = (r + 2 ^ k) div 2 ^ k" by (simp add: div_add_self2)
    also have "\<dots> \<le> (span + 2 ^ k - 1) div 2 ^ k" using assms by (intro div_le_mono) simp
    finally show ?thesis by simp
  qed
  then show ?thesis unfolding order_words_def Let_def by simp
qed

lemma slot_word_bounds:
  assumes "in_bitmap b k p"
  shows "layout_offset (bm_span_pages b) k \<le> slot_word b k p"
    and "slot_word b k p < layout_offset (bm_span_pages b) (Suc k)"
proof -
  have "p - bm_base b < bm_span_pages b" using assms by (auto simp: in_bitmap_def)
  from block_word_bound [OF this, of k] show "slot_word b k p < layout_offset (bm_span_pages b) (Suc k)"
    by (simp add: slot_word_def block_no_def layout_offset_Suc)
qed (simp add: slot_word_def)

lemma position_in:
  assumes "bitmap_wf b" and "in_bitmap b k p"
  shows "position b k p = Some (slot_word b k p, push_bit (block_no b k p mod 64) 1)"
    and "slot_word b k p < length (bm_bits b)"
proof -
  have k: "k < MAX_ORDER" and rel: "p - bm_base b < bm_span_pages b" using assms(2) by (auto simp: in_bitmap_def)
  have arr: "bm_words b ! k = order_words (bm_span_pages b) k" "bm_offsets b ! k = layout_offset (bm_span_pages b) k"
    using assms k by (simp_all add: bitmap_wf_def in_bitmap_def)
  have m: "(x::nat) AND 63 = x mod 64" for x using take_bit_eq_mask [of 6 x] by (simp add: take_bit_eq_mod mask_eq_exp_minus_1)
  show "position b k p = Some (slot_word b k p, push_bit (block_no b k p mod 64) 1)"
    using assms(2) rel arr block_word_bound [OF rel, of k]
    by (auto simp: position_def in_bitmap_def Let_def slot_word_def block_no_def drop_bit_eq_div m)
  have "slot_word b k p < layout_offset (bm_span_pages b) (Suc k)" using slot_word_bounds [OF assms(2)] by simp
  also have "\<dots> \<le> layout_offset (bm_span_pages b) MAX_ORDER" using k by (intro layout_offset_le) simp
  also have "\<dots> \<le> length (bm_bits b)" using assms by (simp add: bitmap_wf_def in_bitmap_def)
  finally show "slot_word b k p < length (bm_bits b)" .
qed

lemma position_out: "\<not> in_bitmap b k p \<Longrightarrow> position b k p = None"
  by (auto simp: position_def in_bitmap_def Let_def)

lemma slot_inj:
  assumes "in_bitmap b k p" and "in_bitmap b j q"
    and "slot_word b k p = slot_word b j q" and "block_no b k p mod 64 = block_no b j q mod 64"
  shows "k = j \<and> block_no b k p = block_no b j q"
proof -
  have "k = j"
  proof (rule ccontr)
    assume "k \<noteq> j"
    then consider "Suc k \<le> j" | "Suc j \<le> k" by linarith
    then show False
      using slot_word_bounds [OF assms(1)] slot_word_bounds [OF assms(2)] assms(3)
        layout_offset_le [of "Suc k" j "bm_span_pages b"] layout_offset_le [of "Suc j" k "bm_span_pages b"]
      by cases linarith+
  qed
  then have "block_no b k p div 64 = block_no b j q div 64" using assms(3) by (simp add: slot_word_def)
  then show ?thesis using assms(4) \<open>k = j\<close> by (metis div_mult_mod_eq)
qed

text \<open>The value of a bit, as a total function.\<close>

definition bm_bit :: "bitmap \<Rightarrow> nat \<Rightarrow> nat \<Rightarrow> bool" where
  "bm_bit b k p \<longleftrightarrow> in_bitmap b k p \<and> bit (bm_bits b ! slot_word b k p) (block_no b k p mod 64)"

lemma and_push_bit_1: "n < 64 \<Longrightarrow> (x::u64) AND push_bit n 1 \<noteq> 0 \<longleftrightarrow> bit x n"
  by (simp add: bit_iff_and_push_bit_not_eq_0)

lemma is_set_eq: "bitmap_wf b \<Longrightarrow> bm_is_set b k p = Some (bm_bit b k p)"
proof (cases "in_bitmap b k p")
  case True
  assume wf: "bitmap_wf b"
  have "block_no b k p mod 64 < 64" by simp
  from and_push_bit_1 [OF this, of "bm_bits b ! slot_word b k p"] show ?thesis
    using position_in [OF wf True] True by (simp add: bm_is_set_def bm_bit_def)
next
  case False
  then show ?thesis by (simp add: bm_is_set_def bm_bit_def position_out)
qed

definition same_block :: "bitmap \<Rightarrow> nat \<Rightarrow> nat \<Rightarrow> nat \<Rightarrow> nat \<Rightarrow> bool" where
  "same_block b k p j q \<longleftrightarrow> in_bitmap b k p \<and> in_bitmap b j q \<and> k = j \<and> block_no b k p = block_no b j q"

lemma same_block_slot:
  assumes "in_bitmap b k p"
  shows "same_block b k p j q \<longleftrightarrow> in_bitmap b j q \<and> slot_word b j q = slot_word b k p
    \<and> block_no b j q mod 64 = block_no b k p mod 64"
  using slot_inj [OF assms, of j q] assms unfolding same_block_def slot_word_def by metis

lemma bitmap_update:
  fixes x :: u64
  assumes "bitmap_wf b" and "in_bitmap b k p"
  defines "b' \<equiv> b\<lparr>bm_bits := (bm_bits b)[slot_word b k p := x]\<rparr>"
  shows "bitmap_wf b'"
    and "bm_bit b' j q \<longleftrightarrow> in_bitmap b j q \<and>
      bit (if slot_word b j q = slot_word b k p then x else bm_bits b ! slot_word b j q) (block_no b j q mod 64)"
proof -
  show "bitmap_wf b'" using assms(1) by (simp add: bitmap_wf_def b'_def)
  have e: "in_bitmap b' j q = in_bitmap b j q" "slot_word b' j q = slot_word b j q" "block_no b' j q = block_no b j q"
    by (simp_all add: b'_def in_bitmap_def slot_word_def block_no_def)
  show "bm_bit b' j q \<longleftrightarrow> in_bitmap b j q \<and>
      bit (if slot_word b j q = slot_word b k p then x else bm_bits b ! slot_word b j q) (block_no b j q mod 64)"
    unfolding bm_bit_def e using position_in(2) [OF assms(1,2)] by (auto simp: b'_def)
qed

lemma bm_set_eq:
  assumes "bitmap_wf b"
  shows "\<exists>b'. bm_set b k p = Some b' \<and> bitmap_wf b' \<and> (\<forall>j q. bm_bit b' j q \<longleftrightarrow> bm_bit b j q \<or> same_block b k p j q)
    \<and> bm_base b' = bm_base b \<and> bm_span_pages b' = bm_span_pages b \<and> bm_enabled b' = bm_enabled b"
proof (cases "in_bitmap b k p")
  case True
  let ?x = "bm_bits b ! slot_word b k p OR push_bit (block_no b k p mod 64) 1"
  let ?b = "b\<lparr>bm_bits := (bm_bits b)[slot_word b k p := ?x]\<rparr>"
  have bx: "bit ?x i \<longleftrightarrow> bit (bm_bits b ! slot_word b k p) i \<or> i = block_no b k p mod 64" if "i < 64" for i
    using that by (auto simp: bit_or_iff bit_push_bit_iff bit_1_iff simp del: push_bit_of_1)
  have "bm_bit ?b j q \<longleftrightarrow> bm_bit b j q \<or> same_block b k p j q" for j q
    unfolding bitmap_update(2) [OF assms True, of ?x j q] same_block_slot [OF True]
    by (cases "slot_word b j q = slot_word b k p") (auto simp: bx bm_bit_def simp del: push_bit_of_1)
  then show ?thesis
    using position_in [OF assms True] bitmap_update(1) [OF assms True] by (simp add: bm_set_def)
next
  case False
  then show ?thesis using assms by (simp add: bm_set_def position_out same_block_def)
qed

lemma bm_clear_eq:
  assumes "bitmap_wf b"
  shows "\<exists>b'. bm_clear b k p = Some b' \<and> bitmap_wf b' \<and> (\<forall>j q. bm_bit b' j q \<longleftrightarrow> bm_bit b j q \<and> \<not> same_block b k p j q)
    \<and> bm_base b' = bm_base b \<and> bm_span_pages b' = bm_span_pages b \<and> bm_enabled b' = bm_enabled b"
proof (cases "in_bitmap b k p")
  case True
  let ?x = "bm_bits b ! slot_word b k p AND NOT (push_bit (block_no b k p mod 64) 1)"
  let ?b = "b\<lparr>bm_bits := (bm_bits b)[slot_word b k p := ?x]\<rparr>"
  have bx: "bit ?x i \<longleftrightarrow> bit (bm_bits b ! slot_word b k p) i \<and> i \<noteq> block_no b k p mod 64" if "i < 64" for i
    using that by (auto simp: bit_and_iff bit_not_iff bit_push_bit_iff bit_1_iff simp del: push_bit_of_1)
  have "bm_bit ?b j q \<longleftrightarrow> bm_bit b j q \<and> \<not> same_block b k p j q" for j q
    unfolding bitmap_update(2) [OF assms True, of ?x j q] same_block_slot [OF True]
    by (cases "slot_word b j q = slot_word b k p") (auto simp: bx bm_bit_def simp del: push_bit_of_1)
  then show ?thesis
    using position_in [OF assms True] bitmap_update(1) [OF assms True] by (simp add: bm_clear_def)
next
  case False
  then show ?thesis using assms by (simp add: bm_clear_def position_out same_block_def bm_bit_def)
qed

section \<open>Properties\<close>

text \<open>
  C23. The bitmap array is too small for the largest span it is enabled for. For a managed window of
  \<open>MAX_BITMAP_PAGES\<close> pages starting at page 0 the bitmap is enabled, but recording a free block of
  order 19 at page 0x80000 (the block that covers the first two gigabytes of high memory) indexes
  past the end of the array and panics.
\<close>

theorem bitmap_overflow_at_full_span:
  "bm_enabled (bitmap_reset 0 MAX_BITMAP_PAGES) \<and> bm_set (bitmap_reset 0 MAX_BITMAP_PAGES) 19 0x80000 = None"
proof -
  let ?b = "bitmap_reset 0 MAX_BITMAP_PAGES"
  have off: "layout_offset MAX_BITMAP_PAGES 19 = 49155" by code_simp
  have ws: "order_words MAX_BITMAP_PAGES 19 = 1" by code_simp
  have n: "MAX_BITMAP_PAGES = 1572864" "MAX_BITMAP_WORDS = 49153" by code_simp+
  have b: "bm_enabled ?b" "bm_base ?b = 0" "bm_span_pages ?b = MAX_BITMAP_PAGES" "length (bm_bits ?b) = 49153"
    "bm_offsets ?b ! 19 = 49155" "bm_words ?b ! 19 = 1"
    using off ws by (simp_all add: bitmap_reset_def bitmap_empty_def Let_def sat_sub_def layout_loop_upt n MAX_ORDER_def
        del: upt_Suc)
  have "drop_bit 19 (0x80000 :: nat) = 1" "drop_bit 6 (1 :: nat) = 0" by code_simp+
  then have "position ?b 19 0x80000 = Some (49155, push_bit (1 AND 63) 1)"
    using b by (simp add: position_def MAX_ORDER_def n)
  then show ?thesis using b by (simp add: bm_set_def idx_def)
qed

end
