(* ===== verification/Frame_Allocator.thy ===== *)
theory Frame_Allocator
  imports Buddy_Bitmap Alloc_Interface
begin

text \<open>
  The buddy frame allocator (\<open>os/src/mm/frame_allocator.rs\<close>). The free lists are doubly linked
  through the first two words of the free frames themselves, so the memory is part of the state:
  \<open>mem_next\<close> and \<open>mem_prev\<close> give those two words of every frame. A panic is \<open>None\<close>.
\<close>

unbundle bit_operations_syntax

definition INVALID_PPN :: nat where "INVALID_PPN = usize_max"
definition MAX_MANAGED_REGIONS :: nat where "MAX_MANAGED_REGIONS = 16"

record buddy =
  bf_start :: nat
  bf_end :: nat
  bf_regions :: "(nat \<times> nat) list"
  bf_free_list :: "nat option list"
  bf_bitmap :: bitmap
  bf_free_pages :: nat
  bf_allocated_pages :: nat
  frame_alloc_oom_count :: nat
  mem_next :: "nat \<Rightarrow> nat"
  mem_prev :: "nat \<Rightarrow> nat"

text \<open>\<open>regions[..region_count]\<close> is the list of regions; \<open>reset\<close> keeps the contents of memory.\<close>

definition buddy_reset :: "buddy \<Rightarrow> buddy" where
  "buddy_reset s = s\<lparr>bf_start := usize_max, bf_end := 0, bf_regions := [],
     bf_free_list := replicate MAX_ORDER None, bf_bitmap := bitmap_empty,
     bf_free_pages := 0, bf_allocated_pages := 0\<rparr>"

definition add_managed_range :: "buddy \<Rightarrow> nat \<Rightarrow> nat \<Rightarrow> buddy" where
  "add_managed_range s start end_ppn =
     (if start \<ge> end_ppn \<or> length (bf_regions s) \<ge> MAX_MANAGED_REGIONS then s
      else s\<lparr>bf_regions := bf_regions s @ [(start, end_ppn)],
             bf_start := min (bf_start s) start, bf_end := max (bf_end s) end_ppn\<rparr>)"

definition phys_addr_floor_ppn :: "nat \<Rightarrow> nat" where "phys_addr_floor_ppn pa = pa div 4096"
definition phys_addr_ceil_ppn :: "nat \<Rightarrow> nat" where "phys_addr_ceil_ppn pa = sat_add pa 4095 div 4096"

definition add_usable_region :: "buddy \<Rightarrow> nat \<times> nat \<Rightarrow> nat \<Rightarrow> nat \<Rightarrow> buddy" where
  "add_usable_region s region kernel_start kernel_end =
     (let start = phys_addr_ceil_ppn (fst region); end_ppn = phys_addr_floor_ppn (snd region) in
      if start \<ge> end_ppn then s
      else if kernel_start < kernel_end then
        add_managed_range (add_managed_range s start (min end_ppn kernel_start)) (max start kernel_end) end_ppn
      else add_managed_range s start end_ppn)"

definition is_managed_range :: "buddy \<Rightarrow> nat \<Rightarrow> nat \<Rightarrow> bool" where
  "is_managed_range s ppn pages \<longleftrightarrow> list_ex (\<lambda>(a, b). ppn \<ge> a \<and> sat_add ppn pages \<le> b) (bf_regions s)"

section \<open>Links\<close>

definition decode_link :: "nat \<Rightarrow> nat option" where
  "decode_link v = (if v = INVALID_PPN then None else Some v)"

definition encode_link :: "nat option \<Rightarrow> nat" where
  "encode_link o_ppn = (case o_ppn of Some p \<Rightarrow> p | None \<Rightarrow> INVALID_PPN)"

definition set_next :: "nat \<Rightarrow> nat option \<Rightarrow> buddy \<Rightarrow> buddy" where
  "set_next ppn n s = s\<lparr>mem_next := (mem_next s)(ppn := encode_link n)\<rparr>"

definition set_previous :: "nat \<Rightarrow> nat option \<Rightarrow> buddy \<Rightarrow> buddy" where
  "set_previous ppn p s = s\<lparr>mem_prev := (mem_prev s)(ppn := encode_link p)\<rparr>"

definition next_of :: "buddy \<Rightarrow> nat \<Rightarrow> nat option" where "next_of s ppn = decode_link (mem_next s ppn)"
definition previous_of :: "buddy \<Rightarrow> nat \<Rightarrow> nat option" where "previous_of s ppn = decode_link (mem_prev s ppn)"

definition push_block :: "buddy \<Rightarrow> nat \<Rightarrow> nat \<Rightarrow> buddy option" where
  "push_block s order ppn = do {
     head \<leftarrow> idx (bf_free_list s) order;
     let s = set_previous ppn None (set_next ppn head s);
     let s = (case head of Some h \<Rightarrow> set_previous h (Some ppn) s | None \<Rightarrow> s);
     fl \<leftarrow> put (bf_free_list s) order (Some ppn);
     bm \<leftarrow> bm_set (bf_bitmap s) order ppn;
     Some (s\<lparr>bf_free_list := fl, bf_bitmap := bm\<rparr>)
   }"

definition pop_block :: "buddy \<Rightarrow> nat \<Rightarrow> (nat option \<times> buddy) option" where
  "pop_block s order = do {
     head \<leftarrow> idx (bf_free_list s) order;
     case head of
       None \<Rightarrow> Some (None, s)
     | Some ppn \<Rightarrow> do {
         let nx = next_of s ppn;
         fl \<leftarrow> put (bf_free_list s) order nx;
         let s = s\<lparr>bf_free_list := fl\<rparr>;
         let s = (case nx of Some n \<Rightarrow> set_previous n None s | None \<Rightarrow> s);
         let s = set_previous ppn None (set_next ppn None s);
         bm \<leftarrow> bm_clear (bf_bitmap s) order ppn;
         Some (Some ppn, s\<lparr>bf_bitmap := bm\<rparr>)
       }
   }"

text \<open>Unlinking a block whose neighbours are known; shared by both ways of finding it.\<close>

definition unlink :: "buddy \<Rightarrow> nat \<Rightarrow> nat \<Rightarrow> nat option \<Rightarrow> nat option \<Rightarrow> buddy option" where
  "unlink s order target previous nx = do {
     s \<leftarrow> (case previous of
             Some p \<Rightarrow> Some (set_next p nx s)
           | None \<Rightarrow> map_option (\<lambda>fl. s\<lparr>bf_free_list := fl\<rparr>) (put (bf_free_list s) order nx));
     let s = (case nx of Some n \<Rightarrow> set_previous n previous s | None \<Rightarrow> s);
     Some (set_previous target None (set_next target None s))
   }"

text \<open>The list scan used when the bitmap is disabled; it does not return on a cyclic list.\<close>

partial_function (option) remove_scan ::
  "buddy \<Rightarrow> nat \<Rightarrow> nat \<Rightarrow> nat option \<Rightarrow> nat option \<Rightarrow> (bool \<times> buddy) option" where
  "remove_scan s order target current previous =
     (case current of
        None \<Rightarrow> Some (False, s)
      | Some ppn \<Rightarrow>
          if ppn = target then map_option (\<lambda>s'. (True, s')) (unlink s order ppn previous (next_of s ppn))
          else remove_scan s order target (next_of s ppn) current)"

definition remove_block :: "buddy \<Rightarrow> nat \<Rightarrow> nat \<Rightarrow> (bool \<times> buddy) option" where
  "remove_block s order target =
     (if bm_enabled (bf_bitmap s) then do {
        hit \<leftarrow> bm_is_set (bf_bitmap s) order target;
        if \<not> hit then Some (False, s)
        else do {
          s \<leftarrow> unlink s order target (previous_of s target) (next_of s target);
          bm \<leftarrow> bm_clear (bf_bitmap s) order target;
          Some (True, s\<lparr>bf_bitmap := bm\<rparr>)
        }
      } else do {
        head \<leftarrow> idx (bf_free_list s) order;
        remove_scan s order target head None
      })"

section \<open>Ranges\<close>

text \<open>\<open>floor_log2\<close> of a positive value, and the number of trailing zero bits of a positive value.\<close>

fun floor_log2 :: "nat \<Rightarrow> nat" where
  "floor_log2 v = (if v < 2 then 0 else Suc (floor_log2 (v div 2)))"

declare floor_log2.simps [simp del]

function ctz :: "nat \<Rightarrow> nat" where
  "ctz v = (if v = 0 \<or> odd v then 0 else Suc (ctz (v div 2)))"
  by pat_completeness auto
termination by (relation "measure id") auto

declare ctz.simps [simp del]

text \<open>The loop \<open>while start + (1 << order) > end \{ order -= 1 \}\<close>; it is entered with \<open>start < end\<close>.\<close>

fun fit_order :: "nat \<Rightarrow> nat \<Rightarrow> nat \<Rightarrow> nat" where
  "fit_order start end_ppn 0 = 0"
| "fit_order start end_ppn (Suc ord) =
     (if start + 2 ^ Suc ord > end_ppn then fit_order start end_ppn ord else Suc ord)"

definition range_order :: "nat \<Rightarrow> nat \<Rightarrow> nat" where
  "range_order start end_ppn =
     (let remaining = end_ppn - start;
          lowbit_order = (if start = 0 then MAX_ORDER - 1 else min (ctz start) (MAX_ORDER - 1))
      in fit_order start end_ppn (min (min (floor_log2 remaining) lowbit_order) (MAX_ORDER - 1)))"

function add_range :: "buddy \<Rightarrow> nat \<Rightarrow> nat \<Rightarrow> buddy option" where
  "add_range s start end_ppn =
     (if start < end_ppn then
        let order = range_order start end_ppn in
        (case push_block s order start of
           None \<Rightarrow> None
         | Some s' \<Rightarrow> add_range (s'\<lparr>bf_free_pages := wrap_add (bf_free_pages s') (2 ^ order)\<rparr>) (start + 2 ^ order) end_ppn)
      else Some s)"
  by pat_completeness auto
termination by (relation "measure (\<lambda>(s, a, b). b - a)") (auto simp: diff_less_mono2)

declare add_range.simps [simp del]

text \<open>\<open>usable\<close> are the usable regions reported by the boot information, as byte ranges.\<close>

definition init_from_bootinfo :: "buddy \<Rightarrow> (nat \<times> nat) list \<Rightarrow> nat \<Rightarrow> nat \<Rightarrow> buddy option" where
  "init_from_bootinfo s usable kernel_start kernel_end =
     (let s = foldl (\<lambda>s region. add_usable_region s region kernel_start kernel_end) (buddy_reset s) usable;
          s = s\<lparr>bf_bitmap := bitmap_reset (bf_start s) (bf_end s)\<rparr>
      in for_opt (\<lambda>s (a, b). add_range s a b) s (bf_regions s))"

section \<open>Allocation and release\<close>

function find_order :: "nat option list \<Rightarrow> nat \<Rightarrow> nat option" where
  "find_order fl order =
     (if order < MAX_ORDER then
        (case idx fl order of None \<Rightarrow> None | Some None \<Rightarrow> find_order fl (Suc order) | Some (Some _) \<Rightarrow> Some order)
      else Some MAX_ORDER)"
  by pat_completeness auto
termination by (relation "measure (\<lambda>(fl, k). MAX_ORDER - k)") auto

declare find_order.simps [simp del]

fun split_loop :: "buddy \<Rightarrow> nat \<Rightarrow> nat \<Rightarrow> nat \<Rightarrow> buddy option" where
  "split_loop s ppn 0 order = Some s"
| "split_loop s ppn (Suc so) order =
     (if Suc so > order then do {
        s' \<leftarrow> push_block s so (ppn + 2 ^ so);
        split_loop s' ppn so order
      } else Some s)"

definition alloc_order :: "buddy \<Rightarrow> nat \<Rightarrow> (nat option \<times> buddy) option" where
  "alloc_order s order =
     (if order \<ge> MAX_ORDER then Some (None, s)
      else do {
        source_order \<leftarrow> find_order (bf_free_list s) order;
        if source_order = MAX_ORDER then Some (None, s)
        else do {
          (r, s) \<leftarrow> pop_block s source_order;
          case r of
            None \<Rightarrow> Some (None, s)
          | Some ppn \<Rightarrow> do {
              s \<leftarrow> split_loop s ppn source_order order;
              Some (Some ppn, s\<lparr>bf_free_pages := wrap_sub (bf_free_pages s) (2 ^ order),
                               bf_allocated_pages := wrap_add (bf_allocated_pages s) (2 ^ order)\<rparr>)
            }
        }
      })"

function merge_loop :: "buddy \<Rightarrow> nat \<Rightarrow> nat \<Rightarrow> (buddy \<times> nat \<times> nat) option" where
  "merge_loop s ppn cur =
     (if cur + 1 < MAX_ORDER then
        let bud = ppn XOR 2 ^ cur in
        if \<not> is_managed_range s bud (2 ^ cur) then Some (s, ppn, cur)
        else (case remove_block s cur bud of
                None \<Rightarrow> None
              | Some (False, s') \<Rightarrow> Some (s', ppn, cur)
              | Some (True, s') \<Rightarrow> merge_loop s' (min ppn bud) (cur + 1))
      else Some (s, ppn, cur))"
  by pat_completeness auto
termination by (relation "measure (\<lambda>(s, p, k). MAX_ORDER - k)") auto

declare merge_loop.simps [simp del]

definition dealloc_order :: "buddy \<Rightarrow> nat \<Rightarrow> nat \<Rightarrow> buddy option" where
  "dealloc_order s ppn order =
     (if order \<ge> MAX_ORDER then None
      else
        let pages = 2 ^ order in
        if \<not> is_managed_range s ppn pages \<or> ppn AND (pages - 1) \<noteq> 0 then None
        else do {
          (s, ppn, cur) \<leftarrow> merge_loop s ppn order;
          s \<leftarrow> push_block s cur ppn;
          Some (s\<lparr>bf_free_pages := wrap_add (bf_free_pages s) pages,
                  bf_allocated_pages := wrap_sub (bf_allocated_pages s) pages\<rparr>)
        })"

definition is_power_of_two :: "nat \<Rightarrow> bool" where
  "is_power_of_two n \<longleftrightarrow> n \<noteq> 0 \<and> n AND (n - 1) = 0"

section \<open>The kernel interface\<close>

text \<open>
  \<open>clear_frame\<close> zeroes a frame, so both of its link words become 0. \<open>frame_write\<close> is a write by the
  owner of a frame to those two words.
\<close>

definition frame_write :: "nat \<Rightarrow> nat \<times> nat \<Rightarrow> buddy \<Rightarrow> buddy" where
  "frame_write ppn w s = s\<lparr>mem_next := (mem_next s)(ppn := fst w), mem_prev := (mem_prev s)(ppn := snd w)\<rparr>"

definition clear_frame :: "nat \<Rightarrow> buddy \<Rightarrow> buddy" where
  "clear_frame ppn s = frame_write ppn (0, 0) s"

definition contiguous_new :: "nat \<Rightarrow> nat \<Rightarrow> buddy \<Rightarrow> buddy" where
  "contiguous_new start pages s = foldl (\<lambda>s ppn. clear_frame ppn s) s [start..<start + pages]"

definition frame_alloc :: "buddy \<Rightarrow> (nat option \<times> buddy) option" where
  "frame_alloc s = do {
     (r, s) \<leftarrow> alloc_order s 0;
     case r of
       Some ppn \<Rightarrow> Some (Some ppn, clear_frame ppn s)
     | None \<Rightarrow> Some (None, s\<lparr>frame_alloc_oom_count := wrap_add (frame_alloc_oom_count s) 1\<rparr>)
   }"

definition frame_dealloc :: "buddy \<Rightarrow> nat \<Rightarrow> buddy option" where
  "frame_dealloc s ppn = dealloc_order s ppn 0"

definition frame_alloc_contiguous :: "buddy \<Rightarrow> nat \<Rightarrow> nat \<Rightarrow> (nat option \<times> buddy) option" where
  "frame_alloc_contiguous s pages align_pages =
     (if pages = 0 \<or> align_pages = 0 \<or> \<not> is_power_of_two pages \<or> \<not> is_power_of_two align_pages
      then Some (None, s)
      else do {
        (r, s) \<leftarrow> alloc_order s (ctz pages);
        case r of
          None \<Rightarrow> Some (None, s)
        | Some start \<Rightarrow>
            if start AND (align_pages - 1) \<noteq> 0
            then map_option (\<lambda>s. (None, s)) (dealloc_order s start (ctz pages))
            else Some (Some start, contiguous_new start pages s)
      })"

definition frame_dealloc_range :: "buddy \<Rightarrow> nat \<Rightarrow> nat \<Rightarrow> buddy option" where
  "frame_dealloc_range s start pages =
     (if pages = 0 \<or> \<not> is_power_of_two pages then None else dealloc_order s start (ctz pages))"

text \<open>\<open>skernel\<close> and \<open>ekernel\<close> are the physical addresses of the kernel image's ends.\<close>

definition init_frame_allocator :: "buddy \<Rightarrow> (nat \<times> nat) list \<Rightarrow> nat \<Rightarrow> nat \<Rightarrow> buddy option" where
  "init_frame_allocator s usable skernel ekernel =
     map_option (\<lambda>s. s\<lparr>frame_alloc_oom_count := 0\<rparr>)
       (init_from_bootinfo s usable (phys_addr_floor_ppn skernel) (phys_addr_ceil_ppn ekernel))"

end
