(* ===== verification/Frame_Lists.thy ===== *)
theory Frame_Lists
  imports Frame_Allocator
begin

text \<open>
  The free lists of the buddy allocator as lists: the linked structure in memory and the bitmap
  represent, for every order, a list of block numbers, and the link operations implement the list
  operations on it.
\<close>

unbundle bit_operations_syntax

section \<open>Doubly linked segments\<close>

definition first_or :: "'a option \<Rightarrow> 'a list \<Rightarrow> 'a option" where
  "first_or n xs = (case xs of [] \<Rightarrow> n | x # _ \<Rightarrow> Some x)"

definition last_or :: "'a option \<Rightarrow> 'a list \<Rightarrow> 'a option" where
  "last_or p xs = (if xs = [] then p else Some (last xs))"

fun dseg :: "(nat \<Rightarrow> nat option) \<Rightarrow> (nat \<Rightarrow> nat option) \<Rightarrow> nat option \<Rightarrow> nat list \<Rightarrow> nat option \<Rightarrow> bool" where
  "dseg nx pv p [] n \<longleftrightarrow> True"
| "dseg nx pv p (x # xs) n \<longleftrightarrow> pv x = p \<and> nx x = first_or n xs \<and> dseg nx pv (Some x) xs n"

lemma first_or_simps [simp]: "first_or n [] = n" "first_or n (x # xs) = Some x"
  "first_or n (xs @ ys) = first_or (first_or n ys) xs"
  by (auto simp: first_or_def split: list.splits)

lemma last_or_simps [simp]: "last_or p [] = p" "last_or p (xs @ [x]) = Some x"
  "last_or (Some x) xs = last_or p (x # xs)"
  by (auto simp: last_or_def)

lemma dseg_append:
  "dseg nx pv p (xs @ ys) n \<longleftrightarrow> dseg nx pv p xs (first_or n ys) \<and> dseg nx pv (last_or p xs) ys n"
proof (induction xs arbitrary: p)
  case (Cons x xs)
  have "last_or (Some x) xs = last_or p (x # xs)" by (simp add: last_or_def)
  then show ?case using Cons [of "Some x"] by (auto simp del: last_or_simps(3))
qed (simp add: last_or_def)

lemma dseg_cong:
  "(\<And>x. x \<in> set xs \<Longrightarrow> nx' x = nx x \<and> pv' x = pv x) \<Longrightarrow> dseg nx' pv' p xs n = dseg nx pv p xs n"
  by (induction xs arbitrary: p) auto

lemma dseg_set_next_last:
  assumes "dseg nx pv p (xs @ [x]) n" and "distinct (xs @ [x])"
  shows "dseg (nx(x := m)) pv p (xs @ [x]) m"
proof -
  have "dseg (nx(x := m)) pv p xs (Some x)"
    using assms by (subst dseg_cong [where nx = nx and pv = pv]) (auto simp: dseg_append)
  then show ?thesis using assms by (simp add: dseg_append)
qed

lemma dseg_set_prev_first:
  assumes "dseg nx pv p (y # ys) n" and "distinct (y # ys)"
  shows "dseg nx (pv(y := q)) q (y # ys) n"
proof -
  have "dseg nx (pv(y := q)) (Some y) ys n"
    using assms by (subst dseg_cong [where nx = nx and pv = pv]) auto
  then show ?thesis using assms by simp
qed

text \<open>Taking an element out of the middle of a segment.\<close>

lemma dseg_remove:
  assumes seg: "dseg nx pv None (as @ t # bs) None" and dist: "distinct (as @ t # bs)"
  defines "p \<equiv> last_or None as" and "n \<equiv> first_or None bs"
  defines "nx1 \<equiv> (case p of Some a \<Rightarrow> nx(a := n) | None \<Rightarrow> nx)"
    and "pv1 \<equiv> (case n of Some b \<Rightarrow> pv(b := p) | None \<Rightarrow> pv)"
  shows "pv t = p" and "nx t = n" and "dseg (nx1(t := c)) (pv1(t := d)) None (as @ bs) None"
proof -
  have s: "dseg nx pv None as (Some t)" "pv t = p" "nx t = n" "dseg nx pv (Some t) bs None"
    using seg by (auto simp: dseg_append p_def n_def)
  then show "pv t = p" and "nx t = n" by auto
  have A: "dseg nx1 pv None as n"
  proof (cases as rule: rev_cases)
    case (snoc as' a)
    then have pa: "p = Some a" by (simp add: p_def)
    have "dseg (nx(a := n)) pv None (as' @ [a]) n"
      by (rule dseg_set_next_last) (use s(1) snoc dist in auto)
    then show ?thesis by (simp add: nx1_def pa snoc)
  qed simp
  have B: "dseg nx pv1 p bs None"
  proof (cases bs)
    case (Cons b bs')
    then have nb: "n = Some b" by (simp add: n_def)
    have "dseg nx (pv(b := p)) p (b # bs') None"
      by (rule dseg_set_prev_first) (use s(4) Cons dist in auto)
    then show ?thesis by (simp add: pv1_def nb Cons)
  qed simp
  have pin: "x \<in> set as" if "p = Some x" for x using that by (auto simp: p_def last_or_def split: if_splits)
  have nin: "x \<in> set bs" if "n = Some x" for x using that by (auto simp: n_def first_or_def split: list.splits)
  have A': "dseg (nx1(t := c)) (pv1(t := d)) None as n"
    by (subst dseg_cong [where nx = nx1 and pv = pv]) (use A dist nin in \<open>auto simp: pv1_def split: option.splits\<close>)
  have B': "dseg (nx1(t := c)) (pv1(t := d)) p bs None"
    by (subst dseg_cong [where nx = nx and pv = pv1]) (use B dist pin in \<open>auto simp: nx1_def split: option.splits\<close>)
  show "dseg (nx1(t := c)) (pv1(t := d)) None (as @ bs) None"
    using A' B' by (simp add: dseg_append p_def n_def)
qed

section \<open>The representation\<close>

type_synonym free_lists = "nat \<Rightarrow> nat list"

definition lists_ok :: "free_lists \<Rightarrow> bool" where
  "lists_ok L \<longleftrightarrow> (\<forall>k<MAX_ORDER. distinct (L k) \<and> (\<forall>q\<in>set (L k). q < INVALID_PPN \<and> 2 ^ k dvd q))
     \<and> (\<forall>j<MAX_ORDER. \<forall>k<MAX_ORDER. j \<noteq> k \<longrightarrow> set (L j) \<inter> set (L k) = {})"

definition in_span :: "bitmap \<Rightarrow> nat \<Rightarrow> bool" where
  "in_span b q \<longleftrightarrow> (bm_enabled b \<longrightarrow> bm_base b \<le> q \<and> q < bm_base b + bm_span_pages b)"

definition rep :: "buddy \<Rightarrow> free_lists \<Rightarrow> bool" where
  "rep s L \<longleftrightarrow> length (bf_free_list s) = MAX_ORDER \<and> bitmap_wf (bf_bitmap s) \<and> lists_ok L
     \<and> (\<forall>k<MAX_ORDER. bf_free_list s ! k = first_or None (L k)
          \<and> dseg (next_of s) (previous_of s) None (L k) None
          \<and> (\<forall>q\<in>set (L k). in_span (bf_bitmap s) q))
     \<and> (bm_enabled (bf_bitmap s) \<longrightarrow>
          (\<forall>k<MAX_ORDER. \<forall>q. 2 ^ k dvd q \<longrightarrow> (bm_bit (bf_bitmap s) k q \<longleftrightarrow> q \<in> set (L k))))"

lemma aligned_same_block:
  assumes "2 ^ k dvd p" and "2 ^ k dvd q"
  shows "same_block b k p k q \<longleftrightarrow> in_bitmap b k p \<and> q = p"
proof -
  have "p = q" if "bm_base b \<le> p" "bm_base b \<le> q" "(p - bm_base b) div 2 ^ k = (q - bm_base b) div 2 ^ k"
  proof (rule ccontr)
    assume "p \<noteq> q"
    have aux: "False" if a: "x < y" "2 ^ k dvd x" "2 ^ k dvd y" "c \<le> x" "(x - c) div 2 ^ k = (y - c) div 2 ^ k" for x y c :: nat
    proof -
      have "2 ^ k dvd y - x" using a by simp
      then have le: "2 ^ k \<le> y - x" using a(1) by (simp add: dvd_imp_le)
      then have "(x - c) + 2 ^ k \<le> y - c" using a by simp
      then have "((x - c) + 2 ^ k) div 2 ^ k \<le> (y - c) div 2 ^ k" by (rule div_le_mono)
      then show False using a(5) by (simp add: div_add_self2)
    qed
    show False using aux [of p q "bm_base b"] aux [of q p "bm_base b"] that assms \<open>p \<noteq> q\<close> by (metis linorder_neqE_nat)
  qed
  then show ?thesis by (auto simp: same_block_def block_no_def in_bitmap_def)
qed

section \<open>Link operations implement list operations\<close>

definition same_meta :: "buddy \<Rightarrow> buddy \<Rightarrow> bool" where
  "same_meta s s' \<longleftrightarrow> bf_start s' = bf_start s \<and> bf_end s' = bf_end s \<and> bf_regions s' = bf_regions s
     \<and> bf_free_pages s' = bf_free_pages s \<and> bf_allocated_pages s' = bf_allocated_pages s
     \<and> bm_base (bf_bitmap s') = bm_base (bf_bitmap s)
     \<and> bm_span_pages (bf_bitmap s') = bm_span_pages (bf_bitmap s)
     \<and> bm_enabled (bf_bitmap s') = bm_enabled (bf_bitmap s)"

lemma same_meta_refl [simp]: "same_meta s s" by (simp add: same_meta_def)

lemma same_meta_trans: "same_meta s t \<Longrightarrow> same_meta t u \<Longrightarrow> same_meta s u" by (simp add: same_meta_def)

lemma same_meta_span: "same_meta s s' \<Longrightarrow> in_span (bf_bitmap s') q = in_span (bf_bitmap s) q"
  by (simp add: same_meta_def in_span_def)

definition link_ok :: "nat option \<Rightarrow> bool" where
  "link_ok n \<longleftrightarrow> n \<noteq> Some INVALID_PPN"

lemma decode_encode [simp]: "link_ok n \<Longrightarrow> decode_link (encode_link n) = n"
  by (auto simp: decode_link_def encode_link_def link_ok_def split: option.splits)

lemma link_ok_None [simp]: "link_ok None" by (simp add: link_ok_def)

lemma link_ok_ends:
  assumes "\<And>x. x \<in> set xs \<Longrightarrow> x < INVALID_PPN"
  shows "link_ok (first_or None xs)" and "link_ok (last_or None xs)"
proof -
  show "link_ok (first_or None xs)" using assms by (cases xs) (auto simp: link_ok_def)
  show "link_ok (last_or None xs)"
    using assms [of "last xs"] by (cases "xs = []") (auto simp: link_ok_def last_or_def)
qed

lemma next_of_simps [simp]:
  "link_ok n \<Longrightarrow> next_of (set_next p n s) = (next_of s)(p := n)"
  "next_of (set_previous p n s) = next_of s"
  "link_ok n \<Longrightarrow> previous_of (set_previous p n s) = (previous_of s)(p := n)"
  "previous_of (set_next p n s) = previous_of s"
  "next_of (s\<lparr>bf_free_list := fl\<rparr>) = next_of s" "next_of (s\<lparr>bf_bitmap := bm\<rparr>) = next_of s"
  "previous_of (s\<lparr>bf_free_list := fl\<rparr>) = previous_of s" "previous_of (s\<lparr>bf_bitmap := bm\<rparr>) = previous_of s"
  by (auto simp: next_of_def previous_of_def set_next_def set_previous_def)

lemma set_link_fields [simp]:
  "bf_start (set_next p n s) = bf_start s" "bf_end (set_next p n s) = bf_end s"
  "bf_regions (set_next p n s) = bf_regions s" "bf_free_list (set_next p n s) = bf_free_list s"
  "bf_bitmap (set_next p n s) = bf_bitmap s" "bf_free_pages (set_next p n s) = bf_free_pages s"
  "bf_allocated_pages (set_next p n s) = bf_allocated_pages s"
  "bf_start (set_previous p n s) = bf_start s" "bf_end (set_previous p n s) = bf_end s"
  "bf_regions (set_previous p n s) = bf_regions s" "bf_free_list (set_previous p n s) = bf_free_list s"
  "bf_bitmap (set_previous p n s) = bf_bitmap s" "bf_free_pages (set_previous p n s) = bf_free_pages s"
  "bf_allocated_pages (set_previous p n s) = bf_allocated_pages s"
  by (simp_all add: set_next_def set_previous_def)

lemma repD:
  assumes "rep s L"
  shows "length (bf_free_list s) = MAX_ORDER" "bitmap_wf (bf_bitmap s)" "lists_ok L"
    "\<And>k. k < MAX_ORDER \<Longrightarrow> bf_free_list s ! k = first_or None (L k)"
    "\<And>k. k < MAX_ORDER \<Longrightarrow> dseg (next_of s) (previous_of s) None (L k) None"
    "\<And>k q. k < MAX_ORDER \<Longrightarrow> q \<in> set (L k) \<Longrightarrow> in_span (bf_bitmap s) q"
    "\<And>k q. bm_enabled (bf_bitmap s) \<Longrightarrow> k < MAX_ORDER \<Longrightarrow> 2 ^ k dvd q \<Longrightarrow>
       bm_bit (bf_bitmap s) k q \<longleftrightarrow> q \<in> set (L k)"
  using assms unfolding rep_def by blast+

lemma lists_okD:
  assumes "lists_ok L"
  shows "\<And>k. k < MAX_ORDER \<Longrightarrow> distinct (L k)"
    "\<And>k q. k < MAX_ORDER \<Longrightarrow> q \<in> set (L k) \<Longrightarrow> q < INVALID_PPN"
    "\<And>k q. k < MAX_ORDER \<Longrightarrow> q \<in> set (L k) \<Longrightarrow> 2 ^ k dvd q"
    "\<And>j k q. j < MAX_ORDER \<Longrightarrow> k < MAX_ORDER \<Longrightarrow> q \<in> set (L j) \<Longrightarrow> q \<in> set (L k) \<Longrightarrow> j = k"
  using assms unfolding lists_ok_def by blast+

lemma lists_ok_upd:
  assumes "lists_ok L" and "k < MAX_ORDER" and "distinct xs"
    and "\<And>q. q \<in> set xs \<Longrightarrow> q < INVALID_PPN \<and> 2 ^ k dvd q"
    and "\<And>q j. q \<in> set xs \<Longrightarrow> j < MAX_ORDER \<Longrightarrow> j \<noteq> k \<Longrightarrow> q \<notin> set (L j)"
  shows "lists_ok (L(k := xs))"
  using assms unfolding lists_ok_def by (auto 4 3)

text \<open>Assembling the representation after a change of one list and of the bitmap.\<close>

lemma rep_upd:
  assumes r: "rep s L" and k: "k < MAX_ORDER" and ok: "lists_ok (L(k := xs))" and meta: "same_meta s s'"
    and fl: "bf_free_list s' = (bf_free_list s)[k := first_or None xs]"
    and seg: "dseg (next_of s') (previous_of s') None xs None"
    and other: "\<And>j. j < MAX_ORDER \<Longrightarrow> j \<noteq> k \<Longrightarrow> dseg (next_of s') (previous_of s') None (L j) None"
    and span: "\<And>q. q \<in> set xs \<Longrightarrow> in_span (bf_bitmap s) q"
    and wf: "bitmap_wf (bf_bitmap s')"
    and bm: "\<And>j q. bm_enabled (bf_bitmap s) \<Longrightarrow> j < MAX_ORDER \<Longrightarrow> 2 ^ j dvd q \<Longrightarrow>
      bm_bit (bf_bitmap s') j q \<longleftrightarrow> (if j = k then q \<in> set xs else bm_bit (bf_bitmap s) j q)"
  shows "rep s' (L(k := xs))"
proof -
  have en: "bm_enabled (bf_bitmap s') = bm_enabled (bf_bitmap s)" using meta by (simp add: same_meta_def)
  have "bf_free_list s' ! j = first_or None ((L(k := xs)) j)
      \<and> dseg (next_of s') (previous_of s') None ((L(k := xs)) j) None
      \<and> (\<forall>q\<in>set ((L(k := xs)) j). in_span (bf_bitmap s') q)" if "j < MAX_ORDER" for j
    using that k fl seg other span repD(1,4,6) [OF r] same_meta_span [OF meta]
    by (cases "j = k") auto
  moreover have "bm_bit (bf_bitmap s') j q \<longleftrightarrow> q \<in> set ((L(k := xs)) j)"
    if "bm_enabled (bf_bitmap s')" "j < MAX_ORDER" "2 ^ j dvd q" for j q
    using that bm [of j q] repD(7) [OF r, of j q] en by simp
  ultimately show ?thesis
    using ok wf fl repD(1) [OF r] unfolding rep_def by auto
qed

lemma push_block_rep:
  assumes r: "rep s L" and k: "k < MAX_ORDER" and p: "p < INVALID_PPN" "2 ^ k dvd p" "in_span (bf_bitmap s) p"
    and new: "\<And>j. j < MAX_ORDER \<Longrightarrow> p \<notin> set (L j)"
  shows "\<exists>s'. push_block s k p = Some s' \<and> rep s' (L(k := p # L k)) \<and> same_meta s s'"
proof -
  note ok = lists_okD [OF repD(3) [OF r]]
  let ?h = "first_or None (L k)"
  obtain b where b: "bm_set (bf_bitmap s) k p = Some b" "bitmap_wf b"
    "\<And>j q. bm_bit b j q \<longleftrightarrow> bm_bit (bf_bitmap s) j q \<or> same_block (bf_bitmap s) k p j q"
    "bm_base b = bm_base (bf_bitmap s)" "bm_span_pages b = bm_span_pages (bf_bitmap s)"
    "bm_enabled b = bm_enabled (bf_bitmap s)"
    using bm_set_eq [OF repD(2) [OF r]] by blast
  define s1 where "s1 = set_previous p None (set_next p ?h s)"
  define s2 where "s2 = (case ?h of Some h \<Rightarrow> set_previous h (Some p) s1 | None \<Rightarrow> s1)"
  define s' where "s' = s2\<lparr>bf_free_list := (bf_free_list s)[k := Some p], bf_bitmap := b\<rparr>"
  have hok: "link_ok ?h" "link_ok (Some p)"
    using link_ok_ends [of "L k"] ok(2) [OF k] p(1) by (auto simp: link_ok_def)
  have s2: "bf_free_list s2 = bf_free_list s" "bf_bitmap s2 = bf_bitmap s"
    "next_of s2 = (next_of s)(p := ?h)"
    "previous_of s2 = (case ?h of Some h \<Rightarrow> ((previous_of s)(p := None))(h := Some p) | None \<Rightarrow> (previous_of s)(p := None))"
    using hok by (auto simp: s2_def s1_def split: option.splits)
  have eq: "push_block s k p = Some s'"
    using repD(1) [OF r] repD(4) [OF r k] k b(1)
    by (cases ?h) (simp_all add: push_block_def Let_def s'_def s2_def s1_def)
  have meta: "same_meta s s'"
    using b(4-6) by (auto simp: same_meta_def s'_def s2_def s1_def split: option.splits)
  have seg: "dseg (next_of s') (previous_of s') None (p # L k) None"
  proof (cases "L k")
    case Nil
    then show ?thesis by (simp add: s'_def s2)
  next
    case (Cons h hs)
    have "dseg ((next_of s)(p := ?h)) ((previous_of s)(p := None)) None (L k) None"
      by (subst dseg_cong [where nx = "next_of s" and pv = "previous_of s"]) (use repD(5) [OF r k] new [OF k] in auto)
    then have "dseg ((next_of s)(p := ?h)) (((previous_of s)(p := None))(h := Some p)) (Some p) (h # hs) None"
      by (intro dseg_set_prev_first) (use Cons ok(1) [OF k] in auto)
    moreover have "h \<noteq> p" using new [OF k] Cons by auto
    ultimately show ?thesis using Cons by (simp add: s'_def s2)
  qed
  have other: "dseg (next_of s') (previous_of s') None (L j) None" if j: "j < MAX_ORDER" "j \<noteq> k" for j
  proof -
    have "h \<notin> set (L j)" if "?h = Some h" for h
      using that ok(4) [of j k h] j k by (cases "L k") auto
    then show ?thesis
      by (subst dseg_cong [where nx = "next_of s" and pv = "previous_of s"])
        (use repD(5) [OF r j(1)] new [OF j(1)] in \<open>auto simp: s'_def s2 split: option.splits\<close>)
  qed
  have bits: "bm_bit (bf_bitmap s') j q \<longleftrightarrow> (if j = k then q \<in> set (p # L k) else bm_bit (bf_bitmap s) j q)"
    if "bm_enabled (bf_bitmap s)" "j < MAX_ORDER" "2 ^ j dvd q" for j q
  proof -
    have "in_bitmap (bf_bitmap s) k p" using that(1) k p(3) by (simp add: in_bitmap_def in_span_def)
    then show ?thesis
      using aligned_same_block [OF p(2), of q "bf_bitmap s"] that repD(7) [OF r that] b(3) [of j q]
      by (auto simp: s'_def same_block_def)
  qed
  have "rep s' (L(k := p # L k))"
  proof (rule rep_upd [OF r k _ meta _ seg other _ _ bits])
    show "lists_ok (L(k := p # L k))"
      by (rule lists_ok_upd [OF repD(3) [OF r] k]) (use ok k p new in auto)
    show "bf_free_list s' = (bf_free_list s)[k := first_or None (p # L k)]" by (simp add: s'_def)
    show "\<And>q. q \<in> set (p # L k) \<Longrightarrow> in_span (bf_bitmap s) q" using p(3) repD(6) [OF r k] by auto
    show "bitmap_wf (bf_bitmap s')" using b(2) by (simp add: s'_def)
  qed
  then show ?thesis using eq meta by blast
qed

lemma first_or_in: "first_or None xs = Some x \<Longrightarrow> x \<in> set xs"
  by (cases xs) auto

lemma last_or_in: "last_or None xs = Some x \<Longrightarrow> x \<in> set xs"
  by (auto simp: last_or_def split: if_splits)

lemma unlink_seg:
  assumes r: "rep s L" and k: "k < MAX_ORDER" and L: "L k = as @ t # bs"
  defines "p \<equiv> last_or None as" and "n \<equiv> first_or None bs"
  shows "previous_of s t = p" and "next_of s t = n"
    and "\<exists>s'. unlink s k t p n = Some s' \<and> same_meta s s' \<and> bf_bitmap s' = bf_bitmap s
      \<and> bf_free_list s' = (bf_free_list s)[k := first_or None (as @ bs)]
      \<and> dseg (next_of s') (previous_of s') None (as @ bs) None
      \<and> (\<forall>j<MAX_ORDER. j \<noteq> k \<longrightarrow> dseg (next_of s') (previous_of s') None (L j) None)"
proof -
  note ok = lists_okD [OF repD(3) [OF r]]
  have seg: "dseg (next_of s) (previous_of s) None (as @ t # bs) None" using repD(5) [OF r k] L by simp
  have dist: "distinct (as @ t # bs)" using ok(1) [OF k] L by simp
  note rm = dseg_remove [OF seg dist, folded p_def n_def]
  show "previous_of s t = p" "next_of s t = n" using rm(1,2) by simp_all
  have lk: "link_ok p" "link_ok n"
    using link_ok_ends [of as] link_ok_ends [of bs] ok(2) [OF k] L by (auto simp: p_def n_def)
  define s1 where "s1 = (case p of Some a \<Rightarrow> set_next a n s | None \<Rightarrow> s\<lparr>bf_free_list := (bf_free_list s)[k := n]\<rparr>)"
  define s2 where "s2 = (case n of Some b \<Rightarrow> set_previous b p s1 | None \<Rightarrow> s1)"
  define s' where "s' = set_previous t None (set_next t None s2)"
  have u: "unlink s k t p n = Some s'"
    using repD(1) [OF r] k by (cases p; cases n) (simp_all add: unlink_def s'_def s2_def s1_def Let_def)
  have nx: "next_of s' = (case p of Some a \<Rightarrow> (next_of s)(a := n) | None \<Rightarrow> next_of s)(t := None)"
    using lk by (cases p; cases n) (simp_all add: s'_def s2_def s1_def)
  have pv: "previous_of s' = (case n of Some b \<Rightarrow> (previous_of s)(b := p) | None \<Rightarrow> previous_of s)(t := None)"
    using lk by (cases p; cases n) (simp_all add: s'_def s2_def s1_def)
  have fl: "bf_free_list s' = (bf_free_list s)[k := first_or None (as @ bs)]"
  proof (cases as)
    case Nil
    then have "p = None" by (simp add: p_def)
    then show ?thesis using Nil by (cases n) (simp_all add: s'_def s2_def s1_def n_def [symmetric])
  next
    case (Cons a as')
    then obtain l where "p = Some l" by (simp add: p_def last_or_def)
    moreover have "bf_free_list s ! k = Some a" using repD(4) [OF r k] L Cons by simp
    ultimately show ?thesis using Cons list_update_id [of "bf_free_list s" k]
      by (cases n) (simp_all add: s'_def s2_def s1_def)
  qed
  have other: "dseg (next_of s') (previous_of s') None (L j) None" if j: "j < MAX_ORDER" "j \<noteq> k" for j
  proof -
    have "x \<notin> set (L j)" if "x \<in> set (L k)" for x using that ok(4) [of j k x] j k by blast
    then have "t \<notin> set (L j)" "p \<noteq> Some x \<and> n \<noteq> Some x" if "x \<in> set (L j)" for x
      using L last_or_in [of as x] first_or_in [of bs x] that by (auto simp: p_def n_def)
    then show ?thesis
      by (subst dseg_cong [where nx = "next_of s" and pv = "previous_of s"])
        (use repD(5) [OF r j(1)] in \<open>auto simp: nx pv split: option.splits\<close>)
  qed
  have meta: "same_meta s s'" "bf_bitmap s' = bf_bitmap s"
    by (auto simp: same_meta_def s'_def s2_def s1_def split: option.splits)
  show "\<exists>s'. unlink s k t p n = Some s' \<and> same_meta s s' \<and> bf_bitmap s' = bf_bitmap s
      \<and> bf_free_list s' = (bf_free_list s)[k := first_or None (as @ bs)]
      \<and> dseg (next_of s') (previous_of s') None (as @ bs) None
      \<and> (\<forall>j<MAX_ORDER. j \<noteq> k \<longrightarrow> dseg (next_of s') (previous_of s') None (L j) None)"
    using u meta fl other rm(3) [of None None] nx pv by auto
qed

text \<open>Unlinking together with clearing the bit, which is a no-op when the bitmap is disabled.\<close>

lemma unlink_clear_rep:
  assumes r: "rep s L" and k: "k < MAX_ORDER" and L: "L k = as @ t # bs"
  shows "\<exists>s' b. unlink s k t (last_or None as) (first_or None bs) = Some s'
      \<and> bm_clear (bf_bitmap s') k t = Some b
      \<and> rep (s'\<lparr>bf_bitmap := b\<rparr>) (L(k := as @ bs)) \<and> same_meta s (s'\<lparr>bf_bitmap := b\<rparr>)
      \<and> (\<not> bm_enabled (bf_bitmap s) \<longrightarrow> s'\<lparr>bf_bitmap := b\<rparr> = s')"
proof -
  note ok = lists_okD [OF repD(3) [OF r]]
  obtain s1 where s1: "unlink s k t (last_or None as) (first_or None bs) = Some s1" "same_meta s s1"
    "bf_bitmap s1 = bf_bitmap s" "bf_free_list s1 = (bf_free_list s)[k := first_or None (as @ bs)]"
    "dseg (next_of s1) (previous_of s1) None (as @ bs) None"
    "\<And>j. j < MAX_ORDER \<Longrightarrow> j \<noteq> k \<Longrightarrow> dseg (next_of s1) (previous_of s1) None (L j) None"
    using unlink_seg(3) [OF r k L] by blast
  obtain b where b: "bm_clear (bf_bitmap s) k t = Some b" "bitmap_wf b"
    "\<And>j q. bm_bit b j q \<longleftrightarrow> bm_bit (bf_bitmap s) j q \<and> \<not> same_block (bf_bitmap s) k t j q"
    "bm_base b = bm_base (bf_bitmap s)" "bm_span_pages b = bm_span_pages (bf_bitmap s)"
    "bm_enabled b = bm_enabled (bf_bitmap s)"
    using bm_clear_eq [OF repD(2) [OF r]] by blast
  define s' where "s' = s1\<lparr>bf_bitmap := b\<rparr>"
  have tin: "t \<in> set (L k)" using L by simp
  have meta: "same_meta s s'" using s1(2) b(4-6) by (simp add: s'_def same_meta_def)
  have bits: "bm_bit (bf_bitmap s') j q \<longleftrightarrow> (if j = k then q \<in> set (as @ bs) else bm_bit (bf_bitmap s) j q)"
    if "bm_enabled (bf_bitmap s)" "j < MAX_ORDER" "2 ^ j dvd q" for j q
  proof -
    have "in_bitmap (bf_bitmap s) k t"
      using that(1) k repD(6) [OF r k tin] by (simp add: in_bitmap_def in_span_def)
    then show ?thesis
      using aligned_same_block [OF ok(3) [OF k tin], of q "bf_bitmap s"] that repD(7) [OF r that] b(3) [of j q]
        ok(1) [OF k] L
      by (auto simp: s'_def same_block_def)
  qed
  have "rep s' (L(k := as @ bs))"
  proof (rule rep_upd [OF r k _ meta _ _ _ _ _ bits])
    show "lists_ok (L(k := as @ bs))"
      by (rule lists_ok_upd [OF repD(3) [OF r] k]) (use ok(1-3) [OF k] ok(4) [OF _ k] L in auto)
  qed (use s1 b(2) repD(6) [OF r k] L in \<open>auto simp: s'_def\<close>)
  moreover have "\<not> bm_enabled (bf_bitmap s) \<longrightarrow> s' = s1"
    using b(1) s1(3) position_out [of "bf_bitmap s" k t] by (auto simp: s'_def bm_clear_def in_bitmap_def)
  ultimately show ?thesis using s1(1,3) b(1) meta by (auto simp: s'_def)
qed

lemma pop_block_empty: "rep s L \<Longrightarrow> k < MAX_ORDER \<Longrightarrow> L k = [] \<Longrightarrow> pop_block s k = Some (None, s)"
  using repD(1,4) [of s L] by (simp add: pop_block_def)

lemma pop_block_rep:
  assumes r: "rep s L" and k: "k < MAX_ORDER" and L: "L k = p # ps"
  shows "\<exists>s'. pop_block s k = Some (Some p, s') \<and> rep s' (L(k := ps)) \<and> same_meta s s'"
proof -
  have L': "L k = [] @ p # ps" using L by simp
  obtain s' b where u: "unlink s k p None (first_or None ps) = Some s'" "bm_clear (bf_bitmap s') k p = Some b"
    "rep (s'\<lparr>bf_bitmap := b\<rparr>) (L(k := ps))" "same_meta s (s'\<lparr>bf_bitmap := b\<rparr>)"
    using unlink_clear_rep [OF r k L'] by auto
  have "next_of s p = first_or None ps" using unlink_seg(2) [OF r k L'] .
  then show ?thesis
    using u repD(1) [OF r] repD(4) [OF r k] k L
    by (auto simp: pop_block_def unlink_def Let_def split: option.splits)
qed

lemma remove_scan_rep:
  assumes r: "rep s L" and k: "k < MAX_ORDER" and L: "L k = as @ bs" and t: "t \<notin> set as"
  shows "remove_scan s k t (first_or None bs) (last_or None as) =
    (if t \<in> set bs then map_option (\<lambda>s'. (True, s')) (unlink s k t (previous_of s t) (next_of s t)) else Some (False, s))"
  using L t
proof (induction bs arbitrary: as)
  case Nil
  then show ?case by (simp add: remove_scan.simps)
next
  case (Cons b bs)
  have n: "next_of s b = first_or None bs" and p: "previous_of s b = last_or None as"
    using unlink_seg(1,2) [OF r k Cons.prems(1)] by simp_all
  show ?case
  proof (cases "b = t")
    case True
    then show ?thesis using n p by (simp add: remove_scan.simps [of s k t "Some t"])
  next
    case False
    then show ?thesis
      using Cons.IH [of "as @ [b]"] Cons.prems n by (simp add: remove_scan.simps [of s k t "Some b"])
  qed
qed

text \<open>
  Both ways of finding a block to remove, the bitmap probe and the list scan, take exactly the
  requested block out of its list.
\<close>

lemma remove_block_rep:
  assumes r: "rep s L" and k: "k < MAX_ORDER" and t: "2 ^ k dvd t"
  shows "t \<notin> set (L k) \<Longrightarrow> remove_block s k t = Some (False, s)"
    and "t \<in> set (L k) \<Longrightarrow> \<exists>s'. remove_block s k t = Some (True, s') \<and> rep s' (L(k := remove1 t (L k))) \<and> same_meta s s'"
proof -
  have scan: "remove_scan s k t (first_or None (L k)) None = (if t \<in> set (L k)
      then map_option (\<lambda>s'. (True, s')) (unlink s k t (previous_of s t) (next_of s t)) else Some (False, s))"
    using remove_scan_rep [OF r k, of "[]" "L k" t] by simp
  have hit: "bm_enabled (bf_bitmap s) \<Longrightarrow> bm_is_set (bf_bitmap s) k t = Some (t \<in> set (L k))"
    using is_set_eq [OF repD(2) [OF r]] repD(7) [OF r _ k t] by simp
  have head: "idx (bf_free_list s) k = Some (first_or None (L k))" using repD(1) [OF r] repD(4) [OF r k] k by simp
  show "t \<notin> set (L k) \<Longrightarrow> remove_block s k t = Some (False, s)"
    using scan hit head by (simp add: remove_block_def)
  assume tin: "t \<in> set (L k)"
  then obtain as bs where L: "L k = as @ t # bs" by (meson split_list)
  have rm: "remove1 t (L k) = as @ bs"
    using L lists_okD(1) [OF repD(3) [OF r] k] by (simp add: remove1_append)
  show "\<exists>s'. remove_block s k t = Some (True, s') \<and> rep s' (L(k := remove1 t (L k))) \<and> same_meta s s'"
    using unlink_clear_rep [OF r k L] unlink_seg(1,2) [OF r k L] scan hit head tin
    by (cases "bm_enabled (bf_bitmap s)") (auto simp: remove_block_def rm)
qed

end
