(* ===== verification/Frame_Buddy.thy ===== *)
theory Frame_Buddy
  imports Frame_Lists
begin

text \<open>
  The buddy allocator as a partition of the managed frames: the free lists hold disjoint aligned
  blocks that lie inside managed regions and never contain two buddies, and allocation and release
  are exact on the set of free frames.
\<close>

unbundle bit_operations_syntax

section \<open>Aligned blocks and buddies\<close>

definition blk :: "nat \<Rightarrow> nat \<Rightarrow> nat set" where "blk k q = {q..<q + 2 ^ k}"

lemma blk_simps [simp]: "q \<in> blk k q" "finite (blk k q)" "card (blk k q) = 2 ^ k" "blk k q \<noteq> {}"
  by (auto simp: blk_def)

lemma buddy_cases:
  assumes "2 ^ c dvd (p::nat)"
  obtains m where "p = (2 * m) * 2 ^ c" "p XOR 2 ^ c = (2 * m + 1) * 2 ^ c"
  | m where "p = (2 * m + 1) * 2 ^ c" "p XOR 2 ^ c = (2 * m) * 2 ^ c"
proof -
  obtain m where m: "p = 2 ^ c * m" using assms by (elim dvdE)
  have x: "p XOR 2 ^ c = push_bit c (m XOR 1)"
    using push_bit_xor [of c m 1] by (simp add: m push_bit_eq_mult mult.commute)
  have xo: "m XOR 1 = (if even m then m + 1 else m - 1)" using xor_one_eq [of m] by simp
  show thesis
  proof (cases "even m")
    case True
    then obtain i where "m = 2 * i" by blast
    then show thesis using m x xo that(1) [of i] by (simp add: push_bit_eq_mult)
  next
    case False
    then obtain i where "m = 2 * i + 1" by (elim oddE)
    then show thesis using m x xo that(2) [of i] by (simp add: push_bit_eq_mult)
  qed
qed

lemma buddy_facts:
  assumes "2 ^ c dvd (p::nat)"
  shows "2 ^ c dvd p XOR 2 ^ c" and "2 ^ Suc c dvd min p (p XOR 2 ^ c)"
    and "blk c p \<union> blk c (p XOR 2 ^ c) = blk (Suc c) (min p (p XOR 2 ^ c))"
    and "blk c p \<inter> blk c (p XOR 2 ^ c) = {}" and "(p XOR 2 ^ c) XOR 2 ^ c = p"
    and "p XOR 2 ^ c = p + 2 ^ c \<or> p = (p XOR 2 ^ c) + 2 ^ c"
proof -
  show "(p XOR 2 ^ c) XOR 2 ^ c = p" by (simp add: xor.assoc)
  show "p XOR 2 ^ c = p + 2 ^ c \<or> p = (p XOR 2 ^ c) + 2 ^ c"
    using buddy_cases [OF assms] by (cases) (simp_all add: algebra_simps)
  then have *: "p XOR 2 ^ c = p + 2 ^ c \<or> p = (p XOR 2 ^ c) + 2 ^ c" .
  show "blk c p \<union> blk c (p XOR 2 ^ c) = blk (Suc c) (min p (p XOR 2 ^ c))"
    and "blk c p \<inter> blk c (p XOR 2 ^ c) = {}"
    using * by (auto simp: blk_def)
  show "2 ^ c dvd p XOR 2 ^ c" and "2 ^ Suc c dvd min p (p XOR 2 ^ c)"
    using buddy_cases [OF assms] by (cases; simp add: min_def algebra_simps)+
qed

lemma aligned_nest:
  assumes "2 ^ j dvd (p::nat)" and "2 ^ i dvd q" and "j \<le> i" and "x \<in> blk j p" and "x \<in> blk i q"
  shows "blk j p \<subseteq> blk i q"
proof -
  obtain d where "2 ^ i = (2::nat) ^ j * d" using le_imp_power_dvd [OF assms(3)] by blast
  moreover obtain a b where "p = 2 ^ j * a" "q = 2 ^ i * b" using assms(1,2) by (elim dvdE)
  ultimately have p: "p = 2 ^ j * a" and q: "q = 2 ^ j * (d * b)" and e: "q + 2 ^ i = 2 ^ j * (d * b + d)"
    and pe: "p + 2 ^ j = 2 ^ j * (a + 1)"
    by (simp_all add: algebra_simps)
  have "p < q + 2 ^ i" "q < p + 2 ^ j" using assms(4,5) by (auto simp: blk_def)
  then have "2 ^ j * a < 2 ^ j * (d * b + d)" "2 ^ j * (d * b) < 2 ^ j * (a + 1)" using p q e pe by simp_all
  then have "a < d * b + d" "d * b < a + 1" by (simp_all only: nat_mult_less_cancel_disj)
  then have "a + 1 \<le> d * b + d" "d * b \<le> a" by simp_all
  then have "2 ^ j * (a + 1) \<le> 2 ^ j * (d * b + d)" "2 ^ j * (d * b) \<le> 2 ^ j * a"
    using mult_le_mono2 by blast+
  then have "p + 2 ^ j \<le> q + 2 ^ i" "q \<le> p" unfolding pe e by (simp_all only: p q)
  then show ?thesis by (auto simp: blk_def)
qed

section \<open>Pools of blocks\<close>

definition free_set :: "free_lists \<Rightarrow> nat set" where
  "free_set L = (\<Union>k\<in>{..<MAX_ORDER}. \<Union>q\<in>set (L k). blk k q)"

definition managed :: "buddy \<Rightarrow> nat set" where
  "managed s = (\<Union>(a, b)\<in>set (bf_regions s). {a..<b})"

definition regions_ok :: "buddy \<Rightarrow> bool" where
  "regions_ok s \<longleftrightarrow> bf_end s \<le> 2 ^ 52
     \<and> (\<forall>(a, b)\<in>set (bf_regions s). a < b \<and> bf_start s \<le> a \<and> b \<le> bf_end s)
     \<and> (\<forall>r\<in>set (bf_regions s). \<forall>r'\<in>set (bf_regions s). r \<noteq> r' \<longrightarrow> snd r < fst r' \<or> snd r' < fst r)
     \<and> bm_base (bf_bitmap s) = bf_start s \<and> bm_span_pages (bf_bitmap s) = bf_end s - bf_start s"

definition pool_ok :: "buddy \<Rightarrow> free_lists \<Rightarrow> bool" where
  "pool_ok s L \<longleftrightarrow> rep s L \<and> regions_ok s
     \<and> (\<forall>k<MAX_ORDER. \<forall>q\<in>set (L k). is_managed_range s q (2 ^ k))
     \<and> (\<forall>k<MAX_ORDER. \<forall>q\<in>set (L k). \<forall>j<MAX_ORDER. \<forall>r\<in>set (L j). (k, q) \<noteq> (j, r) \<longrightarrow> blk k q \<inter> blk j r = {})"

definition coalesced :: "free_lists \<Rightarrow> bool" where
  "coalesced L \<longleftrightarrow> (\<forall>k. k + 1 < MAX_ORDER \<longrightarrow> (\<forall>q\<in>set (L k). q XOR 2 ^ k \<notin> set (L k)))"

lemma free_set_iff: "x \<in> free_set L \<longleftrightarrow> (\<exists>k<MAX_ORDER. \<exists>q\<in>set (L k). x \<in> blk k q)"
  by (auto simp: free_set_def)

lemma block_free: "k < MAX_ORDER \<Longrightarrow> q \<in> set (L k) \<Longrightarrow> blk k q \<subseteq> free_set L"
  by (auto simp: free_set_def)

lemma finite_free_set [simp]: "finite (free_set L)" by (simp add: free_set_def)

lemma pool_okD:
  assumes "pool_ok s L"
  shows "rep s L" "regions_ok s"
    "\<And>k q. k < MAX_ORDER \<Longrightarrow> q \<in> set (L k) \<Longrightarrow> is_managed_range s q (2 ^ k)"
    "\<And>k q j r. k < MAX_ORDER \<Longrightarrow> q \<in> set (L k) \<Longrightarrow> j < MAX_ORDER \<Longrightarrow> r \<in> set (L j) \<Longrightarrow>
       (k, q) \<noteq> (j, r) \<Longrightarrow> blk k q \<inter> blk j r = {}"
    "\<And>k q. k < MAX_ORDER \<Longrightarrow> q \<in> set (L k) \<Longrightarrow> 2 ^ k dvd q"
  using assms lists_okD(3) [OF repD(3)] unfolding pool_ok_def by blast+

lemma two_power_order: "k < MAX_ORDER \<Longrightarrow> (2::nat) ^ k \<le> 2 ^ 31"
  by (rule power_increasing) (simp_all add: MAX_ORDER_def)

lemma managed_range_iff:
  assumes "regions_ok s" and "k < MAX_ORDER"
  shows "is_managed_range s q (2 ^ k) \<longleftrightarrow> (\<exists>(a, b)\<in>set (bf_regions s). a \<le> q \<and> q + 2 ^ k \<le> b)"
proof -
  have b: "b \<le> 2 ^ 52" if "(a, b) \<in> set (bf_regions s)" for a b using assms(1) that by (auto simp: regions_ok_def)
  have "sat_add q (2 ^ k) \<le> b \<longleftrightarrow> q + 2 ^ k \<le> b" if "(a, b) \<in> set (bf_regions s)" for a b
    using b [OF that] by (auto simp: sat_add_def usize_max_def min_def)
  then show ?thesis by (auto simp: is_managed_range_def list_ex_iff)
qed

lemma managed_range_in_span:
  assumes "regions_ok s" and "k < MAX_ORDER" and "is_managed_range s q (2 ^ k)"
  shows "in_span (bf_bitmap s) q" and "q + 2 ^ k \<le> 2 ^ 52" and "q < INVALID_PPN" and "blk k q \<subseteq> managed s"
proof -
  obtain a b where ab: "(a, b) \<in> set (bf_regions s)" "a \<le> q" "q + 2 ^ k \<le> b"
    using assms managed_range_iff by blast
  then have r: "bf_start s \<le> a" "b \<le> bf_end s" "bf_end s \<le> 2 ^ 52" using assms(1) by (auto simp: regions_ok_def)
  have "q < q + 2 ^ k" by simp
  then have "q < bf_end s" using ab r by linarith
  then show "in_span (bf_bitmap s) q" using assms(1) ab r by (auto simp: in_span_def regions_ok_def)
  show "q + 2 ^ k \<le> 2 ^ 52" using ab r by simp
  then show "q < INVALID_PPN" using \<open>q < q + 2 ^ k\<close> by (simp add: INVALID_PPN_def usize_max_def del: less_add_same_cancel1)
  show "blk k q \<subseteq> managed s" 
    using ab unfolding managed_def blk_def by (intro subsetI UN_I [of "(a, b)"]) auto
qed

lemma managed_range_sub:
  assumes "regions_ok s" and "k < MAX_ORDER" and "is_managed_range s q (2 ^ k)" and "j \<le> k" and "blk j r \<subseteq> blk k q"
  shows "is_managed_range s r (2 ^ j)"
proof -
  have "r \<in> blk k q" using assms(5) blk_simps(1) by blast
  moreover have "0 < (2::nat) ^ j" by simp
  then have "r + (2 ^ j - 1) \<in> blk j r" unfolding blk_def atLeastLessThan_iff by linarith
  then have "r + (2 ^ j - 1) \<in> blk k q" using assms(5) by blast
  ultimately have "q \<le> r" "r + 2 ^ j \<le> q + 2 ^ k" by (auto simp: blk_def)
  moreover have j: "j < MAX_ORDER" using assms(2,4) by simp
  moreover obtain a b where "(a, b) \<in> set (bf_regions s)" "a \<le> q" "q + 2 ^ k \<le> b"
    using assms(3) managed_range_iff [OF assms(1,2)] by blast
  ultimately show ?thesis
    unfolding managed_range_iff [OF assms(1) j] by (intro bexI [of _ "(a, b)"]) auto
qed

text \<open>Two adjacent blocks of managed frames lie in one region, since regions do not touch.\<close>

lemma managed_range_join:
  assumes "regions_ok s" and "Suc c < MAX_ORDER" and "2 ^ c dvd p"
    and "is_managed_range s p (2 ^ c)" and "is_managed_range s (p XOR 2 ^ c) (2 ^ c)"
  shows "is_managed_range s (min p (p XOR 2 ^ c)) (2 ^ Suc c)"
proof -
  have c: "c < MAX_ORDER" using assms(2) by simp
  obtain a b where ab: "(a, b) \<in> set (bf_regions s)" "a \<le> p" "p + 2 ^ c \<le> b"
    using assms(4) managed_range_iff [OF assms(1) c] by blast
  obtain a' b' where ab': "(a', b') \<in> set (bf_regions s)" "a' \<le> p XOR 2 ^ c" "(p XOR 2 ^ c) + 2 ^ c \<le> b'"
    using assms(5) managed_range_iff [OF assms(1) c] by blast
  have adj: "p XOR 2 ^ c = p + 2 ^ c \<or> p = (p XOR 2 ^ c) + 2 ^ c" by (rule buddy_facts(6) [OF assms(3)])
  have "(a, b) = (a', b')"
  proof (rule ccontr)
    assume "(a, b) \<noteq> (a', b')"
    then have "b < a' \<or> b' < a" using assms(1) ab(1) ab'(1) unfolding regions_ok_def by fastforce
    then show False using adj ab ab' by auto
  qed
  then have "a \<le> min p (p XOR 2 ^ c)" "min p (p XOR 2 ^ c) + 2 ^ Suc c \<le> b" using ab ab' adj by auto
  then show ?thesis using ab(1) managed_range_iff [OF assms(1,2)] by blast
qed

lemma same_meta_regions:
  assumes "same_meta s s'"
  shows "regions_ok s' = regions_ok s" and "is_managed_range s' q n = is_managed_range s q n" and "managed s' = managed s"
  using assms by (simp_all add: same_meta_def regions_ok_def is_managed_range_def managed_def)

lemma pool_push:
  assumes ok: "pool_ok s L" and k: "k < MAX_ORDER" and p: "2 ^ k dvd p" "is_managed_range s p (2 ^ k)"
    and new: "blk k p \<inter> free_set L = {}"
  shows "\<exists>s'. push_block s k p = Some s' \<and> pool_ok s' (L(k := p # L k)) \<and> same_meta s s'"
proof -
  have span: "in_span (bf_bitmap s) p" "p < INVALID_PPN"
    using managed_range_in_span [OF pool_okD(2) [OF ok] k p(2)] by auto
  have dis: "blk k p \<inter> blk j q = {}" if "j < MAX_ORDER" "q \<in> set (L j)" for j q
    using new block_free [of j q L] that by blast
  then have "p \<notin> set (L j)" if "j < MAX_ORDER" for j using that blk_simps(1) by blast
  then obtain s' where s': "push_block s k p = Some s'" "rep s' (L(k := p # L k))" "same_meta s s'"
    using push_block_rep [OF pool_okD(1) [OF ok] k span(2) p(1) span(1)] by blast
  have "pool_ok s' (L(k := p # L k))"
    unfolding pool_ok_def same_meta_regions [OF s'(3)]
    using s'(2) pool_okD(2-4) [OF ok] p(2) dis by (auto simp: Int_commute) 
  then show ?thesis using s' by blast
qed

lemma free_set_push: "k < MAX_ORDER \<Longrightarrow> free_set (L(k := p # L k)) = blk k p \<union> free_set L"
  unfolding free_set_def by (rule set_eqI, rule iffI) (force split: if_splits, fastforce)

lemma pool_shrink:
  assumes ok: "pool_ok s L" and rep: "rep s' (L(k := xs))" and meta: "same_meta s s'" and sub: "set xs \<subseteq> set (L k)"
  shows "pool_ok s' (L(k := xs))"
proof -
  have m: "q \<in> set (L j)" if "q \<in> set ((L(k := xs)) j)" for j q using that sub by (auto split: if_splits)
  show ?thesis
    unfolding pool_ok_def same_meta_regions [OF meta] using rep pool_okD(2-4) [OF ok] m by meson
qed

lemma coalesced_shrink: "coalesced L \<Longrightarrow> set xs \<subseteq> set (L k) \<Longrightarrow> coalesced (L(k := xs))"
  unfolding coalesced_def by (auto split: if_splits)

lemma free_set_shrink:
  assumes ok: "pool_ok s L" and k: "k < MAX_ORDER" and t: "t \<in> set (L k)" and xs: "set xs = set (L k) - {t}"
  shows "free_set (L(k := xs)) = free_set L - blk k t"
proof -
  have m: "q \<in> set ((L(k := xs)) j) \<longleftrightarrow> q \<in> set (L j) \<and> (j, q) \<noteq> (k, t)" for j q using xs by auto
  have "x \<notin> blk k t" if "j < MAX_ORDER" "q \<in> set (L j)" "(j, q) \<noteq> (k, t)" "x \<in> blk j q" for x j q
    using pool_okD(4) [OF ok that(1,2) k t that(3)] that(4) by blast
  then show ?thesis unfolding set_eq_iff Diff_iff free_set_iff Bex_def m by blast
qed

section \<open>Splitting and merging\<close>

lemma split_loop_pool:
  assumes "pool_ok s L" and "so < MAX_ORDER" and "k \<le> so" and "2 ^ so dvd p" and "is_managed_range s p (2 ^ so)"
    and "blk so p \<inter> free_set L = {}"
  shows "\<exists>s'. split_loop s p so k = Some s' \<and> same_meta s s'
    \<and> pool_ok s' (\<lambda>j. if k \<le> j \<and> j < so then (p + 2 ^ j) # L j else L j)"
  using assms
proof (induction so arbitrary: s L)
  case (Suc so)
  show ?case
  proof (cases "k = Suc so")
    case False
    have so: "so < MAX_ORDER" "k \<le> so" using Suc.prems(2,3) False by auto
    have al: "2 ^ so dvd p" "2 ^ so dvd p + 2 ^ so" using Suc.prems(4) by (auto elim: dvd_trans [rotated] intro!: dvd_add)
    have halves: "blk so p \<subseteq> blk (Suc so) p" "blk so (p + 2 ^ so) \<subseteq> blk (Suc so) p"
      "blk so p \<inter> blk so (p + 2 ^ so) = {}" by (auto simp: blk_def)
    note mr = managed_range_sub [OF pool_okD(2) [OF Suc.prems(1)] Suc.prems(2,5)]
    obtain s1 where s1: "push_block s so (p + 2 ^ so) = Some s1" "same_meta s s1"
      "pool_ok s1 (L(so := (p + 2 ^ so) # L so))"
      using pool_push [OF Suc.prems(1) so(1) al(2) mr [OF _ halves(2)]] Suc.prems(6) halves(2) by auto
    have "blk so p \<inter> free_set (L(so := (p + 2 ^ so) # L so)) = {}"
      using Suc.prems(6) halves unfolding free_set_push [OF so(1)] by blast
    then obtain s' where s': "split_loop s1 p so k = Some s'" "same_meta s1 s'"
      "pool_ok s' (\<lambda>j. if k \<le> j \<and> j < so then (p + 2 ^ j) # (L(so := (p + 2 ^ so) # L so)) j
         else (L(so := (p + 2 ^ so) # L so)) j)"
      using Suc.IH [OF s1(3) so al(1)] mr [OF _ halves(1)] same_meta_regions(2) [OF s1(2)] by (auto simp del: fun_upd_apply)
    have "(\<lambda>j. if k \<le> j \<and> j < so then (p + 2 ^ j) # (L(so := (p + 2 ^ so) # L so)) j
         else (L(so := (p + 2 ^ so) # L so)) j) = (\<lambda>j. if k \<le> j \<and> j < Suc so then (p + 2 ^ j) # L j else L j)"
      using so(2) by (auto simp: fun_eq_iff less_Suc_eq)
    then show ?thesis
      using s1(1) s' same_meta_trans [OF s1(2) s'(2)] so(2) by auto
  qed (use Suc.prems(1) in \<open>simp cong: conj_cong\<close>)
qed (use assms(3) in simp)

lemma nested_diff: "m \<le> (n::nat) \<Longrightarrow>
    {p..<p + (n + n)} - {p..<p + m} = {p + n..<p + (n + n)} \<union> ({p..<p + n} - {p..<p + m})"
  by auto

lemma split_free_set:
  assumes "so < MAX_ORDER" and "k \<le> so"
  shows "free_set (\<lambda>j. if k \<le> j \<and> j < so then (p + 2 ^ j) # L j else L j) = free_set L \<union> (blk so p - blk k p)"
  using assms
proof (induction so)
  case (Suc so)
  let ?L = "\<lambda>so j. if k \<le> j \<and> j < so then (p + 2 ^ j) # L j else L j"
  show ?case
  proof (cases "k = Suc so")
    case False
    then have so: "so < MAX_ORDER" "k \<le> so" using Suc.prems by auto
    have "?L (Suc so) = (?L so)(so := (p + 2 ^ so) # ?L so so)" using so(2) by (auto simp: fun_eq_iff less_Suc_eq)
    then have "free_set (?L (Suc so)) = blk so (p + 2 ^ so) \<union> free_set (?L so)"
      using free_set_push [OF so(1), of "?L so" "p + 2 ^ so"] by (rule ssubst [where P = "\<lambda>l. free_set l = _"])
    moreover have "blk (Suc so) p - blk k p = blk so (p + 2 ^ so) \<union> (blk so p - blk k p)"
      using nested_diff [OF power_increasing [OF so(2), of "2::nat"], of p] by (simp add: blk_def mult_2 add.assoc)
    ultimately show ?thesis using Suc.IH [OF so] by auto
  qed (simp cong: conj_cong)
qed simp

lemma split_coalesced:
  assumes "coalesced L" and "so < MAX_ORDER" and "2 ^ so dvd p" and "blk so p \<inter> free_set L = {}"
  shows "coalesced (\<lambda>j. if k \<le> j \<and> j < so then (p + 2 ^ j) # L j else L j)"
proof -
  have pj: "(p + 2 ^ j) XOR 2 ^ j = p" "p XOR 2 ^ j = p + 2 ^ j" "p \<notin> set (L j)" "p + 2 ^ j \<notin> set (L j)"
    if "j < so" for j
  proof -
    have j: "j < MAX_ORDER" using that assms(2) by simp
    have "2 ^ Suc j dvd p" using that assms(3) by (meson Suc_leI dvd_trans le_imp_power_dvd)
    then obtain m where m: "p = 2 ^ Suc j * m" by (elim dvdE)
    then have d: "2 ^ j dvd p" by simp
    show x: "p XOR 2 ^ j = p + 2 ^ j"
      using buddy_cases [OF d]
    proof cases
      case (2 n)
      then have "2 ^ j * (2 * m) = 2 ^ j * (2 * n + 1)" using m by (simp add: algebra_simps)
      then have "2 * m = 2 * n + 1" by (simp only: mult_cancel1) simp
      then show ?thesis by presburger
    qed (simp add: algebra_simps)
    then show "(p + 2 ^ j) XOR 2 ^ j = p" using buddy_facts(5) [OF d] by simp
    have "(2::nat) ^ j < 2 ^ so" using that by simp
    then have "p + 2 ^ j \<in> blk so p" "p \<in> blk so p" by (simp_all add: blk_def)
    then show "p \<notin> set (L j)" "p + 2 ^ j \<notin> set (L j)"
      using assms(4) block_free [OF j, of _ L] blk_simps(1) by blast+
  qed
  have "q XOR 2 ^ j \<noteq> p + 2 ^ j" if "j < so" "q \<in> set (L j)" for q j
  proof
    assume "q XOR 2 ^ j = p + 2 ^ j"
    then have "(q XOR 2 ^ j) XOR 2 ^ j = p" using pj(1) [OF that(1)] by simp
    then have "q = p" by (simp add: xor.assoc)
    then show False using pj(3) [OF that(1)] that(2) by simp
  qed
  then show ?thesis
    using assms(1) pj unfolding coalesced_def by (auto split: if_splits)
qed

lemma merge_loop_pool:
  assumes "pool_ok s L" and "coalesced L" and "c < MAX_ORDER" and "2 ^ c dvd p" and "is_managed_range s p (2 ^ c)"
    and "blk c p \<inter> free_set L = {}"
  shows "\<exists>s' p' c' L'. merge_loop s p c = Some (s', p', c') \<and> same_meta s s' \<and> pool_ok s' L' \<and> coalesced L'
    \<and> c' < MAX_ORDER \<and> 2 ^ c' dvd p' \<and> is_managed_range s p' (2 ^ c') \<and> blk c' p' \<inter> free_set L' = {}
    \<and> blk c' p' \<union> free_set L' = blk c p \<union> free_set L \<and> (c' + 1 < MAX_ORDER \<longrightarrow> p' XOR 2 ^ c' \<notin> set (L' c'))"
  using assms
proof (induction s p c arbitrary: L rule: merge_loop.induct)
  case (1 s p c)
  let ?b = "p XOR 2 ^ c"
  note bf = buddy_facts [OF "1.prems"(4)]
  have stop: ?case if "merge_loop s p c = Some (s, p, c)" "c + 1 < MAX_ORDER \<longrightarrow> ?b \<notin> set (L c)"
    using that "1.prems" same_meta_refl [of s] by blast
  show ?case
  proof (cases "c + 1 < MAX_ORDER \<and> ?b \<in> set (L c)")
    case False
    have "merge_loop s p c = Some (s, p, c)"
      using False remove_block_rep(1) [OF pool_okD(1) [OF "1.prems"(1)] "1.prems"(3) bf(1)]
      by (simp add: merge_loop.simps [of s p c] Let_def)
    then show ?thesis using stop False by blast
  next
    case True
    then have c: "c + 1 < MAX_ORDER" "Suc c < MAX_ORDER" and bin: "?b \<in> set (L c)" by auto
    have mb: "is_managed_range s ?b (2 ^ c)" using pool_okD(3) [OF "1.prems"(1,3) bin] .
    obtain s1 where s1: "remove_block s c ?b = Some (True, s1)" "rep s1 (L(c := remove1 ?b (L c)))" "same_meta s s1"
      using remove_block_rep(2) [OF pool_okD(1) [OF "1.prems"(1)] "1.prems"(3) bf(1) bin] by blast
    let ?L = "L(c := remove1 ?b (L c))"
    have dist: "distinct (L c)" using lists_okD(1) [OF repD(3) [OF pool_okD(1) [OF "1.prems"(1)]] "1.prems"(3)] .
    have sub: "set (remove1 ?b (L c)) \<subseteq> set (L c)" by (rule set_remove1_subset)
    have fs: "free_set ?L = free_set L - blk c ?b"
      by (rule free_set_shrink [OF "1.prems"(1,3) bin]) (use dist in simp)
    have un: "blk (Suc c) (min p ?b) = blk c p \<union> blk c ?b" using bf(3) by simp
    have dj: "blk (c + 1) (min p ?b) \<inter> free_set ?L = {}" using "1.prems"(6) fs un by auto
    have bsub: "blk c ?b \<subseteq> free_set L" using block_free [of c ?b L] "1.prems"(3) bin by blast
    have mr: "is_managed_range s1 (min p ?b) (2 ^ (c + 1))"
      using managed_range_join [OF pool_okD(2) [OF "1.prems"(1)] c(2) "1.prems"(4,5) mb] same_meta_regions(2) [OF s1(3)] by simp
    have step: "merge_loop s p c = merge_loop s1 (min p ?b) (c + 1)"
      using c s1(1) mb by (simp add: merge_loop.simps [of s p c] Let_def)
    note ih = "1.IH" [OF c(1) refl _ s1(1) refl, of ?L]
    have "\<exists>s' p' c' L'. merge_loop s1 (min p ?b) (c + 1) = Some (s', p', c') \<and> same_meta s1 s' \<and> pool_ok s' L' \<and> coalesced L'
      \<and> c' < MAX_ORDER \<and> 2 ^ c' dvd p' \<and> is_managed_range s1 p' (2 ^ c') \<and> blk c' p' \<inter> free_set L' = {}
      \<and> blk c' p' \<union> free_set L' = blk (c + 1) (min p ?b) \<union> free_set ?L \<and> (c' + 1 < MAX_ORDER \<longrightarrow> p' XOR 2 ^ c' \<notin> set (L' c'))"
      by (rule ih) (use mb pool_shrink [OF "1.prems"(1) s1(2,3) sub] coalesced_shrink [OF "1.prems"(2) sub] c(1) bf(2) mr dj in \<open>simp_all del: fun_upd_apply\<close>)
    moreover have "blk (c + 1) (min p ?b) \<union> free_set ?L = blk c p \<union> free_set L" using fs un bsub by auto
    ultimately show ?thesis
      unfolding step same_meta_regions(2) [OF s1(3)] using same_meta_trans [OF s1(3)] by metis
  qed
qed

section \<open>The allocator invariant\<close>

text \<open>The free lists read off the state, following the links from each head.\<close>

fun walk :: "(nat \<Rightarrow> nat option) \<Rightarrow> nat \<Rightarrow> nat option \<Rightarrow> nat list" where
  "walk nx (Suc n) (Some x) = x # walk nx n (nx x)"
| "walk nx _ _ = []"

definition lists_of :: "buddy \<Rightarrow> free_lists" where
  "lists_of s k = walk (next_of s) (bf_end s - bf_start s) (bf_free_list s ! k)"

definition free_frames :: "buddy \<Rightarrow> nat set" where "free_frames s = free_set (lists_of s)"

definition buddy_ok :: "buddy \<Rightarrow> free_lists \<Rightarrow> bool" where
  "buddy_ok s L \<longleftrightarrow> pool_ok s L \<and> coalesced L \<and> bf_free_pages s = card (free_set L)
     \<and> bf_free_pages s + bf_allocated_pages s = card (managed s)"

definition frames_ok :: "buddy \<Rightarrow> bool" where "frames_ok s \<longleftrightarrow> (\<exists>L. buddy_ok s L)"

lemma walk_seg: "dseg nx pv p xs None \<Longrightarrow> length xs \<le> n \<Longrightarrow> walk nx n (first_or None xs) = xs"
proof (induction xs arbitrary: p n)
  case Nil
  then show ?case by (cases n) auto
next
  case (Cons x xs)
  then show ?case by (cases n) auto
qed

lemma managed_bounds:
  assumes "regions_ok s"
  shows "managed s \<subseteq> {bf_start s..<bf_end s}" and "finite (managed s)" and "card (managed s) \<le> 2 ^ 52"
proof -
  show sub: "managed s \<subseteq> {bf_start s..<bf_end s}" using assms by (force simp: managed_def regions_ok_def)
  show "finite (managed s)" using finite_subset [OF sub] by simp
  have "card (managed s) \<le> bf_end s - bf_start s" using card_mono [OF _ sub] by simp
  moreover have "bf_end s \<le> 2 ^ 52" using assms by (simp only: regions_ok_def)
  ultimately show "card (managed s) \<le> 2 ^ 52" by linarith
qed

lemma free_set_managed: "pool_ok s L \<Longrightarrow> free_set L \<subseteq> managed s"
  using managed_range_in_span(4) [OF pool_okD(2) _ pool_okD(3)] unfolding free_set_iff subset_iff by blast

lemma lists_of_eq:
  assumes "pool_ok s L" and "k < MAX_ORDER"
  shows "lists_of s k = L k"
proof -
  note r = pool_okD(1) [OF assms(1)] and ro = pool_okD(2) [OF assms(1)]
  have "set (L k) \<subseteq> managed s"
    using free_set_managed [OF assms(1)] block_free [OF assms(2), of _ L] blk_simps(1) by blast
  then have "card (set (L k)) \<le> card {bf_start s..<bf_end s}"
    using managed_bounds(1) [OF ro] by (intro card_mono) auto
  then have "length (L k) \<le> bf_end s - bf_start s"
    using distinct_card [OF lists_okD(1) [OF repD(3) [OF r] assms(2)]] by simp
  then show ?thesis
    using walk_seg [OF repD(5) [OF r assms(2)]] repD(4) [OF r assms(2)] by (simp add: lists_of_def)
qed

lemma free_frames_eq: "pool_ok s L \<Longrightarrow> free_frames s = free_set L"
  unfolding free_frames_def free_set_def by (intro SUP_cong refl) (simp add: lists_of_eq)

lemma buddy_okD:
  assumes "buddy_ok s L"
  shows "pool_ok s L" "coalesced L" "bf_free_pages s = card (free_set L)"
    "bf_free_pages s + bf_allocated_pages s = card (managed s)"
    "free_set L \<subseteq> managed s" "card (managed s) \<le> 2 ^ 52" "regions_ok s" "rep s L"
  using assms free_set_managed managed_bounds(3) pool_okD(1,2) by (auto simp: buddy_ok_def)

section \<open>Allocation\<close>

text \<open>
  Because buddies are always merged, a free aligned run of frames is never split across smaller
  free blocks.
\<close>

lemma free_run_in_block:
  assumes "pool_ok s L" and "coalesced L"
  shows "j < MAX_ORDER \<Longrightarrow> 2 ^ j dvd p \<Longrightarrow> blk j p \<subseteq> free_set L \<Longrightarrow>
    \<exists>i q. j \<le> i \<and> i < MAX_ORDER \<and> q \<in> set (L i) \<and> blk j p \<subseteq> blk i q"
proof (induction j arbitrary: p)
  case 0
  then have "p \<in> free_set L" by (auto simp: blk_def)
  then show ?case by (force simp: free_set_iff blk_def)
next
  case (Suc j)
  let ?b = "p XOR 2 ^ j"
  have al: "2 ^ j dvd p" using Suc.prems(2) by (auto elim: dvd_trans [rotated])
  have x: "?b = p + 2 ^ j"
    using buddy_cases [OF al]
  proof cases
    case (2 n)
    obtain m where "p = 2 ^ j * (2 * m)" using Suc.prems(2) by (auto elim!: dvdE)
    then have "2 ^ j * (2 * m) = 2 ^ j * (2 * n + 1)" using 2 by (simp add: algebra_simps)
    then have "2 * m = 2 * n + 1" by (simp only: mult_cancel1) simp
    then show ?thesis by presburger
  qed (simp add: algebra_simps)
  note bf = buddy_facts [OF al]
  have un: "blk (Suc j) p = blk j p \<union> blk j ?b" using bf(3) x by simp
  have j: "j < MAX_ORDER" using Suc.prems(1) by simp
  obtain i q where iq: "j \<le> i" "i < MAX_ORDER" "q \<in> set (L i)" "blk j p \<subseteq> blk i q"
    using Suc.IH [OF j al] Suc.prems(3) un by blast
  obtain i' q' where iq': "j \<le> i'" "i' < MAX_ORDER" "q' \<in> set (L i')" "blk j ?b \<subseteq> blk i' q'"
    using Suc.IH [OF j bf(1)] Suc.prems(3) un by blast
  have inb: "p \<in> blk i q" "?b \<in> blk i' q'" using iq(4) iq'(4) blk_simps(1) by blast+
  note al_q = pool_okD(5) [OF assms(1) iq(2,3)] and al_q' = pool_okD(5) [OF assms(1) iq'(2,3)]
  show ?case
  proof (cases "i = j \<and> i' = j")
    case True
    then have "q = p" "q' = ?b" using inb al bf(1) al_q al_q' aligned_nest [of j q j p p] aligned_nest [of j q' j ?b ?b] iq(4) iq'(4)
      by (force simp: blk_def)+
    then show ?thesis using assms(2) iq(3) iq'(3) True Suc.prems(1) by (auto simp: coalesced_def)
  next
    case False
    consider "Suc j \<le> i" | "Suc j \<le> i'" using False iq(1) iq'(1) by linarith
    then show ?thesis
    proof cases
      case 1
      then show ?thesis using aligned_nest [OF Suc.prems(2) al_q 1 _ inb(1)] iq by (simp add: un) blast
    next
      case 2
      then show ?thesis using aligned_nest [OF Suc.prems(2) al_q' 2 _ inb(2)] iq' by (simp add: un) blast
    qed
  qed
qed

lemma find_order_spec:
  assumes "length fl = MAX_ORDER" and "k \<le> MAX_ORDER"
  shows "\<exists>o'. find_order fl k = Some o' \<and> k \<le> o' \<and> o' \<le> MAX_ORDER \<and> (\<forall>j. k \<le> j \<and> j < o' \<longrightarrow> fl ! j = None)
    \<and> (o' < MAX_ORDER \<longrightarrow> fl ! o' \<noteq> None)"
  using assms
proof (induction fl k rule: find_order.induct)
  case (1 fl k)
  show ?case
  proof (cases "k < MAX_ORDER \<and> fl ! k = None")
    case True
    then have "idx fl k = Some None" using "1.prems"(1) by simp
    moreover obtain o' where o': "find_order fl (Suc k) = Some o'" "Suc k \<le> o'" "o' \<le> MAX_ORDER"
      "\<forall>j. Suc k \<le> j \<and> j < o' \<longrightarrow> fl ! j = None" "o' < MAX_ORDER \<longrightarrow> fl ! o' \<noteq> None"
      using "1.IH" [OF _ calculation refl] True "1.prems" by auto
    moreover have "\<forall>j. k \<le> j \<and> j < o' \<longrightarrow> fl ! j = None" using o'(4) True by (metis Suc_leI le_neq_implies_less)
    ultimately show ?thesis using True by (auto simp: find_order.simps [of fl k])
  next
    case False
    then show ?thesis using "1.prems" by (auto simp: find_order.simps [of fl k])
  qed
qed

lemma buddy_ok_counters:
  assumes pool: "pool_ok s L" and co: "coalesced L" and fp: "bf_free_pages s = f" "f = card (free_set L)"
    and tot: "bf_free_pages s + bf_allocated_pages s = card (managed s)"
  shows "buddy_ok s L"
  using assms by (simp add: buddy_ok_def)

lemma pool_ok_counters [simp]:
  "pool_ok (s\<lparr>bf_free_pages := x, bf_allocated_pages := y\<rparr>) L = pool_ok s L"
  "managed (s\<lparr>bf_free_pages := x, bf_allocated_pages := y\<rparr>) = managed s"
  by (simp_all add: pool_ok_def rep_def regions_ok_def is_managed_range_def managed_def next_of_def [abs_def] previous_of_def [abs_def])

lemma alloc_order_none:
  assumes "buddy_ok s L" and "k < MAX_ORDER" and "\<And>j. k \<le> j \<Longrightarrow> j < MAX_ORDER \<Longrightarrow> L j = []"
  shows "alloc_order s k = Some (None, s)"
proof -
  note r = buddy_okD(8) [OF assms(1)]
  obtain o' where o': "find_order (bf_free_list s) k = Some o'" "k \<le> o'" "o' \<le> MAX_ORDER"
    "o' < MAX_ORDER \<longrightarrow> bf_free_list s ! o' \<noteq> None"
    using find_order_spec [OF repD(1) [OF r], of k] assms(2) by auto
  then have "o' = MAX_ORDER" using repD(4) [OF r, of o'] assms(3) [of o'] by (cases "o' < MAX_ORDER") auto
  then show ?thesis using o'(1) assms(2) by (simp add: alloc_order_def)
qed

lemma alloc_order_some:
  assumes ok: "buddy_ok s L" and k: "k < MAX_ORDER" and i: "k \<le> i" "i < MAX_ORDER" "L i \<noteq> []"
  shows "\<exists>p s' L'. alloc_order s k = Some (Some p, s') \<and> buddy_ok s' L' \<and> 2 ^ k dvd p
    \<and> is_managed_range s p (2 ^ k) \<and> blk k p \<subseteq> free_set L \<and> free_set L' = free_set L - blk k p
    \<and> bf_regions s' = bf_regions s \<and> bf_free_pages s' + 2 ^ k = bf_free_pages s
    \<and> bf_allocated_pages s' = bf_allocated_pages s + 2 ^ k"
proof -
  note r = buddy_okD(8) [OF ok] and pool = buddy_okD(1) [OF ok]
  obtain so where so: "find_order (bf_free_list s) k = Some so" "k \<le> so" "so \<le> MAX_ORDER"
    "\<forall>j. k \<le> j \<and> j < so \<longrightarrow> bf_free_list s ! j = None" "so < MAX_ORDER \<longrightarrow> bf_free_list s ! so \<noteq> None"
    using find_order_spec [OF repD(1) [OF r], of k] k by auto
  have lt: "so < MAX_ORDER" using so(3,4) i repD(4) [OF r i(2)] by (cases "i < so") (auto simp: neq_Nil_conv)
  then obtain p ps where L: "L so = p # ps" using so(5) repD(4) [OF r lt] by (cases "L so") auto
  then have pin: "p \<in> set (L so)" by simp
  have dist: "distinct (p # ps)" using lists_okD(1) [OF repD(3) [OF r] lt] L by simp
  obtain s1 where s1: "pop_block s so = Some (Some p, s1)" "rep s1 (L(so := ps))" "same_meta s s1"
    using pop_block_rep [OF r lt L] by blast
  let ?L = "L(so := ps)"
  have sub: "set ps \<subseteq> set (L so)" using L by auto
  have al: "2 ^ so dvd p" and mr: "is_managed_range s p (2 ^ so)" using pool_okD(3,5) [OF pool lt pin] by auto
  have fs: "free_set ?L = free_set L - blk so p" by (rule free_set_shrink [OF pool lt pin]) (use L dist in auto)
  have bsub: "blk so p \<subseteq> free_set L" using block_free [of so p L] lt pin by blast
  obtain s2 where s2: "split_loop s1 p so k = Some s2" "same_meta s1 s2"
    "pool_ok s2 (\<lambda>j. if k \<le> j \<and> j < so then (p + 2 ^ j) # ?L j else ?L j)"
    using split_loop_pool [OF pool_shrink [OF pool s1(2,3) sub] lt so(2) al] mr fs same_meta_regions(2) [OF s1(3)] by auto
  define L' where "L' = (\<lambda>j. if k \<le> j \<and> j < so then (p + 2 ^ j) # ?L j else ?L j)"
  have kp: "blk k p \<subseteq> blk so p" using so(2) power_increasing [of k so "2::nat"] by (auto simp: blk_def)
  have fs': "free_set L' = free_set L - blk k p"
    unfolding L'_def split_free_set [OF lt so(2)] fs using bsub kp by auto
  have co: "coalesced L'"
    unfolding L'_def by (rule split_coalesced [OF coalesced_shrink [OF buddy_okD(2) [OF ok] sub] lt al]) (use fs in auto)
  have meta: "same_meta s s2" using same_meta_trans [OF s1(3) s2(2)] .
  have cnt: "bf_free_pages s2 = bf_free_pages s" "bf_allocated_pages s2 = bf_allocated_pages s" "bf_regions s2 = bf_regions s"
    using meta by (auto simp: same_meta_def)
  have "blk k p \<subseteq> free_set L" using kp bsub by blast
  then have card: "card (free_set L') + 2 ^ k = card (free_set L)" "2 ^ k \<le> card (free_set L)"
    using card_Diff_subset [of "blk k p" "free_set L"] card_mono [of "free_set L" "blk k p"] by (simp_all add: fs')
  let ?s = "s2\<lparr>bf_free_pages := wrap_sub (bf_free_pages s2) (2 ^ k), bf_allocated_pages := wrap_add (bf_allocated_pages s2) (2 ^ k)\<rparr>"
  have w: "wrap_sub (bf_free_pages s2) (2 ^ k) = bf_free_pages s - 2 ^ k"
    "wrap_add (bf_allocated_pages s2) (2 ^ k) = bf_allocated_pages s + 2 ^ k"
    using card buddy_okD(3,4,6) [OF ok] by (simp_all add: cnt wrap_sub_exact wrap_add_exact usize_max_def)
  have "alloc_order s k = Some (Some p, ?s)" using so(1) lt k s1(1) s2(1) by (simp add: alloc_order_def)
  moreover have "buddy_ok ?s L'"
    using s2(3) co card buddy_okD(3,4) [OF ok] same_meta_regions(3) [OF meta] by (simp add: buddy_ok_def L'_def w)
  moreover have "2 ^ k dvd p" using al le_imp_power_dvd [OF so(2), of "2::nat"] by (rule dvd_trans [rotated])
  moreover have "is_managed_range s p (2 ^ k)" using managed_range_sub [OF buddy_okD(7) [OF ok] lt mr so(2) kp] .
  ultimately show ?thesis
    using fs' \<open>blk k p \<subseteq> free_set L\<close> card buddy_okD(3) [OF ok] cnt w by (intro exI [of _ p] exI [of _ ?s] exI [of _ L']) simp
qed

lemma and_low_mask: "(p::nat) AND (2 ^ k - 1) = p mod 2 ^ k"
  using take_bit_eq_mask [of k p] take_bit_eq_mod [of k p] mask_eq_exp_minus_1 [of k, where 'a = nat] by simp

lemma dealloc_order_pool:
  assumes ok: "buddy_ok s L" and k: "k < MAX_ORDER" and al: "2 ^ k dvd p" and mr: "is_managed_range s p (2 ^ k)"
    and live: "blk k p \<inter> free_set L = {}"
  shows "\<exists>s' L'. dealloc_order s p k = Some s' \<and> buddy_ok s' L' \<and> free_set L' = free_set L \<union> blk k p
    \<and> bf_regions s' = bf_regions s \<and> bf_free_pages s' = bf_free_pages s + 2 ^ k
    \<and> bf_allocated_pages s' + 2 ^ k = bf_allocated_pages s"
proof -
  obtain s1 p' c' L1 where m: "merge_loop s p k = Some (s1, p', c')" "same_meta s s1" "pool_ok s1 L1" "coalesced L1"
    "c' < MAX_ORDER" "2 ^ c' dvd p'" "is_managed_range s p' (2 ^ c')" "blk c' p' \<inter> free_set L1 = {}"
    "blk c' p' \<union> free_set L1 = blk k p \<union> free_set L" "c' + 1 < MAX_ORDER \<longrightarrow> p' XOR 2 ^ c' \<notin> set (L1 c')"
    using merge_loop_pool [OF buddy_okD(1,2) [OF ok] k al mr live] by blast
  obtain s2 where s2: "push_block s1 c' p' = Some s2" "pool_ok s2 (L1(c' := p' # L1 c'))" "same_meta s1 s2"
    using pool_push [OF m(3,5,6) _ m(8)] m(7) same_meta_regions(2) [OF m(2)] by auto
  let ?L = "L1(c' := p' # L1 c')"
  have fs: "free_set ?L = free_set L \<union> blk k p" using free_set_push [OF m(5)] m(9) by auto
  have nx: "q XOR 2 ^ c' \<noteq> p'" if "c' + 1 < MAX_ORDER" "q \<in> set (L1 c')" for q
    using m(10) that by (auto simp: xor.assoc)
  have "p' XOR 2 ^ c' \<noteq> p'" using buddy_facts(4) [OF m(6)] by auto
  then have co: "coalesced ?L" using m(4,10) nx by (auto simp: coalesced_def)
  have meta: "same_meta s s2" using same_meta_trans [OF m(2) s2(3)] .
  have cnt: "bf_free_pages s2 = bf_free_pages s" "bf_allocated_pages s2 = bf_allocated_pages s" "bf_regions s2 = bf_regions s"
    using meta by (auto simp: same_meta_def)
  have card: "card (free_set ?L) = card (free_set L) + 2 ^ k"
    unfolding fs using card_Un_disjoint [of "free_set L" "blk k p"] live by (simp add: Int_commute)
  have "free_set ?L \<subseteq> managed s" using free_set_managed [OF s2(2)] same_meta_regions(3) [OF meta] by simp
  then have le: "card (free_set ?L) \<le> card (managed s)" using card_mono managed_bounds(2) [OF buddy_okD(7) [OF ok]] by blast
  let ?s = "s2\<lparr>bf_free_pages := wrap_add (bf_free_pages s2) (2 ^ k), bf_allocated_pages := wrap_sub (bf_allocated_pages s2) (2 ^ k)\<rparr>"
  have w: "wrap_add (bf_free_pages s2) (2 ^ k) = bf_free_pages s + 2 ^ k"
    "wrap_sub (bf_allocated_pages s2) (2 ^ k) = bf_allocated_pages s - 2 ^ k" "2 ^ k \<le> bf_allocated_pages s"
    using card le buddy_okD(3,4,6) [OF ok] by (simp_all add: cnt wrap_sub_exact wrap_add_exact usize_max_def)
  have "p AND (2 ^ k - 1) = 0" unfolding and_low_mask using al by (rule dvd_imp_mod_0)
  then have "dealloc_order s p k = Some ?s"
    using k mr m(1) s2(1) by (simp add: dealloc_order_def Let_def)
  moreover have "buddy_ok ?s ?L"
    using s2(2) co card w buddy_okD(3,4) [OF ok] same_meta_regions(3) [OF meta] by (simp add: buddy_ok_def del: fun_upd_apply)
  ultimately show ?thesis
    using fs cnt w by (intro exI [of _ ?s] exI [of _ ?L]) simp
qed

end
