(* ===== verification/Frames.thy ===== *)
theory Frames
  imports Frame_Buddy
begin

text \<open>
  The frame allocator's set-up from the boot information, and its properties: allocation and
  release are exact, the frame pool meets the allocator contract, and how the code behaves when
  two managed regions touch.
\<close>

unbundle bit_operations_syntax

section \<open>Cutting a range into blocks\<close>

lemma floor_log2_le: "0 < v \<Longrightarrow> 2 ^ j \<le> v \<longleftrightarrow> j \<le> floor_log2 v"
proof (induction v arbitrary: j rule: floor_log2.induct)
  case (1 v)
  show ?case
  proof (cases "v < 2")
    case True
    then have "v = 1" using "1.prems" by simp
    then show ?thesis using power_increasing_iff [of "2::nat" j 0] by (simp add: floor_log2.simps)
  next
    case False
    then have "2 ^ i \<le> v div 2 \<longleftrightarrow> i \<le> floor_log2 (v div 2)" for i using "1.IH" [OF False] by simp
    then show ?thesis using False by (cases j) (auto simp: floor_log2.simps [of v] less_eq_div_iff_mult_less_eq mult.commute)
  qed
qed

lemma ctz_dvd: "0 < v \<Longrightarrow> 2 ^ j dvd v \<longleftrightarrow> j \<le> ctz v"
proof (induction v arbitrary: j rule: ctz.induct)
  case (1 v)
  show ?case
  proof (cases "odd v")
    case True
    then show ?thesis by (cases j) (auto simp: ctz.simps [of v])
  next
    case False
    then obtain w where w: "v = 2 * w" "0 < w" using "1.prems" by (auto elim: evenE)
    have "ctz v = Suc (ctz w)" using w by (subst ctz.simps) simp
    moreover have "2 ^ i dvd w \<longleftrightarrow> i \<le> ctz w" for i using "1.IH" [of i] w by simp
    ultimately show ?thesis using w by (cases j) simp_all
  qed
qed

lemma fit_order_id: "start + 2 ^ k \<le> e \<Longrightarrow> fit_order start e k = k"
  by (cases k) auto

lemma range_order_spec:
  assumes "a < b"
  shows "range_order a b < MAX_ORDER" and "2 ^ range_order a b dvd a" and "a + 2 ^ range_order a b \<le> b"
    and "\<And>j. j < MAX_ORDER \<Longrightarrow> 2 ^ j dvd a \<Longrightarrow> a + 2 ^ j \<le> b \<Longrightarrow> j \<le> range_order a b"
proof -
  define lo where "lo = (if a = 0 then MAX_ORDER - 1 else min (ctz a) (MAX_ORDER - 1))"
  define k where "k = min (min (floor_log2 (b - a)) lo) (MAX_ORDER - 1)"
  have k: "k \<le> floor_log2 (b - a)" "k \<le> lo" "k < MAX_ORDER" by (auto simp: k_def MAX_ORDER_def)
  have "2 ^ k \<le> b - a" using floor_log2_le [of "b - a" k] k(1) assms by simp
  then have fit: "a + 2 ^ k \<le> b" using assms by simp
  have eq: "range_order a b = k"
    unfolding range_order_def Let_def lo_def [symmetric] k_def [symmetric] by (rule fit_order_id [OF fit])
  show "range_order a b < MAX_ORDER" "a + 2 ^ range_order a b \<le> b" using k fit eq by auto
  show "2 ^ range_order a b dvd a" using k(2) ctz_dvd [of a k] eq by (auto simp: lo_def split: if_splits)
  show "j \<le> range_order a b" if "j < MAX_ORDER" "2 ^ j dvd a" "a + 2 ^ j \<le> b" for j
  proof -
    have "2 ^ j \<le> b - a" using that(3) by simp
    then have "j \<le> floor_log2 (b - a)" using floor_log2_le [of "b - a" j] assms by simp
    moreover have "j \<le> lo" using that(1,2) ctz_dvd [of a j] by (auto simp: lo_def)
    ultimately show ?thesis using that(1) eq by (simp add: k_def)
  qed
qed

text \<open>
  While a region \<open>[a0, b)\<close> is being cut, its blocks below the cursor are exactly the greedy ones,
  which is why no two of them are buddies.
\<close>

definition greedy :: "free_lists \<Rightarrow> nat \<Rightarrow> nat \<Rightarrow> nat \<Rightarrow> bool" where
  "greedy L a0 c b \<longleftrightarrow> (\<forall>k<MAX_ORDER. \<forall>q\<in>set (L k). a0 \<le> q \<and> q < c \<longrightarrow> k = range_order q b)"

lemma pool_ok_free_pages [simp]: "pool_ok (s\<lparr>bf_free_pages := x\<rparr>) L = pool_ok s L"
  using pool_ok_counters(1) [where s = s and x = x and y = "bf_allocated_pages s" and L = L] by simp

lemma region_of_page:
  assumes "regions_ok s" and "(a0, b) \<in> set (bf_regions s)" and "is_managed_range s q (2 ^ k)" and "k < MAX_ORDER"
    and "x \<in> {a0..<b}" and "x \<in> blk k q \<or> Suc x = q \<or> x = q + 2 ^ k"
  shows "a0 \<le> q" and "q + 2 ^ k \<le> b"
proof -
  obtain a' b' where r: "(a', b') \<in> set (bf_regions s)" "a' \<le> q" "q + 2 ^ k \<le> b'"
    using assms(1,3,4) managed_range_iff by blast
  have "(a', b') = (a0, b)"
  proof (rule ccontr)
    assume "(a', b') \<noteq> (a0, b)"
    then have "b' < a0 \<or> b < a'" using assms(1,2) r(1) unfolding regions_ok_def by fastforce
    then show False using assms(5,6) r(2,3) by (auto simp: blk_def)
  qed
  then show "a0 \<le> q" "q + 2 ^ k \<le> b" using r by auto
qed

lemma greedy_no_buddy:
  assumes ok: "pool_ok s L" and r: "(a0, b) \<in> set (bf_regions s)" and c: "a0 \<le> c" "c < b"
    and g: "greedy L a0 c b" and new: "{c..<b} \<inter> free_set L = {}" and o1: "range_order c b + 1 < MAX_ORDER"
  shows "c XOR 2 ^ range_order c b \<notin> set (L (range_order c b))"
proof
  let ?o = "range_order c b"
  let ?q = "c XOR 2 ^ ?o"
  assume qin: "?q \<in> set (L ?o)"
  note ro = range_order_spec [OF c(2)]
  note bf = buddy_facts [OF ro(2)]
  have o: "?o < MAX_ORDER" using ro(1) .
  have mr: "is_managed_range s ?q (2 ^ ?o)" using pool_okD(3) [OF ok o qin] .
  have free: "blk ?o ?q \<subseteq> free_set L" using block_free [of ?o ?q L] o qin by blast
  have "c \<in> {a0..<b}" using c by simp
  then have reg: "a0 \<le> ?q" "?q + 2 ^ ?o \<le> b"
    if "Suc c = ?q \<or> c = ?q + 2 ^ ?o" using region_of_page [OF pool_okD(2) [OF ok] r mr o] that by blast+
  show False
    using bf(6)
  proof
    assume up: "?q = c + 2 ^ ?o"
    have "0 < (2::nat) ^ ?o" by simp
    then have "c + 2 ^ ?o - 1 \<in> {a0..<b}" "Suc (c + 2 ^ ?o - 1) = ?q"
      using c ro(3) up unfolding atLeastLessThan_iff by linarith+
    then have "?q + 2 ^ ?o \<le> b" using region_of_page(2) [OF pool_okD(2) [OF ok] r mr o] by blast
    then have "?q \<in> {c..<b}" using up by (auto intro: less_le_trans [rotated])
    then show False using new free blk_simps(1) by blast
  next
    assume down: "c = ?q + 2 ^ ?o"
    then have ql: "?q < c" by (metis less_add_same_cancel1 zero_less_numeral zero_less_power)
    have "?o = range_order ?q b" using g qin o reg down ql unfolding greedy_def by blast
    moreover have "Suc ?o \<le> range_order ?q b"
    proof (rule range_order_spec(4))
      show "?q < b" using ql c(2) by simp
      show "Suc ?o < MAX_ORDER" using o1 by simp
      have "min c ?q = ?q" using ql by simp
      then show "2 ^ Suc ?o dvd ?q" using bf(2) by simp
      show "?q + 2 ^ Suc ?o \<le> b" using down ro(3) by simp
    qed
    ultimately show False by simp
  qed
qed

lemma xor_flip: "(q::nat) XOR m = c \<Longrightarrow> c XOR m = q"
  by (auto simp: xor.assoc)

lemma add_range_pool:
  assumes "pool_ok s L" and "coalesced L" and "(a0, b) \<in> set (bf_regions s)" and "a0 \<le> c" and "c \<le> b"
    and "greedy L a0 c b" and "{c..<b} \<inter> free_set L = {}" and "bf_free_pages s = card (free_set L)"
  shows "\<exists>s' L'. add_range s c b = Some s' \<and> pool_ok s' L' \<and> coalesced L' \<and> free_set L' = free_set L \<union> {c..<b}
    \<and> bf_free_pages s' = card (free_set L') \<and> bf_regions s' = bf_regions s \<and> bf_allocated_pages s' = bf_allocated_pages s"
  using assms
proof (induction s c b arbitrary: L rule: add_range.induct)
  case (1 s c b)
  show ?case
  proof (cases "c < b")
    case False
    then have "add_range s c b = Some s" "{c..<b} = {}" by (simp_all add: add_range.simps [of s c b])
    then show ?thesis using "1.prems" by auto
  next
    case True
    let ?o = "range_order c b"
    let ?L = "L(?o := c # L ?o)"
    note ro = range_order_spec [OF True] and ok = "1.prems"(1)
    have rg: "regions_ok s" by (rule pool_okD(2) [OF ok])
    have mr: "is_managed_range s c (2 ^ ?o)"
      using "1.prems"(3,4) ro(3) managed_range_iff [OF rg ro(1)] by blast
    have cut: "{c..<b} = blk ?o c \<union> {c + 2 ^ ?o..<b}" "blk ?o c \<inter> {c + 2 ^ ?o..<b} = {}"
      using ro(3) by (auto simp: blk_def)
    have new: "blk ?o c \<inter> free_set L = {}" using "1.prems"(7) cut(1) by blast
    obtain s1 where s1: "push_block s ?o c = Some s1" "pool_ok s1 ?L" "same_meta s s1"
      using pool_push [OF ok ro(1,2) mr new] by blast
    have fs: "free_set ?L = blk ?o c \<union> free_set L" by (rule free_set_push [OF ro(1)])
    have nb: "c XOR 2 ^ ?o \<notin> set (L ?o)" if "?o + 1 < MAX_ORDER"
      using greedy_no_buddy [OF ok "1.prems"(3,4) True "1.prems"(6,7) that] .
    have "q XOR 2 ^ ?o \<noteq> c" if "q \<in> set (L ?o)" "?o + 1 < MAX_ORDER" for q
      using nb [OF that(2)] that(1) xor_flip [of q "2 ^ ?o" c] by blast
    moreover have "c XOR 2 ^ ?o \<noteq> c" using buddy_facts(4) [OF ro(2)] by auto
    ultimately have co: "coalesced ?L" using "1.prems"(2) nb by (auto simp: coalesced_def)
    have gr: "greedy ?L a0 (c + 2 ^ ?o) b"
    proof -
      have "q < c" if "k < MAX_ORDER" "q \<in> set (L k)" "q < c + 2 ^ ?o" for k q
        using that block_free [of k q L] blk_simps(1) [of q k] new by (force simp: blk_def)
      then show ?thesis using "1.prems"(6) unfolding greedy_def by auto
    qed
    have meta: "bf_free_pages s1 = bf_free_pages s" "bf_regions s1 = bf_regions s" "bf_allocated_pages s1 = bf_allocated_pages s"
      using s1(3) by (auto simp: same_meta_def)
    have card: "card (free_set ?L) = card (free_set L) + 2 ^ ?o"
      unfolding fs using card_Un_disjoint [OF _ _ new] by simp
    have "card (free_set ?L) \<le> card (managed s1)"
      by (rule card_mono [OF managed_bounds(2) [OF pool_okD(2) [OF s1(2)]] free_set_managed [OF s1(2)]])
    then have w: "wrap_add (bf_free_pages s1) (2 ^ ?o) = card (free_set ?L)"
      using managed_bounds(3) [OF pool_okD(2) [OF s1(2)]] card "1.prems"(8) meta
      by (simp add: wrap_add_exact usize_max_def)
    let ?s1 = "s1\<lparr>bf_free_pages := wrap_add (bf_free_pages s1) (2 ^ ?o)\<rparr>"
    have "\<exists>s' L'. add_range ?s1 (c + 2 ^ ?o) b = Some s' \<and> pool_ok s' L' \<and> coalesced L'
        \<and> free_set L' = free_set ?L \<union> {c + 2 ^ ?o..<b} \<and> bf_free_pages s' = card (free_set L')
        \<and> bf_regions s' = bf_regions ?s1 \<and> bf_allocated_pages s' = bf_allocated_pages ?s1"
      by (rule "1.IH" [OF True refl s1(1)])
        (use s1(2) co gr "1.prems"(3,4,7) ro(3) fs cut w meta in \<open>auto simp del: fun_upd_apply\<close>)
    moreover have "free_set ?L \<union> {c + 2 ^ ?o..<b} = free_set L \<union> {c..<b}" using fs cut(1) by auto
    moreover have "add_range s c b = add_range ?s1 (c + 2 ^ ?o) b"
      using True s1(1) by (simp add: add_range.simps [of s c b] Let_def)
    ultimately show ?thesis using meta by auto
  qed
qed

lemma add_ranges_pool:
  assumes "pool_ok s L" and "coalesced L" and "set rs \<subseteq> set (bf_regions s)" and "distinct rs"
    and "(\<Union>(a, b)\<in>set rs. {a..<b}) \<inter> free_set L = {}" and "bf_free_pages s = card (free_set L)"
  shows "\<exists>s' L'. for_opt (\<lambda>s (a, b). add_range s a b) s rs = Some s' \<and> pool_ok s' L' \<and> coalesced L'
    \<and> free_set L' = free_set L \<union> (\<Union>(a, b)\<in>set rs. {a..<b})
    \<and> bf_free_pages s' = card (free_set L') \<and> bf_regions s' = bf_regions s \<and> bf_allocated_pages s' = bf_allocated_pages s"
  using assms
proof (induction rs arbitrary: s L)
  case Nil
  then show ?case by auto
next
  case (Cons r rs)
  obtain a b where r: "r = (a, b)" by (cases r)
  have rin: "(a, b) \<in> set (bf_regions s)" using Cons.prems(3) r by simp
  have ro: "regions_ok s" by (rule pool_okD(2) [OF Cons.prems(1)])
  then have ab: "a < b" using rin by (auto simp: regions_ok_def)
  have "greedy L a a b" by (simp add: greedy_def)
  moreover have "{a..<b} \<inter> free_set L = {}" using Cons.prems(5) r by auto
  ultimately obtain s1 L1 where s1: "add_range s a b = Some s1" "pool_ok s1 L1" "coalesced L1"
    "free_set L1 = free_set L \<union> {a..<b}" "bf_free_pages s1 = card (free_set L1)"
    "bf_regions s1 = bf_regions s" "bf_allocated_pages s1 = bf_allocated_pages s"
    using add_range_pool [OF Cons.prems(1,2) rin order_refl less_imp_le [OF ab] _ _ Cons.prems(6)] by blast
  have sep: "{a..<b} \<inter> {a'..<b'} = {}" if "(a', b') \<in> set rs" for a' b'
  proof -
    have "(a', b') \<in> set (bf_regions s)" "(a', b') \<noteq> (a, b)" using that Cons.prems(3,4) r by auto
    then have "b < a' \<or> b' < a" using ro rin unfolding regions_ok_def by fastforce
    then show ?thesis by auto
  qed
  have "\<exists>s' L'. for_opt (\<lambda>s (a, b). add_range s a b) s1 rs = Some s' \<and> pool_ok s' L' \<and> coalesced L'
    \<and> free_set L' = free_set L1 \<union> (\<Union>(a, b)\<in>set rs. {a..<b})
    \<and> bf_free_pages s' = card (free_set L') \<and> bf_regions s' = bf_regions s1 \<and> bf_allocated_pages s' = bf_allocated_pages s1"
  proof (rule Cons.IH [OF s1(2,3)])
    show "(\<Union>(a, b)\<in>set rs. {a..<b}) \<inter> free_set L1 = {}"
      using Cons.prems(5) sep unfolding s1(4) by fastforce
  qed (use Cons.prems(3,4) s1(5,6) in auto)
  then show ?case using s1 r by (auto simp: Un_assoc)
qed

section \<open>The regions of the boot information\<close>

text \<open>What \<open>add_usable_region\<close> adds for one usable region, as page ranges.\<close>

definition page_range :: "nat \<times> nat \<Rightarrow> nat \<times> nat" where
  "page_range region = (phys_addr_ceil_ppn (fst region), phys_addr_floor_ppn (snd region))"

definition cut_region :: "nat \<Rightarrow> nat \<Rightarrow> nat \<times> nat \<Rightarrow> (nat \<times> nat) list" where
  "cut_region ks ke region = (let (a, b) = page_range region in
     filter (\<lambda>(x, y). x < y) (if ks < ke then [(a, min b ks), (max a ke, b)] else [(a, b)]))"

definition regions_fit :: "buddy \<Rightarrow> bool" where
  "regions_fit s \<longleftrightarrow> (\<forall>(a, b)\<in>set (bf_regions s). bf_start s \<le> a \<and> b \<le> bf_end s)"

lemma add_managed_range_regions:
  assumes "length (bf_regions s) < MAX_MANAGED_REGIONS"
  shows "bf_regions (add_managed_range s a b) = bf_regions s @ filter (\<lambda>(x, y). x < y) [(a, b)]"
    and "regions_fit s \<Longrightarrow> regions_fit (add_managed_range s a b)"
    and "bf_end s \<le> m \<Longrightarrow> b \<le> m \<Longrightarrow> bf_end (add_managed_range s a b) \<le> m"
    and "lo \<le> bf_start s \<Longrightarrow> lo \<le> a \<Longrightarrow> lo \<le> bf_start (add_managed_range s a b)"
  using assms by (auto simp: add_managed_range_def regions_fit_def)

lemma add_usable_region_regions:
  assumes "length (bf_regions s) + 2 \<le> MAX_MANAGED_REGIONS"
  shows "bf_regions (add_usable_region s r ks ke) = bf_regions s @ cut_region ks ke r"
    and "regions_fit s \<Longrightarrow> regions_fit (add_usable_region s r ks ke)"
    and "bf_end s \<le> m \<Longrightarrow> snd (page_range r) \<le> m \<Longrightarrow> bf_end (add_usable_region s r ks ke) \<le> m"
    and "lo \<le> bf_start s \<Longrightarrow> lo \<le> fst (page_range r) \<Longrightarrow> lo \<le> bf_start (add_usable_region s r ks ke)"
proof -
  have l: "length (bf_regions s) < MAX_MANAGED_REGIONS"
    "length (bf_regions (add_managed_range s a b)) < MAX_MANAGED_REGIONS" for a b
    using assms add_managed_range_regions(1) [of s a b] by auto
  note r = add_managed_range_regions [OF l(1)] add_managed_range_regions [OF l(2)]
  show "bf_regions (add_usable_region s r ks ke) = bf_regions s @ cut_region ks ke r"
    by (auto simp: add_usable_region_def cut_region_def page_range_def Let_def r)
  show "regions_fit s \<Longrightarrow> regions_fit (add_usable_region s r ks ke)"
    by (auto simp: add_usable_region_def Let_def intro!: r)
  show "bf_end s \<le> m \<Longrightarrow> snd (page_range r) \<le> m \<Longrightarrow> bf_end (add_usable_region s r ks ke) \<le> m"
    by (auto simp: add_usable_region_def Let_def page_range_def intro!: r)
  show "lo \<le> bf_start s \<Longrightarrow> lo \<le> fst (page_range r) \<Longrightarrow> lo \<le> bf_start (add_usable_region s r ks ke)"
    by (auto simp: add_usable_region_def Let_def page_range_def intro!: r)
qed

lemma cut_region_length: "length (cut_region ks ke r) \<le> 2"
  by (simp add: cut_region_def Let_def split: prod.splits)

lemma boot_regions:
  fixes ks ke :: nat
  assumes "length (bf_regions s) + 2 * length usable \<le> MAX_MANAGED_REGIONS"
    and "regions_fit s" and "bf_end s \<le> m" and "lo \<le> bf_start s" and "\<forall>r\<in>set usable. snd (page_range r) \<le> m \<and> lo \<le> fst (page_range r)"
  defines "s' \<equiv> foldl (\<lambda>s region. add_usable_region s region ks ke) s usable"
  shows "bf_regions s' = bf_regions s @ concat (map (cut_region ks ke) usable) \<and> regions_fit s' \<and> bf_end s' \<le> m \<and> lo \<le> bf_start s'"
  using assms(1-5) unfolding s'_def
proof (induction usable arbitrary: s)
  case (Cons r rs)
  have l: "length (bf_regions s) + 2 \<le> MAX_MANAGED_REGIONS" using Cons.prems(1) by simp
  note a = add_usable_region_regions [OF l, where r = r and ks = ks and ke = ke]
  have "length (bf_regions (add_usable_region s r ks ke)) + 2 * length rs \<le> MAX_MANAGED_REGIONS"
    using a(1) cut_region_length [of ks ke r] Cons.prems(1) by simp
  then show ?case
    using Cons.IH [of "add_usable_region s r ks ke"] a(1) a(2) [OF Cons.prems(2)] a(3) [OF Cons.prems(3)] a(4) [OF Cons.prems(4)] Cons.prems(5) by simp
qed simp

lemma pages_filter: "(\<Union>(a, b)\<in>set (filter (\<lambda>(x, y). x < y) rs). {a..<b}) = (\<Union>(a, b)\<in>set rs. {a..<b :: nat})"
  by (induction rs) auto

lemma cut_region_pages:
  "(\<Union>(a, b)\<in>set (cut_region ks ke r). {a..<b}) = {fst (page_range r)..<snd (page_range r)} - {ks..<ke}"
proof (cases "page_range r")
  case (Pair a b)
  then show ?thesis unfolding cut_region_def Let_def Pair prod.case pages_filter by auto
qed

lemma cut_region_sep:
  "sorted_wrt (\<lambda>r r'. snd r < fst r') (cut_region ks ke r)"
  "q \<in> set (cut_region ks ke r) \<Longrightarrow> fst (page_range r) \<le> fst q \<and> snd q \<le> snd (page_range r) \<and> fst q < snd q"
  by (cases "page_range r"; auto simp: cut_region_def split: if_splits)+

lemma boot_regions_sorted:
  assumes "sorted_wrt (\<lambda>r r'. snd (page_range r) < fst (page_range r')) usable"
  shows "sorted_wrt (\<lambda>r r'. snd r < fst r') (concat (map (cut_region ks ke) usable))"
  using assms
proof (induction usable)
  case (Cons r rs)
  have "snd q < fst q'" if "q \<in> set (cut_region ks ke r)" "r' \<in> set rs" "q' \<in> set (cut_region ks ke r')" for q q' r'
    using cut_region_sep(2) [OF that(1)] cut_region_sep(2) [OF that(3)] Cons.prems that(2) by fastforce
  then show ?case using Cons cut_region_sep(1) [of ks ke r] by (auto simp: sorted_wrt_append)
qed simp

lemma sorted_sep:
  assumes "sorted_wrt (\<lambda>r r'. snd r < fst r') (rs :: (nat \<times> nat) list)" and "\<forall>r\<in>set rs. fst r < snd r"
  shows "distinct rs"
    and "r \<in> set rs \<Longrightarrow> r' \<in> set rs \<Longrightarrow> r \<noteq> r' \<Longrightarrow> snd r < fst r' \<or> snd r' < fst r"
proof -
  show "distinct rs" using assms
  proof (induction rs)
    case (Cons a rs)
    then have "a \<notin> set rs" by (metis list.set_intros(1) not_less_iff_gr_or_eq sorted_wrt.simps(2))
    then show ?case using Cons by simp
  qed simp
  show "r \<in> set rs \<Longrightarrow> r' \<in> set rs \<Longrightarrow> r \<noteq> r' \<Longrightarrow> snd r < fst r' \<or> snd r' < fst r"
    using assms(1) by (induction rs) auto
qed

text \<open>
  Usable regions that are in order, do not touch after rounding to pages, lie within four
  gigabytes of each other and are few enough for the region table.
\<close>

definition boot_ok :: "(nat \<times> nat) list \<Rightarrow> bool" where
  "boot_ok usable \<longleftrightarrow> sorted_wrt (\<lambda>r r'. snd (page_range r) < fst (page_range r')) usable
     \<and> 2 * length usable \<le> MAX_MANAGED_REGIONS
     \<and> list_all (\<lambda>r. snd (page_range r) \<le> 2 ^ 52 \<and> fst (page_range r) \<le> usize_max
                     \<and> list_all (\<lambda>r'. snd (page_range r) \<le> fst (page_range r') + 2 ^ 20) usable) usable"

text \<open>The lowest page, and a bound for the highest.\<close>

lemma boot_span:
  assumes "boot_ok usable"
  obtains lo m where "\<forall>r\<in>set usable. snd (page_range r) \<le> m \<and> lo \<le> fst (page_range r)" "m \<le> lo + 2 ^ 20" "m \<le> 2 ^ 52" "lo \<le> usize_max"
proof (cases "usable = []")
  case True
  then show ?thesis using that [of 0 0] by simp
next
  case False
  define lo where "lo = Min (fst ` page_range ` set usable)"
  define m where "m = Max (snd ` page_range ` set usable)"
  have "lo \<in> fst ` page_range ` set usable" "m \<in> snd ` page_range ` set usable"
    unfolding lo_def m_def using False by (auto intro!: Min_in Max_in)
  then obtain r r' where r: "r \<in> set usable" "lo = fst (page_range r)" "r' \<in> set usable" "m = snd (page_range r')" by blast
  then have "m \<le> lo + 2 ^ 20" "m \<le> 2 ^ 52" "lo \<le> usize_max" using assms by (simp_all add: boot_ok_def list_all_iff)
  moreover have "\<forall>r\<in>set usable. snd (page_range r) \<le> m \<and> lo \<le> fst (page_range r)" by (simp add: lo_def m_def)
  ultimately show ?thesis using that by blast
qed

lemma rep_empty:
  assumes "bf_free_list s = replicate MAX_ORDER None" and "bitmap_wf (bf_bitmap s)"
    and "\<And>k q. \<not> bm_bit (bf_bitmap s) k q"
  shows "rep s (\<lambda>_. [])"
  using assms by (auto simp: rep_def lists_ok_def)

lemma bitmap_reset_fields [simp]:
  "bm_base (bitmap_reset a b) = a" "bm_span_pages (bitmap_reset a b) = b - a"
  "bm_bits (bitmap_reset a b) = replicate MAX_BITMAP_WORDS 0"
  by (auto simp: bitmap_reset_def bitmap_empty_def Let_def sat_sub_def split: prod.splits)

lemma bitmap_reset_clear: "end_ppn - base \<le> 2 ^ 20 \<Longrightarrow> \<not> bm_bit (bitmap_reset base end_ppn) k q"
  using position_in(2) [OF bitmap_reset_wf [of end_ppn base], of k q]
  by (auto simp: bm_bit_def)

lemma init_from_bootinfo_ok:
  assumes boot: "boot_ok usable"
  shows "\<exists>s'. init_from_bootinfo s usable ks ke = Some s' \<and> frames_ok s' \<and> free_frames s' = managed s'
    \<and> managed s' = (\<Union>r\<in>set usable. {fst (page_range r)..<snd (page_range r)}) - {ks..<ke} \<and> bf_allocated_pages s' = 0"
proof -
  define s0 where "s0 = foldl (\<lambda>s region. add_usable_region s region ks ke) (buddy_reset s) usable"
  define s1 where "s1 = s0\<lparr>bf_bitmap := bitmap_reset (bf_start s0) (bf_end s0)\<rparr>"
  let ?rs = "concat (map (cut_region ks ke) usable)"
  from boot_span [OF boot] obtain lo m
    where b: "\<forall>r\<in>set usable. snd (page_range r) \<le> m \<and> lo \<le> fst (page_range r)" "m \<le> lo + 2 ^ 20" "m \<le> 2 ^ 52" "lo \<le> usize_max" by blast
  have r: "bf_regions s0 = ?rs" "regions_fit s0" "bf_end s0 \<le> m" "lo \<le> bf_start s0"
    using boot_regions [of "buddy_reset s" usable m lo ks ke] boot b
    by (auto simp: s0_def boot_ok_def buddy_reset_def regions_fit_def)
  have pos: "\<forall>r\<in>set ?rs. fst r < snd r" using cut_region_sep(2) by fastforce
  have "sorted_wrt (\<lambda>r r'. snd r < fst r') ?rs" using boot_regions_sorted boot by (simp add: boot_ok_def)
  note sep = sorted_sep [OF this pos]
  have inv: "bf_free_list s0 = replicate MAX_ORDER None \<and> bf_free_pages s0 = 0 \<and> bf_allocated_pages s0 = 0"
    unfolding s0_def
    by (rule foldl_inv [where P = "\<lambda>s. bf_free_list s = replicate MAX_ORDER None \<and> bf_free_pages s = 0 \<and> bf_allocated_pages s = 0"])
      (auto simp: buddy_reset_def add_usable_region_def add_managed_range_def Let_def)
  have ro: "regions_ok s1"
  proof -
    have "a < b \<and> bf_start s0 \<le> a \<and> b \<le> bf_end s0" if "(a, b) \<in> set ?rs" for a b
      using bspec [OF pos that] bspec [OF r(2) [unfolded regions_fit_def r(1)] that] by simp
    moreover have "bf_end s0 \<le> 2 ^ 52" using r(3) b(3) by (rule order_trans)
    ultimately show ?thesis unfolding regions_ok_def s1_def using sep(2) r(1) by simp blast
  qed
  have span: "bf_end s0 - bf_start s0 \<le> 2 ^ 20" using r(3,4) b(2) by linarith
  have fe: "free_set (\<lambda>_. []) = {}" by (simp add: free_set_def)
  have rep: "rep s1 (\<lambda>_. [])"
    using inv bitmap_reset_wf [OF span] bitmap_reset_clear [OF span] by (intro rep_empty) (simp_all add: s1_def)
  have pool: "pool_ok s1 (\<lambda>_. [])" using ro rep by (simp add: pool_ok_def)
  obtain s' L' where s': "for_opt (\<lambda>s (a, b). add_range s a b) s1 (bf_regions s1) = Some s'" "pool_ok s' L'" "coalesced L'"
    "free_set L' = (\<Union>(a, b)\<in>set (bf_regions s1). {a..<b})" "bf_free_pages s' = card (free_set L')"
    "bf_regions s' = bf_regions s1" "bf_allocated_pages s' = bf_allocated_pages s1"
    using add_ranges_pool [OF pool, of "bf_regions s1"] r(1) sep(1) fe inv by (auto simp: coalesced_def s1_def)
  have m: "managed s' = free_set L'" by (simp add: managed_def s'(4,6))
  have "bf_regions s1 = ?rs" using r(1) by (simp add: s1_def)
  then have "free_set L' = (\<Union>r\<in>set usable. \<Union>(a, b)\<in>set (cut_region ks ke r). {a..<b})" using s'(4) by auto
  then have "free_set L' = (\<Union>r\<in>set usable. {fst (page_range r)..<snd (page_range r)}) - {ks..<ke}"
    unfolding cut_region_pages by auto
  moreover have "init_from_bootinfo s usable ks ke = Some s'"
    using s'(1) by (simp add: init_from_bootinfo_def Let_def s1_def s0_def)
  moreover have "frames_ok s'"
    unfolding frames_ok_def buddy_ok_def using s' m inv by (intro exI [of _ L']) (simp add: s1_def)
  ultimately show ?thesis using free_frames_eq [OF s'(2)] m s'(7) inv by (simp add: s1_def)
qed

section \<open>Frames in use\<close>

text \<open>Writes by the owner of a frame do not reach the free lists.\<close>

lemma frame_write_rep:
  assumes "rep s L" and "\<And>k. k < MAX_ORDER \<Longrightarrow> p \<notin> set (L k)"
  shows "rep (frame_write p w s) L"
proof -
  have "dseg (next_of (frame_write p w s)) (previous_of (frame_write p w s)) None (L k) None
      = dseg (next_of s) (previous_of s) None (L k) None" if "k < MAX_ORDER" for k
    using assms(2) [OF that] by (intro dseg_cong) (auto simp: next_of_def previous_of_def frame_write_def)
  then show ?thesis using assms(1) unfolding rep_def by (simp add: frame_write_def)
qed

lemma frame_write_ok:
  assumes "buddy_ok s L" and "p \<notin> free_set L"
  shows "buddy_ok (frame_write p w s) L" and "managed (frame_write p w s) = managed s"
proof -
  have "p \<notin> set (L k)" if "k < MAX_ORDER" for k
    using assms(2) block_free [OF that, of p L] blk_simps(1) [of p k] by blast
  then have "rep (frame_write p w s) L" using frame_write_rep buddy_okD(8) [OF assms(1)] by blast
  then show "buddy_ok (frame_write p w s) L" and "managed (frame_write p w s) = managed s"
    using assms(1) by (simp_all add: buddy_ok_def pool_ok_def regions_ok_def is_managed_range_def managed_def frame_write_def)
qed

lemma contiguous_new_ok:
  assumes "buddy_ok s L" and "{p..<p + n} \<inter> free_set L = {}"
  shows "buddy_ok (contiguous_new p n s) L \<and> managed (contiguous_new p n s) = managed s"
  unfolding contiguous_new_def using assms
proof (induction n)
  case (Suc n)
  have "p + n \<notin> free_set L" "{p..<p + n} \<inter> free_set L = {}"
    using Suc.prems(2) [unfolded disjoint_iff] by auto
  then show ?case
    using Suc.IH [OF Suc.prems(1)] frame_write_ok [of "foldl (\<lambda>s ppn. clear_frame ppn s) s [p..<p + n]" L "p + n" "(0, 0)"]
    by (simp add: clear_frame_def)
qed simp

lemma oom_count_ok [simp]:
  "buddy_ok (s\<lparr>frame_alloc_oom_count := n\<rparr>) L = buddy_ok s L"
  "managed (s\<lparr>frame_alloc_oom_count := n\<rparr>) = managed s"
  "free_frames (s\<lparr>frame_alloc_oom_count := n\<rparr>) = free_frames s"
  by (simp_all add: buddy_ok_def pool_ok_def rep_def regions_ok_def is_managed_range_def managed_def
      free_frames_def lists_of_def [abs_def] next_of_def [abs_def] previous_of_def [abs_def])

lemma frames_okI: "buddy_ok s L \<Longrightarrow> frames_ok s" by (auto simp: frames_ok_def)

lemma frames_okE:
  assumes "frames_ok s"
  obtains L where "buddy_ok s L" "free_frames s = free_set L"
  using assms free_frames_eq buddy_okD(1) by (auto simp: frames_ok_def)

lemma contiguous_managed:
  assumes "regions_ok s" and "k < MAX_ORDER" and "blk k p \<subseteq> managed s"
  shows "is_managed_range s p (2 ^ k)"
proof -
  have "p \<in> managed s" using assms(3) blk_simps(1) by blast
  then obtain a b where r: "(a, b) \<in> set (bf_regions s)" "a \<le> p" "p < b" by (auto simp: managed_def)
  have "p + 2 ^ k \<le> b"
  proof (rule ccontr)
    assume "\<not> p + 2 ^ k \<le> b"
    then have "b \<in> managed s" using r assms(3) by (auto simp: blk_def)
    then obtain a' b' where r': "(a', b') \<in> set (bf_regions s)" "a' \<le> b" "b < b'" by (auto simp: managed_def)
    then have "b < a' \<or> b' < a" using assms(1) r(1) unfolding regions_ok_def by fastforce
    then show False using r r' by simp
  qed
  then show ?thesis using r managed_range_iff [OF assms(1,2)] by blast
qed

lemma managed_regions: "bf_regions s' = bf_regions s \<Longrightarrow> managed s' = managed s"
  by (simp add: managed_def)

lemma alloc_order_frames:
  assumes "frames_ok s" and "k < MAX_ORDER"
  shows "\<exists>r s'. alloc_order s k = Some (r, s') \<and> frames_ok s' \<and> managed s' = managed s
    \<and> (case r of
         None \<Rightarrow> s' = s \<and> (\<nexists>p. 2 ^ k dvd p \<and> {p..<p + 2 ^ k} \<subseteq> free_frames s)
       | Some p \<Rightarrow> 2 ^ k dvd p \<and> {p..<p + 2 ^ k} \<subseteq> free_frames s
           \<and> free_frames s' = free_frames s - {p..<p + 2 ^ k})"
proof -
  obtain L where L: "buddy_ok s L" "free_frames s = free_set L" using assms(1) by (rule frames_okE)
  show ?thesis
  proof (cases "\<exists>i\<ge>k. i < MAX_ORDER \<and> L i \<noteq> []")
    case True
    then obtain p s' L' where a: "alloc_order s k = Some (Some p, s')" "buddy_ok s' L'" "2 ^ k dvd p"
      "blk k p \<subseteq> free_set L" "free_set L' = free_set L - blk k p" "bf_regions s' = bf_regions s"
      using alloc_order_some [OF L(1) assms(2)] by blast
    then show ?thesis
      using L(2) free_frames_eq [OF buddy_okD(1) [OF a(2)]] frames_okI [OF a(2)] managed_regions [OF a(6)]
      by (simp add: blk_def)
  next
    case False
    have "alloc_order s k = Some (None, s)" by (rule alloc_order_none [OF L(1) assms(2)]) (use False in auto)
    moreover have "\<not> (2 ^ k dvd p \<and> {p..<p + 2 ^ k} \<subseteq> free_frames s)" for p
    proof
      assume "2 ^ k dvd p \<and> {p..<p + 2 ^ k} \<subseteq> free_frames s"
      then obtain i q where "k \<le> i" "i < MAX_ORDER" "q \<in> set (L i)"
        using free_run_in_block [OF buddy_okD(1,2) [OF L(1)] assms(2), of p] by (auto simp: blk_def L(2))
      then show False using False by force
    qed
    ultimately show ?thesis using assms(1) by auto
  qed
qed

lemma alloc_order_succeeds:
  assumes "frames_ok s" and "k < MAX_ORDER" and "2 ^ k dvd q \<and> {q..<q + 2 ^ k} \<subseteq> free_frames s"
  shows "\<exists>p s'. alloc_order s k = Some (Some p, s') \<and> frames_ok s' \<and> managed s' = managed s \<and> 2 ^ k dvd p
    \<and> {p..<p + 2 ^ k} \<subseteq> free_frames s \<and> free_frames s' = free_frames s - {p..<p + 2 ^ k}"
proof -
  obtain r s' where a: "alloc_order s k = Some (r, s') \<and> frames_ok s' \<and> managed s' = managed s
    \<and> (case r of None \<Rightarrow> s' = s \<and> (\<nexists>p. 2 ^ k dvd p \<and> {p..<p + 2 ^ k} \<subseteq> free_frames s)
       | Some p \<Rightarrow> 2 ^ k dvd p \<and> {p..<p + 2 ^ k} \<subseteq> free_frames s \<and> free_frames s' = free_frames s - {p..<p + 2 ^ k})"
    using alloc_order_frames [OF assms(1,2)] by (elim exE)
  show ?thesis
  proof (cases r)
    case None
    then have "\<nexists>p. 2 ^ k dvd p \<and> {p..<p + 2 ^ k} \<subseteq> free_frames s" using a by simp
    then show ?thesis using assms(3) by blast
  next
    case (Some p)
    then show ?thesis using a by (intro exI [of _ p] exI [of _ s']) simp
  qed
qed

lemma dealloc_order_frames:
  assumes "frames_ok s" and "k < MAX_ORDER" and "2 ^ k dvd p" and "{p..<p + 2 ^ k} \<subseteq> managed s - free_frames s"
  shows "\<exists>s'. dealloc_order s p k = Some s' \<and> frames_ok s' \<and> managed s' = managed s
    \<and> free_frames s' = free_frames s \<union> {p..<p + 2 ^ k}"
proof -
  obtain L where L: "buddy_ok s L" "free_frames s = free_set L" using assms(1) by (rule frames_okE)
  have mr: "is_managed_range s p (2 ^ k)"
    using contiguous_managed [OF buddy_okD(7) [OF L(1)] assms(2), of p] assms(4) by (auto simp: blk_def)
  have "blk k p \<inter> free_set L = {}" using assms(4) L(2) by (auto simp: blk_def)
  then obtain s' L' where d: "dealloc_order s p k = Some s'" "buddy_ok s' L'" "free_set L' = free_set L \<union> blk k p"
    "bf_regions s' = bf_regions s"
    using dealloc_order_pool [OF L(1) assms(2,3) mr] by blast
  then show ?thesis
    using L(2) free_frames_eq [OF buddy_okD(1) [OF d(2)]] frames_okI [OF d(2)] managed_regions [OF d(4)]
    by (simp add: blk_def)
qed

section \<open>The allocator contract\<close>

text \<open>
  \<open>frame_acquire\<close> is \<open>frame_alloc\<close> followed by the new owner overwriting the frame with arbitrary
  contents \<open>w\<close>.
\<close>

definition frame_acquire :: "(nat \<Rightarrow> nat \<times> nat) \<Rightarrow> buddy \<Rightarrow> (nat option \<times> buddy) option" where
  "frame_acquire w s = map_option (\<lambda>(r, s'). (r, case r of None \<Rightarrow> s' | Some p \<Rightarrow> frame_write p (w p) s')) (frame_alloc s)"

definition frames_in_use :: "buddy \<Rightarrow> nat set" where
  "frames_in_use s = managed s - free_frames s"

lemma zero_order: "0 < MAX_ORDER" by (simp add: MAX_ORDER_def)

lemma frame_acquire_spec:
  assumes "frames_ok s"
  shows "\<exists>r s'. frame_acquire w s = Some (r, s') \<and> frames_ok s' \<and> managed s' = managed s
    \<and> (case r of None \<Rightarrow> free_frames s = {} \<and> free_frames s' = {}
       | Some p \<Rightarrow> p \<in> free_frames s \<and> free_frames s' = free_frames s - {p})"
proof -
  obtain r s1 where a: "alloc_order s 0 = Some (r, s1)" "frames_ok s1" "managed s1 = managed s"
    "case r of None \<Rightarrow> s1 = s \<and> (\<nexists>p. 2 ^ 0 dvd p \<and> {p..<p + 2 ^ 0} \<subseteq> free_frames s)
      | Some p \<Rightarrow> 2 ^ 0 dvd p \<and> {p..<p + 2 ^ 0} \<subseteq> free_frames s \<and> free_frames s1 = free_frames s - {p..<p + 2 ^ 0}"
    using alloc_order_frames [OF assms zero_order] by blast
  obtain L where L: "buddy_ok s1 L" "free_frames s1 = free_set L" using a(2) by (rule frames_okE)
  show ?thesis
  proof (cases r)
    case None
    then have "free_frames s = {}" "s1 = s" using a(4) by auto
    then show ?thesis
      using a L None frames_okI [of "s\<lparr>frame_alloc_oom_count := wrap_add (frame_alloc_oom_count s) 1\<rparr>" L]
      by (simp add: frame_acquire_def frame_alloc_def)
  next
    case (Some p)
    have p: "p \<notin> free_set L" using a(4) Some L(2) by auto
    note w0 = frame_write_ok [OF L(1) p, of "(0, 0)"]
    note w1 = frame_write_ok [OF w0(1) p, of "w p"]
    show ?thesis
      using a Some w0 w1 frames_okI [OF w1(1)] free_frames_eq [OF buddy_okD(1) [OF w1(1)]] L(2)
      by (auto simp: frame_acquire_def frame_alloc_def clear_frame_def)
  qed
qed

lemma frame_dealloc_spec:
  assumes "frames_ok s" and "p \<in> frames_in_use s"
  shows "\<exists>s'. frame_dealloc s p = Some s' \<and> frames_ok s' \<and> managed s' = managed s \<and> free_frames s' = insert p (free_frames s)"
  using dealloc_order_frames [OF assms(1) zero_order, of p] assms(2) by (auto simp: frame_dealloc_def frames_in_use_def)

lemma free_in_managed: "frames_ok s \<Longrightarrow> free_frames s \<subseteq> managed s"
  by (metis buddy_okD(5) frames_okE)

interpretation frames: resource_allocator "frame_acquire w" frame_dealloc frames_in_use
  "\<lambda>s. frames_ok s \<and> managed s = M" for w M
proof (unfold_locales, goal_cases)
  case (1 s)
  then show ?case using frame_acquire_spec [of s w] by auto
next
  case (2 s ro s')
  then show ?case using frame_acquire_spec [of s w] by auto
next
  case (3 s r s')
  then show ?case using frame_acquire_spec [of s w] by (auto simp: frames_in_use_def)
next
  case (4 s r s')
  then show ?case using frame_acquire_spec [of s w] free_in_managed [of s] by (auto simp: frames_in_use_def)
next
  case (5 s s')
  then show ?case using frame_acquire_spec [of s w] by (auto simp: frames_in_use_def)
next
  case (6 s r)
  then show ?case using frame_dealloc_spec [of s r] by auto
next
  case (7 s r s')
  then show ?case using frame_dealloc_spec [of s r] by auto
next
  case (8 s r s')
  then show ?case using frame_dealloc_spec [of s r] by (auto simp: frames_in_use_def)
qed

lemma top_bit: "2 ^ h \<le> (x::nat) \<Longrightarrow> x < 2 ^ Suc h \<Longrightarrow> bit x h"
proof -
  assume "2 ^ h \<le> x" "x < 2 ^ Suc h"
  then have "x div 2 ^ h = 1" by (intro div_nat_eqI) simp_all
  then show "bit x h" by (simp add: bit_iff_odd)
qed

lemma power_two_ctz:
  assumes "is_power_of_two n"
  shows "n = 2 ^ ctz n"
proof -
  have n: "0 < n" using assms by (simp add: is_power_of_two_def)
  obtain m where m: "n = 2 ^ ctz n * m" using ctz_dvd [OF n, of "ctz n"] by auto
  have "odd m"
  proof
    assume "even m"
    then have "2 ^ Suc (ctz n) dvd n" by (subst m) simp
    then show False using ctz_dvd [OF n, of "Suc (ctz n)"] by simp
  qed
  have "m = 1"
  proof (rule ccontr)
    assume "m \<noteq> 1"
    then have "2 \<le> m" using n m by (cases m) auto
    define h where "h = floor_log2 n"
    have h: "2 ^ h \<le> n" "\<not> 2 ^ Suc h \<le> n" using floor_log2_le [OF n, of h] floor_log2_le [OF n, of "Suc h"] by (simp_all add: h_def)
    have "n \<noteq> 2 ^ h"
    proof
      assume e: "n = 2 ^ h"
      then have "h \<le> ctz n" using ctz_dvd [OF n, of h] by simp
      then have "2 ^ h \<le> (2::nat) ^ ctz n" by simp
      moreover have "2 ^ ctz n * 2 \<le> n" using \<open>2 \<le> m\<close> by (subst (2) m) simp
      ultimately show False using e n by linarith
    qed
    then have "2 ^ h \<le> n - 1" "n - 1 < 2 ^ Suc h" "n < 2 ^ Suc h" using h by simp_all
    then have "bit n h" "bit (n - 1) h"
      using h top_bit [of h n] top_bit [of h "n - 1"] by blast+
    then have "bit (n AND (n - 1)) h" by (simp add: bit_and_iff)
    then show False using assms by (simp add: is_power_of_two_def)
  qed
  then show ?thesis using m by simp
qed

section \<open>Touching regions\<close>

definition buddy_new :: buddy where
  "buddy_new = \<lparr>bf_start = 0, bf_end = 0, bf_regions = [], bf_free_list = replicate MAX_ORDER None,
     bf_bitmap = bitmap_empty, bf_free_pages = 0, bf_allocated_pages = 0, frame_alloc_oom_count = 0,
     mem_next = \<lambda>_. 0, mem_prev = \<lambda>_. 0\<rparr>"

lemma rep_counters [simp]: "rep (s\<lparr>bf_free_pages := x\<rparr>) L = rep s L" "rep (s\<lparr>bf_allocated_pages := x\<rparr>) L = rep s L"
  by (simp_all add: rep_def next_of_def [abs_def] previous_of_def [abs_def])

lemma in_span_counters [simp]: "in_span (bf_bitmap (s\<lparr>bf_free_pages := x\<rparr>)) q = in_span (bf_bitmap s) q" by simp

definition two_pages :: "buddy \<Rightarrow> bool" where
  "two_pages s \<longleftrightarrow> bf_regions s = [(0, 1), (1, 2)] \<and> bm_base (bf_bitmap s) = 0 \<and> bm_span_pages (bf_bitmap s) = 2"

lemma two_pages_meta: "same_meta s s' \<Longrightarrow> two_pages s \<Longrightarrow> two_pages s'"
  by (simp add: two_pages_def same_meta_def)

lemma two_pages_push:
  assumes "rep s L" and "two_pages s" and "k < 2" and "p < 2" and "2 ^ k dvd p" and "\<And>j. j < MAX_ORDER \<Longrightarrow> p \<notin> set (L j)"
  shows "\<exists>s'. push_block s k p = Some s' \<and> rep s' (L(k := p # L k)) \<and> two_pages s'"
proof -
  have "k < MAX_ORDER" "p < INVALID_PPN" "in_span (bf_bitmap s) p"
    using assms(2-4) by (auto simp: MAX_ORDER_def INVALID_PPN_def usize_max_def in_span_def two_pages_def)
  then show ?thesis using push_block_rep [OF assms(1) _ _ assms(5) _ assms(6)] two_pages_meta assms(2) by blast
qed

lemma add_range_page:
  assumes "range_order a (a + 1) = 0" and "push_block s 0 a = Some s'"
  shows "add_range s a (a + 1) = Some (s'\<lparr>bf_free_pages := wrap_add (bf_free_pages s') (2 ^ 0)\<rparr>)"
  using assms by (subst add_range.simps, simp add: Let_def) (subst add_range.simps, simp)

lemma two_pages_init:
  "\<exists>s. init_from_bootinfo buddy_new [(0, 4096), (4096, 8192)] 16 20 = Some s \<and> rep s ((\<lambda>_. [])(0 := [1, 0])) \<and> two_pages s"
proof -
  define s0 where "s0 = foldl (\<lambda>s region. add_usable_region s region 16 20) (buddy_reset buddy_new) [(0, 4096), (4096, 8192)]"
  have s0: "bf_regions s0 = [(0, 1), (1, 2)]" "bf_start s0 = 0" "bf_end s0 = 2" "bf_free_list s0 = replicate MAX_ORDER None"
    by (simp_all add: s0_def add_usable_region_def add_managed_range_def buddy_reset_def buddy_new_def Let_def
        phys_addr_ceil_ppn_def phys_addr_floor_ppn_def sat_add_def usize_max_def MAX_MANAGED_REGIONS_def)
  define s1 where "s1 = s0\<lparr>bf_bitmap := bitmap_reset 0 2\<rparr>"
  have "rep s1 (\<lambda>_. [])" "two_pages s1"
    using s0 bitmap_reset_wf [of 2 0] bitmap_reset_clear [of 2 0] by (auto simp: s1_def two_pages_def intro!: rep_empty)
  then obtain s2 where s2: "push_block s1 0 0 = Some s2" "rep s2 ((\<lambda>_. [])(0 := [0]))" "two_pages s2"
    using two_pages_push [of s1 "\<lambda>_. []" 0 0] by auto
  let ?s2 = "s2\<lparr>bf_free_pages := wrap_add (bf_free_pages s2) (2 ^ 0)\<rparr>"
  have "rep ?s2 ((\<lambda>_. [])(0 := [0]))" "two_pages ?s2" using s2(2,3) by (simp_all add: two_pages_def del: fun_upd_apply)
  then obtain s3 where s3: "push_block ?s2 0 1 = Some s3" "rep s3 ((\<lambda>_. [])(0 := [1, 0]))" "two_pages s3"
    using two_pages_push [of ?s2 "(\<lambda>_. [])(0 := [0])" 0 1] by (auto split: if_splits)
  let ?s3 = "s3\<lparr>bf_free_pages := wrap_add (bf_free_pages s3) (2 ^ 0)\<rparr>"
  have ro: "range_order 0 1 = 0" "range_order 1 2 = 0" by code_simp+
  have "add_range s1 0 1 = Some ?s2" "add_range ?s2 1 2 = Some ?s3"
    using add_range_page [OF _ s2(1)] add_range_page [OF _ s3(1)] ro by (simp_all add: numeral_2_eq_2)
  then have "init_from_bootinfo buddy_new [(0, 4096), (4096, 8192)] 16 20 = Some ?s3"
    unfolding init_from_bootinfo_def Let_def s0_def [symmetric] using s0 by (simp add: s1_def)
  moreover have "rep ?s3 ((\<lambda>_. [])(0 := [1, 0]))" "two_pages ?s3"
    using s3(2,3) by (simp_all add: two_pages_def del: fun_upd_apply)
  ultimately show ?thesis by blast
qed

lemma find_order_head:
  "rep s L \<Longrightarrow> k < MAX_ORDER \<Longrightarrow> L k = p # ps \<Longrightarrow> find_order (bf_free_list s) k = Some k"
  using repD(1) [of s L] repD(4) [of s L k] by (simp add: find_order.simps [of "bf_free_list s" k])

lemma two_pages_alloc:
  assumes "rep s L" and "two_pages s" and "k < MAX_ORDER" and "L k = p # ps"
  shows "\<exists>s'. alloc_order s k = Some (Some p, s') \<and> rep s' (L(k := ps)) \<and> two_pages s'"
proof -
  obtain s1 where s1: "pop_block s k = Some (Some p, s1)" "rep s1 (L(k := ps))" "two_pages s1"
    using pop_block_rep [OF assms(1,3,4)] two_pages_meta assms(2) by blast
  have "split_loop s1 p k k = Some s1" by (cases k) auto
  then show ?thesis
    using s1 assms(3) find_order_head [OF assms(1,3,4)] by (simp add: alloc_order_def two_pages_def)
qed

lemma two_pages_managed:
  assumes "two_pages s"
  shows "is_managed_range s 0 1" "is_managed_range s 1 1" "\<not> is_managed_range s 0 2" "\<not> is_managed_range s 2 2"
  using assms by (simp_all add: two_pages_def is_managed_range_def sat_add_def usize_max_def)

lemma two_pages_merge:
  assumes "rep s ((\<lambda>_. [])(0 := [0]))" and "two_pages s"
  shows "\<exists>s'. dealloc_order s 1 0 = Some s' \<and> rep s' ((\<lambda>_. [])(1 := [0])) \<and> two_pages s'"
proof -
  let ?L = "(\<lambda>_. [])(0 := [0]) :: free_lists"
  obtain s1 where s1: "remove_block s 0 0 = Some (True, s1)" "rep s1 (?L(0 := remove1 0 (?L 0)))" "two_pages s1"
    using remove_block_rep(2) [OF assms(1) zero_order, of 0] two_pages_meta assms(2) by auto
  have "?L(0 := remove1 0 (?L 0)) = (\<lambda>_. [])" by auto
  then have r1: "rep s1 (\<lambda>_. [])" using s1(2) by (simp only:)
  obtain s2 where s2: "push_block s1 1 0 = Some s2" "rep s2 ((\<lambda>_. [])(1 := [0]))" "two_pages s2"
    using two_pages_push [OF r1 s1(3), of 1 0] by auto
  have "merge_loop s1 0 1 = Some (s1, 0, 1)"
    using two_pages_managed(4) [OF s1(3)] by (subst merge_loop.simps) (simp add: Let_def)
  then have "merge_loop s 1 0 = Some (s1, 0, 1)"
    using two_pages_managed(1) [OF assms(2)] s1(1) by (subst merge_loop.simps) (simp add: Let_def MAX_ORDER_def)
  then have "dealloc_order s 1 0 = Some (s2\<lparr>bf_free_pages := wrap_add (bf_free_pages s2) 1, bf_allocated_pages := wrap_sub (bf_allocated_pages s2) 1\<rparr>)"
    using two_pages_managed(2) [OF assms(2)] s2(1) by (simp add: dealloc_order_def MAX_ORDER_def)
  then show ?thesis using s2(2,3) by (simp add: two_pages_def del: fun_upd_apply)
qed

section \<open>Properties\<close>

text \<open>
  C19. Allocation of \<open>2^k\<close> frames is exact. It fails only if there is no aligned run of \<open>2^k\<close> free
  frames at all (so the free memory is never fragmented beyond what the frames in use force), and
  then changes nothing; otherwise it returns an aligned run of free frames and removes exactly
  those from the free frames.
\<close>

theorem alloc_order_exact:
  assumes "frames_ok s" and "k < MAX_ORDER"
  shows "\<exists>r s'. alloc_order s k = Some (r, s') \<and> frames_ok s' \<and> managed s' = managed s
    \<and> (case r of
         None \<Rightarrow> s' = s \<and> (\<nexists>p. 2 ^ k dvd p \<and> {p..<p + 2 ^ k} \<subseteq> free_frames s)
       | Some p \<Rightarrow> 2 ^ k dvd p \<and> {p..<p + 2 ^ k} \<subseteq> free_frames s
           \<and> free_frames s' = free_frames s - {p..<p + 2 ^ k})"
  by (rule alloc_order_frames [OF assms])

text \<open>The instance for the witnesses: 64 KiB of memory at 0x80000000, whose first four pages hold the kernel.\<close>

lemma page_range_example: "page_range (0x80000000, 0x80010000) = (0x80000, 0x80010)"
  by (simp add: page_range_def phys_addr_ceil_ppn_def phys_addr_floor_ppn_def sat_add_def usize_max_def)

lemma boot_example: "boot_ok [(0x80000000, 0x80010000)]"
  by (simp add: boot_ok_def page_range_example MAX_MANAGED_REGIONS_def usize_max_def)

theorem alloc_order_exact_witness:
  "\<exists>s r s'. init_from_bootinfo buddy_new [(0x80000000, 0x80010000)] 0x80000 0x80004 = Some s \<and> frames_ok s
    \<and> alloc_order s 2 = Some (r, s') \<and> frames_ok s' \<and> managed s' = managed s"
proof -
  obtain s where "init_from_bootinfo buddy_new [(0x80000000, 0x80010000)] 0x80000 0x80004 = Some s" "frames_ok s"
    using init_from_bootinfo_ok [OF boot_example] by blast
  moreover have "2 < MAX_ORDER" by (simp add: MAX_ORDER_def)
  ultimately show ?thesis using alloc_order_exact [of s 2] by blast
qed

text \<open>
  C20. Releasing an aligned run of frames in use never panics and makes exactly those frames free,
  whatever merging with buddies it causes; the allocator's invariant is kept.
\<close>

theorem dealloc_order_exact:
  assumes "frames_ok s" and "k < MAX_ORDER" and "2 ^ k dvd p" and "{p..<p + 2 ^ k} \<subseteq> managed s - free_frames s"
  shows "\<exists>s'. dealloc_order s p k = Some s' \<and> frames_ok s' \<and> managed s' = managed s
    \<and> free_frames s' = free_frames s \<union> {p..<p + 2 ^ k}"
  by (rule dealloc_order_frames [OF assms])

theorem dealloc_order_exact_witness:
  "\<exists>s p s' s''. frames_ok s \<and> alloc_order s 1 = Some (Some p, s') \<and> dealloc_order s' p 1 = Some s''
    \<and> free_frames s'' = free_frames s"
proof -
  obtain s where s: "frames_ok s" "free_frames s = managed s"
    "managed s = (\<Union>r\<in>set [(0x80000000, 0x80010000)]. {fst (page_range r)..<snd (page_range r)}) - {0x80000..<0x80004}"
    using init_from_bootinfo_ok [OF boot_example, where s = buddy_new and ks = "0x80000" and ke = "0x80004"] by blast
  have k: "1 < MAX_ORDER" by (simp add: MAX_ORDER_def)
  have "x \<in> free_frames s" if "0x80004 \<le> x" "x < 0x80010" for x
    unfolding s(2,3) using that by (simp add: page_range_example)
  then have "{0x80004..<0x80006} \<subseteq> free_frames s" by (simp add: subset_iff)
  then have "2 ^ 1 dvd (0x80004::nat) \<and> {0x80004..<0x80004 + 2 ^ 1} \<subseteq> free_frames s" by simp
  from alloc_order_succeeds [OF s(1) k this]
  obtain p s' where a: "alloc_order s 1 = Some (Some p, s')" "frames_ok s'" "managed s' = managed s" "2 ^ 1 dvd p"
    "{p..<p + 2 ^ 1} \<subseteq> free_frames s" "free_frames s' = free_frames s - {p..<p + 2 ^ 1}"
    by (elim exE conjE)
  then have "{p..<p + 2 ^ 1} \<subseteq> managed s' - free_frames s'" using s(2) by auto
  then obtain s'' where "dealloc_order s' p 1 = Some s''" "free_frames s'' = free_frames s' \<union> {p..<p + 2 ^ 1}"
    using dealloc_order_exact [OF a(2) k a(4)] by blast
  moreover have "free_frames s' \<union> {p..<p + 2 ^ 1} = free_frames s" using a(5,6) by auto
  ultimately show ?thesis using s(1) a(1) by auto
qed

text \<open>
  C18. Boot to use: once the allocator is set up from usable regions that are in order, do not touch after
  rounding to pages, are at most eight, and lie within four gigabytes of each other (\<open>boot_ok\<close>), any sequence of frame
  allocations and releases by the kernel runs without a panic, whatever the owners write into
  their frames; no frame is ever handed to two owners, every frame handed out is a usable frame
  outside the kernel image, and the frames in use are exactly those handed out.
\<close>

theorem frames_never_shared:
  assumes "boot_ok usable" and "init_frame_allocator s usable skernel ekernel = Some s0"
  shows "\<exists>s' held. alloc_run (frame_acquire w) frame_dealloc s0 [] es = Some (s', held) \<and> frames_ok s'
    \<and> distinct held \<and> set held = frames_in_use s'
    \<and> set held \<subseteq> (\<Union>r\<in>set usable. {fst (page_range r)..<snd (page_range r)})
        - {phys_addr_floor_ppn skernel..<phys_addr_ceil_ppn ekernel}"
proof -
  define M where "M = (\<Union>r\<in>set usable. {fst (page_range r)..<snd (page_range r)}) - {phys_addr_floor_ppn skernel..<phys_addr_ceil_ppn ekernel}"
  from init_from_bootinfo_ok [OF assms(1), where s = s and ks = "phys_addr_floor_ppn skernel" and ke = "phys_addr_ceil_ppn ekernel"]
  obtain s1 where s1: "init_from_bootinfo s usable (phys_addr_floor_ppn skernel) (phys_addr_ceil_ppn ekernel) = Some s1"
    "frames_ok s1" "free_frames s1 = managed s1" "managed s1 = M"
    unfolding M_def by (elim exE conjE)
  have s0: "s0 = s1\<lparr>frame_alloc_oom_count := 0\<rparr>" using assms(2) s1(1) by (simp add: init_frame_allocator_def)
  have "frames_ok s0 \<and> managed s0 = M" "frames_in_use s0 = {}"
    using s1 by (auto simp: s0 frames_ok_def frames_in_use_def)
  then obtain s' held where run: "alloc_run (frame_acquire w) frame_dealloc s0 [] es = Some (s', held)"
    "frames_ok s' \<and> managed s' = M" "distinct held" "set held \<subseteq> frames_in_use s'" "frames_in_use s' - set held = {}"
    using frames.run_safe [where s = s0 and M = M and held = "[]" and w = w and es = es] by auto
  then have "set held = frames_in_use s'" "set held \<subseteq> M" by (auto simp: frames_in_use_def)
  then show ?thesis using run unfolding M_def by blast
qed

theorem frames_never_shared_witness:
  "\<exists>s0 s' held. init_frame_allocator buddy_new [(0x80000000, 0x80010000)] 0x80000000 0x80004000 = Some s0
    \<and> alloc_run (frame_acquire (\<lambda>p. (p, 7))) frame_dealloc s0 [] [Acquire, Acquire, Release 1, Acquire] = Some (s', held)
    \<and> distinct held"
proof -
  obtain s1 where "init_from_bootinfo buddy_new [(0x80000000, 0x80010000)] (phys_addr_floor_ppn 0x80000000)
      (phys_addr_ceil_ppn 0x80004000) = Some s1"
    using init_from_bootinfo_ok [OF boot_example] by blast
  then have "init_frame_allocator buddy_new [(0x80000000, 0x80010000)] 0x80000000 0x80004000 = Some (s1\<lparr>frame_alloc_oom_count := 0\<rparr>)"
    by (simp add: init_frame_allocator_def)
  from this frames_never_shared [OF boot_example this, of "\<lambda>p. (p, 7)" "[Acquire, Acquire, Release 1, Acquire]"]
  show ?thesis by blast
qed

text \<open>
  C21. On an allocator in good order, which one set up from regions that do not touch is, a contiguous
  allocation of fewer than \<open>2 ^ 32\<close> frames never panics. A refused request leaves the
  free frames as they were, even when a block had to be given back because of its alignment. A granted one
  is aligned to both its size and the requested alignment, and releasing it restores the free
  frames exactly.
\<close>

theorem contiguous_round_trip:
  assumes "frames_ok s" and "pages < 2 ^ 32"
  shows "\<exists>r s'. frame_alloc_contiguous s pages align_pages = Some (r, s') \<and> frames_ok s'
    \<and> (case r of
         None \<Rightarrow> free_frames s' = free_frames s
       | Some p \<Rightarrow> pages dvd p \<and> align_pages dvd p \<and> {p..<p + pages} \<subseteq> free_frames s
           \<and> free_frames s' = free_frames s - {p..<p + pages}
           \<and> (\<exists>s''. frame_dealloc_range s' p pages = Some s'' \<and> frames_ok s'' \<and> free_frames s'' = free_frames s))"
proof (cases "is_power_of_two pages \<and> is_power_of_two align_pages")
  case False
  then show ?thesis using assms(1) by (auto simp: frame_alloc_contiguous_def)
next
  case True
  let ?k = "ctz pages"
  have pw: "pages = 2 ^ ?k" "align_pages = 2 ^ ctz align_pages" "0 < pages" "0 < align_pages"
    using True power_two_ctz by (auto simp: is_power_of_two_def)
  have "(2::nat) ^ ?k < 2 ^ 32" using assms(2) pw(1) by simp
  then have k: "?k < MAX_ORDER" unfolding MAX_ORDER_def by (rule power_less_imp_less_exp [rotated]) simp
  have amask: "p AND (align_pages - 1) = 0 \<longleftrightarrow> align_pages dvd p" for p
    using and_low_mask [of p "ctz align_pages"] pw(2) by (simp add: dvd_eq_mod_eq_0)
  obtain r s1 where a: "alloc_order s ?k = Some (r, s1)" "frames_ok s1" "managed s1 = managed s"
    "case r of None \<Rightarrow> s1 = s | Some p \<Rightarrow> pages dvd p \<and> {p..<p + pages} \<subseteq> free_frames s
      \<and> free_frames s1 = free_frames s - {p..<p + pages}"
    using alloc_order_frames [OF assms(1) k] pw(1) by (auto split: option.splits)
  have undo: "\<exists>t'. dealloc_order t p ?k = Some t' \<and> frames_ok t' \<and> free_frames t' = free_frames s"
    if "r = Some p" "frames_ok t" "managed t = managed s" "free_frames t = free_frames s1" for p t
  proof -
    have "2 ^ ?k dvd p" "{p..<p + 2 ^ ?k} \<subseteq> managed t - free_frames t" "free_frames t \<union> {p..<p + 2 ^ ?k} = free_frames s"
      using that a(4) pw(1) free_in_managed [OF assms(1)] by auto
    then show ?thesis using dealloc_order_frames [OF that(2) k] by metis
  qed
  show ?thesis
  proof (cases r)
    case None
    then show ?thesis using True a by (simp add: frame_alloc_contiguous_def is_power_of_two_def)
  next
    case (Some p)
    show ?thesis
    proof (cases "align_pages dvd p")
      case False
      then show ?thesis
        using True a Some undo [OF Some a(2,3) refl] amask [of p] by (auto simp: frame_alloc_contiguous_def is_power_of_two_def)
    next
      case al: True
      obtain L where L: "buddy_ok s1 L" "free_frames s1 = free_set L" using a(2) by (rule frames_okE)
      have dis: "{p..<p + pages} \<inter> free_set L = {}" using a(4) Some L(2) by auto
      note c = contiguous_new_ok [OF L(1) dis]
      have c': "free_frames (contiguous_new p pages s1) = free_frames s1" "frames_ok (contiguous_new p pages s1)"
        using free_frames_eq [OF buddy_okD(1)] c L(2) frames_okI by auto
      have eq: "frame_alloc_contiguous s pages align_pages = Some (Some p, contiguous_new p pages s1)"
        using True a Some al amask [of p] by (simp add: frame_alloc_contiguous_def is_power_of_two_def)
      have "\<exists>s''. frame_dealloc_range (contiguous_new p pages s1) p pages = Some s'' \<and> frames_ok s'' \<and> free_frames s'' = free_frames s"
        using undo [OF Some c'(2)] c c'(1) a(3) True by (simp add: frame_dealloc_range_def is_power_of_two_def)
      then show ?thesis using eq c' al a(4) Some by auto
    qed
  qed
qed

theorem contiguous_round_trip_witness:
  "\<exists>s r s'. frames_ok s \<and> frame_alloc_contiguous s 4 2 = Some (r, s') \<and> frames_ok s'"
proof -
  obtain s where "frames_ok s" using init_from_bootinfo_ok [OF boot_example] by blast
  then show ?thesis using contiguous_round_trip [of s 4 2] by auto
qed

text \<open>
  C22. Usable regions that touch are not handled. With the two one-page regions [0, 1) and [1, 2), allocating and releasing one frame
  merges the two free frames into a block that spans both regions; a contiguous allocation of two frames is then granted, and
  releasing what was granted panics.
\<close>

theorem touching_regions_panic:
  "\<exists>s0 s1 s2 s3. init_from_bootinfo buddy_new [(0, 4096), (4096, 8192)] 16 20 = Some s0
    \<and> frame_alloc s0 = Some (Some 1, s1) \<and> frame_dealloc s1 1 = Some s2
    \<and> frame_alloc_contiguous s2 2 1 = Some (Some 0, s3) \<and> frame_dealloc_range s3 0 2 = None"
proof -
  obtain s0 where s0: "init_from_bootinfo buddy_new [(0, 4096), (4096, 8192)] 16 20 = Some s0"
    "rep s0 ((\<lambda>_. [])(0 := [1, 0]))" "two_pages s0"
    using two_pages_init by blast
  obtain t1 where t1: "alloc_order s0 0 = Some (Some 1, t1)" "rep t1 ((\<lambda>_. [])(0 := [0]))" "two_pages t1"
    using two_pages_alloc [OF s0(2,3) zero_order] by auto
  define s1 where "s1 = clear_frame 1 t1"
  have a: "frame_alloc s0 = Some (Some 1, s1)" using t1(1) by (simp add: frame_alloc_def s1_def)
  have "rep s1 ((\<lambda>_. [])(0 := [0]))" "two_pages s1"
    using frame_write_rep [OF t1(2), of 1 "(0, 0)"] t1(3)
    by (auto simp: s1_def clear_frame_def two_pages_def frame_write_def)
  then obtain s2 where s2: "dealloc_order s1 1 0 = Some s2" "rep s2 ((\<lambda>_. [])(1 := [0]))" "two_pages s2"
    using two_pages_merge by blast
  have c2: "ctz 2 = 1" "is_power_of_two 2" "is_power_of_two 1" by code_simp+
  obtain t3 where t3: "alloc_order s2 1 = Some (Some 0, t3)" "two_pages t3"
    using two_pages_alloc [OF s2(2,3), of 1 0 "[]"] by (auto simp: MAX_ORDER_def)
  define s3 where "s3 = contiguous_new 0 2 t3"
  have "frame_alloc_contiguous s2 2 1 = Some (Some 0, s3)" using t3(1) c2 by (simp add: frame_alloc_contiguous_def s3_def)
  moreover have "two_pages s3"
    using t3(2) by (simp add: s3_def contiguous_new_def upt_rec clear_frame_def frame_write_def two_pages_def)
  then have "frame_dealloc_range s3 0 2 = None"
    using two_pages_managed(3) c2 by (simp add: frame_dealloc_range_def dealloc_order_def Let_def)
  ultimately show ?thesis using s0(1) a s2(1) by (auto simp: frame_dealloc_def)
qed

end
