(* ===== verification/Kernel_Spaces.thy ===== *)
theory Kernel_Spaces
  imports User_Buffers Frames
begin

text \<open>
  The page tables of the kernel: the frame allocator meets the contract of a frame source, so the
  address-space lemmas hold of Sv39 and LoongArch tables built from its frames.
\<close>

section \<open>The kernel's frame allocator as the source\<close>

text \<open>
  \<open>frame_alloc\<close> never panics in a state that satisfies the allocator's invariant. The reclaim path of
  \<open>frame_alloc_with_reclaim\<close> is not part of this source: where it would reclaim, this source fails.
\<close>

definition kernel_falloc :: "buddy falloc" where
  "kernel_falloc s = (case frame_alloc s of Some (r, s') \<Rightarrow> (r, s') | None \<Rightarrow> (None, s))"

definition kernel_src :: "nat \<Rightarrow> nat set \<Rightarrow> buddy \<Rightarrow> bool" where
  "kernel_src lim U s \<longleftrightarrow> frames_ok s \<and> U \<inter> free_frames s = {} \<and> managed s \<subseteq> {0<..<lim}"

lemma frame_alloc_spec:
  assumes "frames_ok s"
  shows "\<exists>r s'. frame_alloc s = Some (r, s') \<and> frames_ok s' \<and> managed s' = managed s
    \<and> (case r of None \<Rightarrow> free_frames s = {} \<and> free_frames s' = {}
       | Some p \<Rightarrow> p \<in> free_frames s \<and> free_frames s' = free_frames s - {p})"
proof -
  have id: "frame_write p (mem_next s' p, mem_prev s' p) s' = s'" for p and s' :: buddy by (simp add: frame_write_def)
  obtain r s1 where r: "frame_alloc s = Some (r, s1)"
    using frame_acquire_spec [OF assms, of "\<lambda>_. (0, 0)"] by (auto simp: frame_acquire_def)
  then have "frame_acquire (\<lambda>p. (mem_next s1 p, mem_prev s1 p)) s = Some (r, s1)"
    using id by (simp add: frame_acquire_def split: option.splits)
  then show ?thesis using frame_acquire_spec [OF assms, of "\<lambda>p. (mem_next s1 p, mem_prev s1 p)"] r by simp
qed

interpretation ksrc: frame_source kernel_falloc "kernel_src lim" lim for lim
proof (unfold_locales, goal_cases)
  case (1 U f q f')
  then show ?case
    using frame_alloc_spec [of f] subset_trans [OF free_in_managed [of f], of "{0<..<lim}"]
    by (auto simp: kernel_src_def kernel_falloc_def dest: subsetD)
next
  case (2 U f f')
  then show ?case using frame_alloc_spec [of f] by (auto simp: kernel_src_def kernel_falloc_def)
qed

interpretation sv39_tables: page_tables sv39 kernel_falloc "kernel_src (2 ^ ppn_bits sv39)"
  by unfold_locales

interpretation la_tables: page_tables loongarch kernel_falloc "kernel_src (2 ^ ppn_bits loongarch)"
  by unfold_locales

section \<open>Properties\<close>

lemma kernel_machine_example:
  "\<exists>s. init_from_bootinfo buddy_new [(0x80000000, 0x80010000)] 0x80000 0x80004 = Some s
    \<and> (\<forall>lim\<ge>0x80010. kernel_src lim {} s) \<and> free_frames s = {0x80004..<0x80010}"
proof -
  obtain s where s: "init_from_bootinfo buddy_new [(0x80000000, 0x80010000)] 0x80000 0x80004 = Some s" "frames_ok s"
    "free_frames s = managed s" "managed s = {0x80000..<0x80010} - {0x80000..<0x80004}"
    using init_from_bootinfo_ok [OF boot_example, where s = buddy_new and ks = "0x80000" and ke = "0x80004"]
    by (auto simp: page_range_example)
  have m: "managed s = {0x80004..<0x80010}" unfolding s(4) by (auto simp: set_eq_iff)
  have "kernel_src lim {} s" if "0x80010 \<le> lim" for lim
    unfolding kernel_src_def m using s(2) that by (simp add: subset_iff)
  then show ?thesis using s(1,3) m by auto
qed

lemma pt_new_succeeds:
  assumes "kernel_src lim U (frame_src m)" and "free_frames (frame_src m) \<noteq> {}"
  shows "\<exists>t m'. pt_new kernel_falloc m = (Ok t, m') \<and> root_ppn t \<in> free_frames (frame_src m)
    \<and> free_frames (frame_src m') = free_frames (frame_src m) - {root_ppn t}"
proof -
  obtain p s' where "frame_alloc (frame_src m) = Some (Some p, s')" "p \<in> free_frames (frame_src m)"
    "free_frames s' = free_frames (frame_src m) - {p}"
    using frame_alloc_spec [of "frame_src m"] assms by (fastforce simp: kernel_src_def split: option.splits)
  then show ?thesis by (simp add: pt_new_def alloc_frame_def kernel_falloc_def)
qed

text \<open>
  C24. A page table implements a map from pages to entries. Take a new table on Sv39 or on LoongArch and any
  sequence of map, clear, update and replace calls on it, with frames from the kernel's allocator. The
  translations at the end are those of the abstract map after the same calls: a successful call changes
  its own page only, a call that fails (for lack of a frame, or because the page is not mapped) changes nothing,
  and clear, update and replace succeed exactly on mapped pages. Every table frame but the root is in the list that
  dropping the table releases.
\<close>

theorem address_space_refinement:
  assumes "A = sv39 \<or> A = loongarch" and "kernel_src (2 ^ ppn_bits A) {} (frame_src m0)"
    and "pt_new kernel_falloc m0 = (Ok t, m)" and "list_all (op_ok A) ops"
    and "pt_run A kernel_falloc ops t m = (oks, t', m')"
  shows "spec_run A ops oks (\<lambda>_. None) = Some (translate A t' m')
    \<and> tables A (pt_mem m') (root_ppn t') \<subseteq> insert (root_ppn t) (set (pt_frames t'))"
  using assms sv39_tables.new_run_refines la_tables.new_run_refines by metis

theorem address_space_refinement_witness:
  "\<exists>s t m t' m' oks. init_from_bootinfo buddy_new [(0x80000000, 0x80010000)] 0x80000 0x80004 = Some s
    \<and> pt_new kernel_falloc \<lparr>pt_mem = (\<lambda>_ _. 0), frame_src = s\<rparr> = (Ok t, m)
    \<and> pt_run sv39 kernel_falloc [PtMap 5 0x80009 7, PtUpdate 5 3, PtClear 6] t m = (oks, t', m')
    \<and> spec_run sv39 [PtMap 5 0x80009 7, PtUpdate 5 3, PtClear 6] oks (\<lambda>_. None) = Some (translate sv39 t' m')"
proof -
  obtain s :: buddy where s: "init_from_bootinfo buddy_new [(0x80000000, 0x80010000)] 0x80000 0x80004 = Some s"
    "\<forall>lim\<ge>0x80010. kernel_src lim {} s" "free_frames s = {0x80004..<0x80010}"
    using kernel_machine_example by (elim exE conjE)
  let ?m0 = "\<lparr>pt_mem = (\<lambda>_ _. 0), frame_src = s\<rparr>"
  have src: "kernel_src (2 ^ ppn_bits sv39) {} (frame_src ?m0)" using s(2) by (simp add: ppn_bits_def sv39_def)
  obtain t m where t: "pt_new kernel_falloc ?m0 = (Ok t, m)" using pt_new_succeeds [OF src] s(3) by auto
  obtain oks t' m' where r: "pt_run sv39 kernel_falloc [PtMap 5 0x80009 7, PtUpdate 5 3, PtClear 6] t m = (oks, t', m')"
    by (metis prod_cases3)
  have "list_all (op_ok sv39) [PtMap 5 0x80009 7, PtUpdate 5 3, PtClear 6]" by (simp add: ppn_bits_def sv39_def)
  then show ?thesis using address_space_refinement [OF _ src t _ r] s(1) t r by blast
qed

text \<open>
  C25. Address spaces are isolated. Two new tables share the memory and the allocator, and calls on them are interleaved in any
  order. Each table then translates as the abstract map after its own calls alone: no call on one
  changes what the other maps.
\<close>

theorem address_spaces_isolated:
  assumes "A = sv39 \<or> A = loongarch" and "kernel_src (2 ^ ppn_bits A) {} (frame_src m0)"
    and "pt_new kernel_falloc m0 = (Ok t1, m1)" and "pt_new kernel_falloc m1 = (Ok t2, m2)"
    and "list_all (\<lambda>(_, op). op_ok A op) ops" and "pt_run2 A kernel_falloc ops t1 t2 m2 = (oks, t1', t2', m')"
  shows "spec_run A (ops_of True ops) (oks_of True ops oks) (\<lambda>_. None) = Some (translate A t1' m')
    \<and> spec_run A (ops_of False ops) (oks_of False ops oks) (\<lambda>_. None) = Some (translate A t2' m')"
  using assms(1)
proof
  assume A: "A = sv39"
  show ?thesis using sv39_tables.new_apart [OF assms(2-4) [unfolded A]] sv39_tables.run2_refines assms(5,6) unfolding A by metis
next
  assume A: "A = loongarch"
  show ?thesis using la_tables.new_apart [OF assms(2-4) [unfolded A]] la_tables.run2_refines assms(5,6) unfolding A by metis
qed

theorem address_spaces_isolated_witness:
  "\<exists>s t1 m1 t2 m2 t1' t2' m' oks. init_from_bootinfo buddy_new [(0x80000000, 0x80010000)] 0x80000 0x80004 = Some s
    \<and> pt_new kernel_falloc \<lparr>pt_mem = (\<lambda>_ _. 0), frame_src = s\<rparr> = (Ok t1, m1) \<and> pt_new kernel_falloc m1 = (Ok t2, m2)
    \<and> pt_run2 loongarch kernel_falloc [(True, PtMap 5 0x80009 7), (False, PtMap 5 0x80008 3)] t1 t2 m2 = (oks, t1', t2', m')
    \<and> spec_run loongarch [PtMap 5 0x80009 7] (oks_of True [(True, PtMap 5 0x80009 7), (False, PtMap 5 0x80008 3)] oks) (\<lambda>_. None)
        = Some (translate loongarch t1' m')"
proof -
  obtain s :: buddy where s: "init_from_bootinfo buddy_new [(0x80000000, 0x80010000)] 0x80000 0x80004 = Some s"
    "\<forall>lim\<ge>0x80010. kernel_src lim {} s" "free_frames s = {0x80004..<0x80010}"
    using kernel_machine_example by (elim exE conjE)
  let ?m0 = "\<lparr>pt_mem = (\<lambda>_ _. 0), frame_src = s\<rparr>" and ?ops = "[(True, PtMap 5 0x80009 7), (False, PtMap 5 0x80008 3)]"
  have src: "kernel_src (2 ^ ppn_bits loongarch) {} (frame_src ?m0)" using s(2) by (simp add: ppn_bits_def loongarch_def)
  obtain t1 m1 where t1: "pt_new kernel_falloc ?m0 = (Ok t1, m1)" "free_frames (frame_src m1) = free_frames s - {root_ppn t1}"
    using pt_new_succeeds [OF src] s(3) by auto
  have src1: "kernel_src (2 ^ ppn_bits loongarch) {root_ppn t1} (frame_src m1)"
    using la_tables.new_table(1) [OF src t1(1)] by (simp add: space_ok_def)
  have "0x80004 \<in> free_frames (frame_src m1) \<or> 0x80005 \<in> free_frames (frame_src m1)" using t1(2) s(3) by auto
  then obtain t2 m2 where t2: "pt_new kernel_falloc m1 = (Ok t2, m2)" using pt_new_succeeds [OF src1] by blast
  obtain oks t1' t2' m' where r: "pt_run2 loongarch kernel_falloc ?ops t1 t2 m2 = (oks, t1', t2', m')"
    by (metis prod_cases4)
  have "list_all (\<lambda>(_, op). op_ok loongarch op) ?ops" by (simp add: ppn_bits_def loongarch_def)
  then have "spec_run loongarch (ops_of True ?ops) (oks_of True ?ops oks) (\<lambda>_. None) = Some (translate loongarch t1' m')"
    using address_spaces_isolated [OF _ src t1(1) t2 _ r] by blast
  then show ?thesis using s(1) t1(1) t2 r by auto
qed

end
