(* ===== verification/Sched_Policy.thy ===== *)
theory Sched_Policy
  imports Kernel_Prelude
begin

text \<open>
  Scheduling policies, weights and the scheduler's part of a task (\<open>os/src/sched/policy.rs\<close>,
  \<open>os/src/task/task.rs\<close>). A task is named by the address of its control block.
\<close>

section \<open>Policies\<close>

definition NICE_0_LOAD :: nat where "NICE_0_LOAD = 1024"
definition MIN_NICE :: int where "MIN_NICE = -20"
definition MAX_NICE :: int where "MAX_NICE = 19"
definition SCHED_RT_PRIO_MIN :: nat where "SCHED_RT_PRIO_MIN = 1"
definition SCHED_RT_PRIO_MAX :: nat where "SCHED_RT_PRIO_MAX = 99"
definition DEFAULT_TIME_SLICE_TICKS :: nat where "DEFAULT_TIME_SLICE_TICKS = 10"
definition CFS_TARGET_LATENCY_NS :: nat where "CFS_TARGET_LATENCY_NS = 24000000"
definition CFS_MIN_GRANULARITY_NS :: nat where "CFS_MIN_GRANULARITY_NS = 3000000"
definition CFS_WAKEUP_GRANULARITY_NS :: nat where "CFS_WAKEUP_GRANULARITY_NS = 1000000"
definition CFS_YIELD_PENALTY_NS :: nat where "CFS_YIELD_PENALTY_NS = CFS_MIN_GRANULARITY_NS"

definition PRIO_TO_WEIGHT :: "nat list" where
  "PRIO_TO_WEIGHT = [
     88761, 71755, 56483, 46273, 36291, 29154, 23254, 18705, 14949, 11916, 9548, 7620, 6100, 4904,
     3906, 3121, 2501, 1991, 1586, 1277, 1024, 820, 655, 526, 423, 335, 272, 215, 172, 137, 110, 87,
     70, 56, 45, 36, 29, 23, 18, 15]"

definition clamp_nice :: "int \<Rightarrow> int" where
  "clamp_nice nice = (if nice < MIN_NICE then MIN_NICE else if nice > MAX_NICE then MAX_NICE else nice)"

definition nice_to_weight :: "int \<Rightarrow> nat option" where
  "nice_to_weight nice = idx PRIO_TO_WEIGHT (nat (clamp_nice nice - MIN_NICE))"

datatype sched_policy = Idle | Other | Fifo | Rr

definition is_rt :: "sched_policy \<Rightarrow> bool" where
  "is_rt p \<longleftrightarrow> p \<in> {Fifo, Rr}"

datatype resched_reason = HigherRtPriority | RrTimesliceExpired | Yield | CfsPreempt | Migration

datatype task_status = Running | Runnable | Interruptible | Uninterruptible | Zombie

definition asleep :: "task_status \<Rightarrow> bool" where
  "asleep st \<longleftrightarrow> st \<in> {Interruptible, Uninterruptible}"

section \<open>Tasks\<close>

text \<open>
  \<open>TaskSchedState\<close> without the attributes that are only stored for \<open>sched_getattr\<close>, and the fields of the
  control block that the scheduler reads or writes. The reason of a wait is kept as whether there is one.
\<close>

record task_sched_state =
  last_cpu :: nat
  on_rq :: bool
  policy :: sched_policy
  rt_priority :: nat
  time_slice_ticks :: nat
  remaining_slice_ticks :: nat
  nice :: int
  weight :: nat
  vruntime_ns :: nat
  exec_start_ns :: nat
  sum_exec_runtime_ns :: nat
  cfs_slice_start_ns :: nat
  cfs_rq_key :: "(nat \<times> nat) option"
  cfs_initialized :: bool
  resched :: "resched_reason option"
  rt_enqueue_head :: bool
  cpu_affinity_mask :: nat

record tcb = task_sched_state +
  task_status :: task_status
  has_wait_reason :: bool
  on_cpu :: bool
  current_wq_handle :: "nat option"

type_synonym tcbs = "nat \<Rightarrow> tcb"

definition MAX_HARTS :: nat where "MAX_HARTS = 12"

definition all_cpu_affinity_mask :: nat where
  "all_cpu_affinity_mask = (if MAX_HARTS = 0 then 0 else if MAX_HARTS \<ge> 64 then usize_max else 2 ^ MAX_HARTS - 1)"

text \<open>\<open>SchedAttr::other\<close>, \<open>rr\<close> and \<open>fifo\<close>: policy, real-time priority, slice, nice value and weight.\<close>

type_synonym sched_attr = "sched_policy \<times> nat \<times> nat \<times> int \<times> nat"

definition attr_other :: "int \<Rightarrow> sched_attr option" where
  "attr_other n = do { w \<leftarrow> nice_to_weight n; Some (Other, 0, DEFAULT_TIME_SLICE_TICKS, clamp_nice n, w) }"

definition attr_rr :: "nat \<Rightarrow> sched_attr" where
  "attr_rr prio = (Rr, prio, DEFAULT_TIME_SLICE_TICKS, 0, NICE_0_LOAD)"

definition attr_fifo :: "nat \<Rightarrow> sched_attr" where
  "attr_fifo prio = (Fifo, prio, DEFAULT_TIME_SLICE_TICKS, 0, NICE_0_LOAD)"

definition tcb_new :: "sched_attr \<Rightarrow> tcb" where
  "tcb_new a = (case a of (pol, prio, ticks, n, w) \<Rightarrow>
     \<lparr>last_cpu = 0, on_rq = False, policy = pol, rt_priority = prio, time_slice_ticks = ticks,
      remaining_slice_ticks = ticks, nice = n, weight = w, vruntime_ns = 0, exec_start_ns = 0,
      sum_exec_runtime_ns = 0, cfs_slice_start_ns = 0, cfs_rq_key = None, cfs_initialized = False,
      resched = None, rt_enqueue_head = False, cpu_affinity_mask = all_cpu_affinity_mask,
      task_status = Runnable, has_wait_reason = False, on_cpu = False, current_wq_handle = None\<rparr>)"

definition reset_time_slice :: "tcb \<Rightarrow> tcb" where
  "reset_time_slice t = t\<lparr>remaining_slice_ticks := time_slice_ticks t\<rparr>"

text \<open>The product of two 64-bit values fits 128 bits; the quotient is cut to 64 bits.\<close>

definition account_cfs_runtime :: "nat \<Rightarrow> tcb \<Rightarrow> tcb" where
  "account_cfs_runtime now t =
     (if policy t \<noteq> Other then t
      else if exec_start_ns t = 0 then t\<lparr>exec_start_ns := now, cfs_slice_start_ns := now\<rparr>
      else let delta_exec = sat_sub now (exec_start_ns t) in
        if delta_exec = 0 then t
        else let delta_fair = (if weight t = NICE_0_LOAD then delta_exec
                               else (delta_exec * NICE_0_LOAD) div max 1 (weight t) mod 2 ^ 64)
          in t\<lparr>exec_start_ns := now, sum_exec_runtime_ns := sat_add (sum_exec_runtime_ns t) delta_exec,
               vruntime_ns := sat_add (vruntime_ns t) delta_fair\<rparr>)"

section \<open>Weights\<close>

lemma clamp_nice_range: "MIN_NICE \<le> clamp_nice n" "clamp_nice n \<le> MAX_NICE"
  by (auto simp: clamp_nice_def MIN_NICE_def MAX_NICE_def)

lemma nice_to_weight_total: "\<exists>w. nice_to_weight n = Some w \<and> 15 \<le> w \<and> w \<le> 88761"
proof -
  define i where "i = nat (clamp_nice n - MIN_NICE)"
  have i: "i < length PRIO_TO_WEIGHT"
    using clamp_nice_range [of n] by (simp add: i_def MIN_NICE_def MAX_NICE_def PRIO_TO_WEIGHT_def)
  have "\<forall>w\<in>set PRIO_TO_WEIGHT. 15 \<le> w \<and> w \<le> 88761" by (simp add: PRIO_TO_WEIGHT_def)
  then show ?thesis using i nth_mem [OF i] by (simp add: nice_to_weight_def i_def [symmetric])
qed

end
