(* ===== verification/Ordered_Map.thy ===== *)
theory Ordered_Map
  imports Kernel_Prelude "HOL-Library.Product_Lexorder" "HOL-Library.Multiset"
begin

text \<open>
  \<open>BTreeMap\<close> as the list of its entries in increasing order of keys: insertion replaces the value
  of a key that is present, removal answers the value, iteration is the list.
\<close>

fun om_insert :: "'k::linorder \<Rightarrow> 'v \<Rightarrow> ('k \<times> 'v) list \<Rightarrow> ('k \<times> 'v) list" where
  "om_insert k v [] = [(k, v)]"
| "om_insert k v ((k', v') # xs) =
     (if k < k' then (k, v) # (k', v') # xs
      else if k = k' then (k, v) # xs
      else (k', v') # om_insert k v xs)"

fun om_remove :: "'k::linorder \<Rightarrow> ('k \<times> 'v) list \<Rightarrow> 'v option \<times> ('k \<times> 'v) list" where
  "om_remove k [] = (None, [])"
| "om_remove k ((k', v') # xs) =
     (if k = k' then (Some v', xs)
      else let (r, ys) = om_remove k xs in (r, (k', v') # ys))"

definition om_first :: "('k \<times> 'v) list \<Rightarrow> 'k option" where
  "om_first xs = (case xs of [] \<Rightarrow> None | (k, _) # _ \<Rightarrow> Some k)"

definition om_ok :: "('k::linorder \<times> 'v) list \<Rightarrow> bool" where
  "om_ok xs \<longleftrightarrow> sorted_wrt (<) (map fst xs)"

section \<open>Laws\<close>

text \<open>What the components rely on: an ordered map is a finite map with its entries in order of keys.\<close>

locale ordered_map =
  fixes ins :: "'k::linorder \<Rightarrow> 'v \<Rightarrow> 'm \<Rightarrow> 'm" and del :: "'k \<Rightarrow> 'm \<Rightarrow> 'v option \<times> 'm"
    and entries :: "'m \<Rightarrow> ('k \<times> 'v) list" and ok :: "'m \<Rightarrow> bool"
  assumes entries_sorted: "ok m \<Longrightarrow> sorted_wrt (<) (map fst (entries m))"
    and ok_ins: "ok m \<Longrightarrow> ok (ins k v m)"
    and set_ins: "ok m \<Longrightarrow> set (entries (ins k v m)) = insert (k, v) {e \<in> set (entries m). fst e \<noteq> k}"
    and ok_del: "ok m \<Longrightarrow> ok (snd (del k m))"
    and set_del: "ok m \<Longrightarrow> set (entries (snd (del k m))) = {e \<in> set (entries m). fst e \<noteq> k}"
    and fst_del: "ok m \<Longrightarrow> fst (del k m) = map_of (entries m) k"
begin

lemma entries_distinct: "ok m \<Longrightarrow> distinct (map fst (entries m))"
  using entries_sorted strict_sorted_iff by blast

lemma lookup_iff: "ok m \<Longrightarrow> map_of (entries m) k = Some v \<longleftrightarrow> (k, v) \<in> set (entries m)"
  using entries_distinct by (simp add: map_of_eq_Some_iff)

lemma lookup_ins: "ok m \<Longrightarrow> map_of (entries (ins k v m)) = (map_of (entries m))(k \<mapsto> v)"
proof
  fix k'
  assume ok: "ok m"
  have "map_of (entries (ins k v m)) k' = Some w \<longleftrightarrow> ((map_of (entries m))(k \<mapsto> v)) k' = Some w" for w
    using lookup_iff [OF ok_ins [OF ok]] lookup_iff [OF ok] set_ins [OF ok] by auto
  then show "map_of (entries (ins k v m)) k' = ((map_of (entries m))(k \<mapsto> v)) k'"
    by (metis not_None_eq)
qed

lemma lookup_del: "ok m \<Longrightarrow> map_of (entries (snd (del k m))) = (map_of (entries m))(k := None)"
proof
  fix k'
  assume ok: "ok m"
  have "map_of (entries (snd (del k m))) k' = Some w \<longleftrightarrow> ((map_of (entries m))(k := None)) k' = Some w" for w
    using lookup_iff [OF ok_del [OF ok]] lookup_iff [OF ok] set_del [OF ok] by auto
  then show "map_of (entries (snd (del k m))) k' = ((map_of (entries m))(k := None)) k'"
    by (metis not_None_eq)
qed

lemma length_ins:
  assumes "ok m" and "k \<notin> fst ` set (entries m)"
  shows "length (entries (ins k v m)) = Suc (length (entries m))"
proof -
  have "{e \<in> set (entries m). fst e \<noteq> k} = set (entries m)" using assms(2) by force
  moreover have "(k, v) \<notin> set (entries m)" using assms(2) by force
  moreover have d: "distinct (entries m')" if "ok m'" for m' using entries_distinct [OF that] distinct_map by blast
  ultimately have "card (set (entries (ins k v m))) = Suc (card (set (entries m)))" using set_ins [OF assms(1)] by simp
  then show ?thesis using d [OF assms(1)] d [OF ok_ins [OF assms(1)]] by (simp add: distinct_card)
qed

end

lemma om_insert_set: "om_ok xs \<Longrightarrow> set (om_insert k v xs) = insert (k, v) {e \<in> set xs. fst e \<noteq> k}"
proof (induction xs)
  case (Cons x xs)
  obtain k' v' where x: "x = (k', v')" by force
  have ok: "om_ok xs" "\<forall>e\<in>set xs. k' < fst e" using Cons.prems by (auto simp: om_ok_def x)
  have "(k, b) \<notin> set xs" if "k \<le> k'" for b using ok(2) that by force
  then show ?case using Cons.IH [OF ok(1)] by (cases k k' rule: linorder_cases) (auto simp: x)
qed simp

lemma om_insert_ok: "om_ok xs \<Longrightarrow> om_ok (om_insert k v xs)"
proof (induction xs)
  case (Cons x xs)
  obtain k' v' where x: "x = (k', v')" by force
  have ok: "om_ok xs" "\<forall>e\<in>set xs. k' < fst e" using Cons.prems by (auto simp: om_ok_def x)
  have "\<forall>e\<in>set (om_insert k v xs). k' < fst e" if "k' < k" using om_insert_set [OF ok(1), of k v] ok(2) that by auto
  then show ?case using Cons ok by (auto simp: om_ok_def x)
qed (simp add: om_ok_def)

lemma om_remove_spec:
  "om_ok xs \<Longrightarrow> fst (om_remove k xs) = map_of xs k \<and> om_ok (snd (om_remove k xs))
     \<and> set (snd (om_remove k xs)) = {e \<in> set xs. fst e \<noteq> k}"
proof (induction xs)
  case (Cons x xs)
  obtain k' v' where x: "x = (k', v')" by force
  have ok: "om_ok xs" "\<forall>e\<in>set xs. k' < fst e" using Cons.prems by (auto simp: om_ok_def x)
  obtain r ys where r: "om_remove k xs = (r, ys)" by force
  show ?case using Cons.IH [OF ok(1)] ok by (auto simp: om_ok_def x r)
qed (simp add: om_ok_def)

interpretation om: ordered_map om_insert om_remove "\<lambda>xs. xs" om_ok
  by unfold_locales (simp_all add: om_insert_set om_insert_ok om_remove_spec om_ok_def [symmetric])

lemma om_first_None [simp]: "om_first xs = None \<longleftrightarrow> xs = []"
  by (auto simp: om_first_def split: list.splits)

lemma om_first_least:
  "om_ok xs \<Longrightarrow> om_first xs = Some k \<Longrightarrow> (\<exists>v. (k, v) \<in> set xs) \<and> (\<forall>e\<in>set xs. k \<le> fst e)"
  by (cases xs) (auto simp: om_first_def om_ok_def less_imp_le split: list.splits)

lemma om_remove_mset:
  "fst (om_remove k xs) = Some v \<Longrightarrow> mset (map snd xs) = add_mset v (mset (map snd (snd (om_remove k xs))))"
  by (induction xs rule: om_remove.induct) (auto split: prod.splits if_splits)

lemma om_remove_length: "fst (om_remove k xs) = Some v \<Longrightarrow> length xs = Suc (length (snd (om_remove k xs)))"
  by (induction xs rule: om_remove.induct) (auto split: prod.splits if_splits)

lemma om_remove_none: "fst (om_remove k xs) = None \<Longrightarrow> snd (om_remove k xs) = xs"
  by (induction xs rule: om_remove.induct) (auto split: prod.splits if_splits)

lemma om_insert_mset:
  "k \<notin> fst ` set xs \<Longrightarrow> mset (map snd (om_insert k v xs)) = add_mset v (mset (map snd xs))"
  by (induction k v xs rule: om_insert.induct) auto

end
