(* ===== verification/Run_Queue.thy ===== *)
theory Run_Queue
  imports Sched_Policy Ordered_Map
begin

text \<open>
  The run queue of one hart (\<open>RunQueue\<close> of \<open>os/src/sched/runqueue.rs\<close>): one FIFO per real-time priority and
  the fair tasks in an ordered map from (virtual runtime, task) to the task. The operations work on
  the queue and on the control blocks; \<open>None\<close> is a panic.
\<close>

section \<open>State\<close>

definition RT_QUEUE_LEVELS :: nat where "RT_QUEUE_LEVELS = SCHED_RT_PRIO_MAX + 1"
definition RT_SLEEP_CFS_BOOST_MIN_RUNNING :: nat where "RT_SLEEP_CFS_BOOST_MIN_RUNNING = 128"
definition RT_SLEEP_CFS_BOOST_MAX_TASKS :: nat where "RT_SLEEP_CFS_BOOST_MAX_TASKS = 8"

type_synonym cfs_key = "nat \<times> nat"

record enqueued_info =
  in_policy :: sched_policy
  in_rt_priority :: nat
  in_vruntime_ns :: nat

record run_queue =
  rt_queues :: "nat list list"
  highest_rt_prio :: "nat option"
  rt_nr_running :: nat
  cfs_tasks :: "(cfs_key \<times> nat) list"
  cfs_nr_running :: nat
  cfs_load :: nat
  min_vruntime_ns :: nat
  stop_task :: "nat option"

definition run_queue_new :: run_queue where
  "run_queue_new = \<lparr>rt_queues = replicate RT_QUEUE_LEVELS [], highest_rt_prio = None, rt_nr_running = 0,
     cfs_tasks = [], cfs_nr_running = 0, cfs_load = 0, min_vruntime_ns = 0, stop_task = None\<rparr>"

definition runnable_ptrs :: "run_queue \<Rightarrow> nat list" where
  "runnable_ptrs rq = concat (rt_queues rq) @ map snd (cfs_tasks rq)"

section \<open>Operations\<close>

definition leftmost_cfs_vruntime :: "run_queue \<Rightarrow> nat option" where
  "leftmost_cfs_vruntime rq = map_option fst (om_first (cfs_tasks rq))"

definition refresh_min_vruntime :: "nat option \<Rightarrow> run_queue \<Rightarrow> run_queue" where
  "refresh_min_vruntime acc rq =
     (let rq = (case acc of Some v \<Rightarrow> rq\<lparr>min_vruntime_ns := max (min_vruntime_ns rq) v\<rparr> | None \<Rightarrow> rq)
      in case leftmost_cfs_vruntime rq of
           Some l \<Rightarrow> rq\<lparr>min_vruntime_ns := max (min_vruntime_ns rq) l\<rparr>
         | None \<Rightarrow> rq)"

definition refresh_highest_rt_prio :: "run_queue \<Rightarrow> run_queue" where
  "refresh_highest_rt_prio rq =
     rq\<lparr>highest_rt_prio := find (\<lambda>p. rt_queues rq ! p \<noteq> []) (rev [1..<RT_QUEUE_LEVELS])\<rparr>"

definition place_cfs_entity :: "run_queue \<Rightarrow> nat \<Rightarrow> bool \<Rightarrow> nat option \<Rightarrow> nat \<times> bool" where
  "place_cfs_entity rq vruntime initialized hint =
     (let effective_min =
        (case hint of
           Some cur \<Rightarrow> if cfs_nr_running rq = 0 then cur else min (min_vruntime_ns rq) cur
         | None \<Rightarrow> min_vruntime_ns rq)
      in if \<not> initialized then (effective_min, True)
         else (max vruntime (sat_sub effective_min CFS_WAKEUP_GRANULARITY_NS), True))"

definition enqueue_locked :: "nat \<Rightarrow> nat option \<Rightarrow> run_queue \<Rightarrow> tcbs \<Rightarrow> (enqueued_info \<times> run_queue \<times> tcbs) option" where
  "enqueue_locked t hint rq T =
     (case policy (T t) of
        Idle \<Rightarrow> None
      | Other \<Rightarrow>
          (let (placed, initialized) = place_cfs_entity rq (vruntime_ns (T t)) (cfs_initialized (T t)) hint;
               key = (placed, t);
               T' = T(t := (T t)\<lparr>vruntime_ns := placed, cfs_initialized := initialized, cfs_rq_key := Some key\<rparr>);
               rq' = refresh_min_vruntime None
                 (rq\<lparr>cfs_tasks := om_insert key t (cfs_tasks rq), cfs_nr_running := cfs_nr_running rq + 1,
                     cfs_load := sat_add (cfs_load rq) (weight (T t))\<rparr>)
           in Some (\<lparr>in_policy = Other, in_rt_priority = 0, in_vruntime_ns = placed\<rparr>, rq', T'))
      | _ \<Rightarrow>
          do {
            let prio = rt_priority (T t);
            q \<leftarrow> idx (rt_queues rq) prio;
            let q' = (if rt_enqueue_head (T t) then t # q else q @ [t]);
            Some (\<lparr>in_policy = policy (T t), in_rt_priority = prio, in_vruntime_ns = 0\<rparr>,
              rq\<lparr>rt_queues := (rt_queues rq)[prio := q'], rt_nr_running := rt_nr_running rq + 1,
                 highest_rt_prio := Some (case highest_rt_prio rq of None \<Rightarrow> prio | Some cur \<Rightarrow> max cur prio)\<rparr>,
              T(t := (T t)\<lparr>rt_enqueue_head := False\<rparr>))
          })"

definition dequeue_highest_rt :: "run_queue \<Rightarrow> (nat option \<times> run_queue) option" where
  "dequeue_highest_rt rq =
     (case highest_rt_prio rq of
        None \<Rightarrow> Some (None, rq)
      | Some prio \<Rightarrow> do {
          q \<leftarrow> idx (rt_queues rq) prio;
          (case q of
             [] \<Rightarrow> Some (None, rq)
           | t # q' \<Rightarrow>
               Some (Some t, refresh_highest_rt_prio
                 (rq\<lparr>rt_queues := (rt_queues rq)[prio := q'], rt_nr_running := sat_sub (rt_nr_running rq) 1\<rparr>)))
        })"

definition remove_cfs_by_key :: "cfs_key \<Rightarrow> run_queue \<Rightarrow> tcbs \<Rightarrow> nat option \<times> run_queue \<times> tcbs" where
  "remove_cfs_by_key key rq T =
     (case om_remove key (cfs_tasks rq) of
        (None, _) \<Rightarrow> (None, rq, T)
      | (Some t, rest) \<Rightarrow>
          (Some t,
           refresh_min_vruntime (Some (vruntime_ns (T t)))
             (rq\<lparr>cfs_tasks := rest, cfs_load := sat_sub (cfs_load rq) (weight (T t)),
                 cfs_nr_running := sat_sub (cfs_nr_running rq) 1\<rparr>),
           T(t := (T t)\<lparr>cfs_rq_key := None\<rparr>)))"

definition dequeue_leftmost_cfs :: "run_queue \<Rightarrow> tcbs \<Rightarrow> nat option \<times> run_queue \<times> tcbs" where
  "dequeue_leftmost_cfs rq T =
     (case om_first (cfs_tasks rq) of
        None \<Rightarrow> (None, rq, T)
      | Some key \<Rightarrow> remove_cfs_by_key key rq T)"

text \<open>The critical section of \<open>dequeue_task\<close>: real-time tasks first, then the leftmost fair task.\<close>

definition dequeue_locked :: "run_queue \<Rightarrow> tcbs \<Rightarrow> (nat option \<times> run_queue \<times> tcbs) option" where
  "dequeue_locked rq T = do {
     (r, rq') \<leftarrow> dequeue_highest_rt rq;
     (case r of
        Some t \<Rightarrow> Some (Some t, rq', T)
      | None \<Rightarrow> Some (dequeue_leftmost_cfs rq' T))
   }"

fun boost_loop :: "nat \<Rightarrow> nat list \<Rightarrow> nat \<Rightarrow> run_queue \<Rightarrow> tcbs \<Rightarrow> nat \<times> run_queue \<times> tcbs" where
  "boost_loop v [] boosted rq T = (boosted, rq, T)"
| "boost_loop v (t # ts) boosted rq T =
     (if boosted \<ge> RT_SLEEP_CFS_BOOST_MAX_TASKS then (boosted, rq, T)
      else if policy (T t) \<noteq> Other \<or> \<not> on_rq (T t) \<or> task_status (T t) \<noteq> Runnable then boost_loop v ts boosted rq T
      else (case cfs_rq_key (T t) of
              None \<Rightarrow> boost_loop v ts boosted rq T
            | Some key \<Rightarrow>
                (case om_remove key (cfs_tasks rq) of
                   (None, _) \<Rightarrow> boost_loop v ts boosted rq T
                 | (Some queued, rest) \<Rightarrow>
                     if queued \<noteq> t
                     then boost_loop v ts boosted (rq\<lparr>cfs_tasks := om_insert key queued rest\<rparr>) T
                     else boost_loop v ts (boosted + 1) (rq\<lparr>cfs_tasks := om_insert (v, t) t rest\<rparr>)
                            (T(t := (T t)\<lparr>vruntime_ns := v, cfs_rq_key := Some (v, t)\<rparr>)))))"

definition boost_process_cfs_tasks :: "nat list \<Rightarrow> run_queue \<Rightarrow> tcbs \<Rightarrow> nat \<times> run_queue \<times> tcbs" where
  "boost_process_cfs_tasks ts rq T =
     (if cfs_nr_running rq < RT_SLEEP_CFS_BOOST_MIN_RUNNING then (0, rq, T)
      else let (boosted, rq', T') = boost_loop (sat_sub (min_vruntime_ns rq) CFS_WAKEUP_GRANULARITY_NS) ts 0 rq T
        in (boosted, if boosted \<noteq> 0 then refresh_min_vruntime None rq' else rq', T'))"

definition rq_remove_task :: "nat \<Rightarrow> run_queue \<Rightarrow> tcbs \<Rightarrow> (bool \<times> run_queue \<times> tcbs) option" where
  "rq_remove_task t rq T =
     (case policy (T t) of
        Idle \<Rightarrow> Some (False, rq, T)
      | Other \<Rightarrow>
          (let key = (case cfs_rq_key (T t) of
                        Some key \<Rightarrow> Some key
                      | None \<Rightarrow> map_option fst (find (\<lambda>(_, queued). queued = t) (cfs_tasks rq)))
           in case key of
                None \<Rightarrow> Some (False, rq, T)
              | Some key \<Rightarrow> let (r, rq', T') = remove_cfs_by_key key rq T in Some (r \<noteq> None, rq', T'))
      | _ \<Rightarrow> do {
          q \<leftarrow> idx (rt_queues rq) (rt_priority (T t));
          Some (if t \<in> set q
                then (True, refresh_highest_rt_prio
                        (rq\<lparr>rt_queues := (rt_queues rq)[rt_priority (T t) := remove1 t q],
                            rt_nr_running := sat_sub (rt_nr_running rq) 1\<rparr>), T)
                else (False, rq, T))
        })"

definition has_same_or_higher_rt :: "nat \<Rightarrow> run_queue \<Rightarrow> bool" where
  "has_same_or_higher_rt prio rq \<longleftrightarrow> (case highest_rt_prio rq of None \<Rightarrow> False | Some h \<Rightarrow> h \<ge> prio)"

definition total_nr_running :: "run_queue \<Rightarrow> nat" where
  "total_nr_running rq = rt_nr_running rq + cfs_nr_running rq"

definition cfs_load_score :: "run_queue \<Rightarrow> nat \<times> nat" where
  "cfs_load_score rq = (cfs_load rq, cfs_nr_running rq)"

definition preempt_reason_for_current :: "sched_policy \<Rightarrow> nat \<Rightarrow> nat \<Rightarrow> enqueued_info \<Rightarrow> resched_reason option" where
  "preempt_reason_for_current cur_policy cur_prio cur_vruntime incoming =
     (if is_rt cur_policy \<and> is_rt (in_policy incoming)
      then (if in_rt_priority incoming > cur_prio then Some HigherRtPriority else None)
      else if cur_policy = Other \<and> is_rt (in_policy incoming) then Some HigherRtPriority
      else if cur_policy = Other \<and> in_policy incoming = Other
      then (if sat_add (in_vruntime_ns incoming) CFS_WAKEUP_GRANULARITY_NS < cur_vruntime then Some CfsPreempt else None)
      else None)"

definition cfs_should_preempt :: "run_queue \<Rightarrow> nat \<Rightarrow> nat \<Rightarrow> nat \<Rightarrow> bool" where
  "cfs_should_preempt rq cur_vruntime cur_weight slice_exec \<longleftrightarrow>
     (if highest_rt_prio rq \<noteq> None then True
      else case leftmost_cfs_vruntime rq of
          None \<Rightarrow> False
        | Some l \<Rightarrow>
            if cur_vruntime \<le> sat_add l CFS_WAKEUP_GRANULARITY_NS then False
            else let runnable = sat_add (cfs_nr_running rq) 1;
                     scaled = runnable * CFS_MIN_GRANULARITY_NS mod 2 ^ 64;
                     period = (if scaled > CFS_TARGET_LATENCY_NS then scaled else CFS_TARGET_LATENCY_NS);
                     total_load = max (sat_add (cfs_load rq) cur_weight) 1;
                     ideal = period * cur_weight div total_load mod 2 ^ 64
              in slice_exec \<ge> max ideal CFS_MIN_GRANULARITY_NS)"

end
