(* ===== verification/Run_Queue_Ok.thy ===== *)
theory Run_Queue_Ok
  imports Run_Queue
begin

text \<open>
  The invariant of a run queue and what each operation does to the tasks it holds. Counters, the cached
  highest priority and the keys stored in the control blocks always agree with the queues.
\<close>

section \<open>Invariant\<close>

definition valid_attr :: "tcb \<Rightarrow> bool" where
  "valid_attr tk \<longleftrightarrow> (case policy tk of Idle \<Rightarrow> False | Other \<Rightarrow> weight tk \<le> 88761
     | _ \<Rightarrow> SCHED_RT_PRIO_MIN \<le> rt_priority tk \<and> rt_priority tk \<le> SCHED_RT_PRIO_MAX)"

definition highest_prio :: "nat list list \<Rightarrow> nat option" where
  "highest_prio qs = find (\<lambda>p. qs ! p \<noteq> []) (rev [1..<RT_QUEUE_LEVELS])"

definition rt_ok :: "run_queue \<Rightarrow> tcbs \<Rightarrow> bool" where
  "rt_ok rq T \<longleftrightarrow> length (rt_queues rq) = RT_QUEUE_LEVELS \<and> distinct (concat (rt_queues rq))
     \<and> (\<forall>p<RT_QUEUE_LEVELS. \<forall>t\<in>set (rt_queues rq ! p). is_rt (policy (T t)) \<and> rt_priority (T t) = p \<and> 1 \<le> p)
     \<and> highest_rt_prio rq = highest_prio (rt_queues rq) \<and> rt_nr_running rq = length (concat (rt_queues rq))"

definition entry_ok :: "tcbs \<Rightarrow> cfs_key \<times> nat \<Rightarrow> bool" where
  "entry_ok T e \<longleftrightarrow> fst e = (vruntime_ns (T (snd e)), snd e) \<and> cfs_rq_key (T (snd e)) = Some (fst e)
     \<and> policy (T (snd e)) = Other \<and> weight (T (snd e)) \<le> 88761"

definition cfs_ok :: "run_queue \<Rightarrow> tcbs \<Rightarrow> bool" where
  "cfs_ok rq T \<longleftrightarrow> om_ok (cfs_tasks rq) \<and> (\<forall>e\<in>set (cfs_tasks rq). entry_ok T e)
     \<and> cfs_nr_running rq = length (cfs_tasks rq)
     \<and> cfs_load rq = sum_list (map (\<lambda>t. weight (T t)) (map snd (cfs_tasks rq)))"

definition rq_ok :: "run_queue \<Rightarrow> tcbs \<Rightarrow> bool" where
  "rq_ok rq T \<longleftrightarrow> rt_ok rq T \<and> cfs_ok rq T"

text \<open>Which fields of a control block the queue operations write.\<close>

definition touched :: "nat \<Rightarrow> tcbs \<Rightarrow> tcbs \<Rightarrow> bool" where
  "touched t T T' \<longleftrightarrow> (\<exists>v b k h. T' = T(t := (T t)\<lparr>vruntime_ns := v, cfs_initialized := b, cfs_rq_key := k, rt_enqueue_head := h\<rparr>))"

lemma touchedI: "T' = T(t := (T t)\<lparr>vruntime_ns := v, cfs_initialized := b, cfs_rq_key := k, rt_enqueue_head := h\<rparr>) \<Longrightarrow> touched t T T'"
  unfolding touched_def by blast

lemma touched_refl: "touched t T T"
  by (rule touchedI [where v = "vruntime_ns (T t)" and b = "cfs_initialized (T t)" and k = "cfs_rq_key (T t)" and h = "rt_enqueue_head (T t)"]) simp

section \<open>Lists\<close>

lemma find_rev_upt_Some:
  "find P (rev [a..<b]) = Some p \<longleftrightarrow> a \<le> p \<and> p < b \<and> P p \<and> (\<forall>q. p < q \<and> q < b \<longrightarrow> \<not> P q)"
proof (induction b)
  case (Suc b)
  show ?case
  proof (cases "a \<le> b")
    case True
    then show ?thesis using Suc by (auto simp: less_Suc_eq)
  qed auto
qed auto

lemma find_rev_upt_None: "find P (rev [a..<b]) = None \<longleftrightarrow> (\<forall>q. a \<le> q \<and> q < b \<longrightarrow> \<not> P q)"
  by (auto simp: find_None_iff)

lemma concat_update: "p < length qs \<Longrightarrow> mset (concat (qs[p := q])) + mset (qs ! p) = mset (concat qs) + mset q"
proof (induction qs arbitrary: p)
  case (Cons x xs)
  then show ?case by (cases p) (simp_all add: ac_simps)
qed simp

lemma concat_insert:
  assumes "p < length qs" and "mset q = add_mset t (mset (qs ! p))"
  shows "mset (concat (qs[p := q])) = add_mset t (mset (concat qs))"
  using concat_update [OF assms(1), of q] assms(2) by simp

lemma concat_delete:
  assumes "p < length qs" and "mset (qs ! p) = add_mset t (mset q)"
  shows "mset (concat qs) = add_mset t (mset (concat (qs[p := q])))"
  using concat_update [OF assms(1), of q] assms(2) by simp

lemma in_concat_nth: "t \<in> set (concat qs) \<longleftrightarrow> (\<exists>k<length qs. t \<in> set (qs ! k))"
  by (simp add: in_set_conv_nth [of _ qs] Bex_def) blast

lemma mset_eq_length_set:
  assumes "mset xs = add_mset t (mset ys)"
  shows "length xs = Suc (length ys)" and "set xs = insert t (set ys)"
    and "distinct xs \<longleftrightarrow> t \<notin> set ys \<and> distinct ys"
proof -
  have m: "mset xs = mset (t # ys)" using assms by simp
  show "length xs = Suc (length ys)" "set xs = insert t (set ys)" "distinct xs \<longleftrightarrow> t \<notin> set ys \<and> distinct ys"
    using mset_eq_length [OF m] mset_eq_setD [OF m] mset_eq_imp_distinct_iff [OF m] by simp_all
qed

lemma runnable_mset: "mset (runnable_ptrs rq) = mset (concat (rt_queues rq)) + mset (map snd (cfs_tasks rq))"
  by (simp add: runnable_ptrs_def)

section \<open>Frame\<close>

lemma rt_ok_cong:
  assumes "rt_queues rq' = rt_queues rq" and "highest_rt_prio rq' = highest_rt_prio rq" and "rt_nr_running rq' = rt_nr_running rq"
    and "\<And>t. t \<in> set (concat (rt_queues rq)) \<Longrightarrow> policy (T' t) = policy (T t) \<and> rt_priority (T' t) = rt_priority (T t)"
  shows "rt_ok rq' T' \<longleftrightarrow> rt_ok rq T"
proof -
  have "policy (T' t) = policy (T t) \<and> rt_priority (T' t) = rt_priority (T t)"
    if "length (rt_queues rq) = RT_QUEUE_LEVELS" "p < RT_QUEUE_LEVELS" "t \<in> set (rt_queues rq ! p)" for p t
    using that by (intro assms(4)) auto
  then show ?thesis unfolding rt_ok_def assms(1-3) by auto
qed

lemma cfs_ok_cong:
  assumes "cfs_tasks rq' = cfs_tasks rq" and "cfs_nr_running rq' = cfs_nr_running rq" and "cfs_load rq' = cfs_load rq"
    and "\<And>t. t \<in> snd ` set (cfs_tasks rq) \<Longrightarrow> policy (T' t) = policy (T t) \<and> weight (T' t) = weight (T t)
      \<and> vruntime_ns (T' t) = vruntime_ns (T t) \<and> cfs_rq_key (T' t) = cfs_rq_key (T t)"
  shows "cfs_ok rq' T' \<longleftrightarrow> cfs_ok rq T"
proof -
  have w: "map (\<lambda>t. weight (T' t)) (map snd (cfs_tasks rq)) = map (\<lambda>t. weight (T t)) (map snd (cfs_tasks rq))"
    using assms(4) by (intro map_cong) auto
  have "entry_ok T' e \<longleftrightarrow> entry_ok T e" if "e \<in> set (cfs_tasks rq)" for e
    using assms(4) [of "snd e"] that by (auto simp: entry_ok_def)
  then have e: "(\<forall>e\<in>set (cfs_tasks rq). entry_ok T' e) \<longleftrightarrow> (\<forall>e\<in>set (cfs_tasks rq). entry_ok T e)" by blast
  show ?thesis unfolding cfs_ok_def assms(1-3) w e ..
qed

lemma rq_ok_cong:
  assumes "\<And>t. t \<in> set (runnable_ptrs rq) \<Longrightarrow> policy (T' t) = policy (T t) \<and> rt_priority (T' t) = rt_priority (T t)
    \<and> weight (T' t) = weight (T t) \<and> vruntime_ns (T' t) = vruntime_ns (T t) \<and> cfs_rq_key (T' t) = cfs_rq_key (T t)"
  shows "rq_ok rq T' \<longleftrightarrow> rq_ok rq T"
  unfolding rq_ok_def using assms
  by (intro arg_cong2 [where f = "(\<and>)"] rt_ok_cong cfs_ok_cong) (auto simp: runnable_ptrs_def)

lemma rq_okD:
  assumes "rq_ok rq T"
  shows "length (rt_queues rq) = RT_QUEUE_LEVELS" and "highest_rt_prio rq = highest_prio (rt_queues rq)"
    and "\<And>p t. p < RT_QUEUE_LEVELS \<Longrightarrow> t \<in> set (rt_queues rq ! p) \<Longrightarrow> is_rt (policy (T t)) \<and> rt_priority (T t) = p \<and> 1 \<le> p"
    and "om_ok (cfs_tasks rq)" and "\<And>e. e \<in> set (cfs_tasks rq) \<Longrightarrow> entry_ok T e"
  using assms by (auto simp: rq_ok_def rt_ok_def cfs_ok_def)

lemma rt_tasks_policy: "rq_ok rq T \<Longrightarrow> t \<in> set (concat (rt_queues rq)) \<Longrightarrow> is_rt (policy (T t))"
  unfolding in_concat_nth using rq_okD(1,3) by metis

lemma rq_ok_distinct: "rq_ok rq T \<Longrightarrow> distinct (runnable_ptrs rq)"
proof -
  assume ok: "rq_ok rq T"
  have "distinct (map snd (cfs_tasks rq))"
  proof -
    have "distinct (cfs_tasks rq)" using om.entries_distinct [OF rq_okD(4) [OF ok]] by (simp add: distinct_map)
    moreover have "inj_on snd (set (cfs_tasks rq))" 
      by (rule inj_onI) (metis entry_ok_def rq_okD(5) [OF ok] prod_eq_iff)
    ultimately show ?thesis by (simp add: distinct_map)
  qed
  moreover have "set (concat (rt_queues rq)) \<inter> set (map snd (cfs_tasks rq)) = {}"
    using rt_tasks_policy [OF ok] rq_okD(5) [OF ok] by (fastforce simp: is_rt_def entry_ok_def)
  ultimately show ?thesis using ok by (auto simp: runnable_ptrs_def rq_ok_def rt_ok_def)
qed

lemma refresh_min_fields [simp]:
  "rt_queues (refresh_min_vruntime a rq) = rt_queues rq" "highest_rt_prio (refresh_min_vruntime a rq) = highest_rt_prio rq"
  "rt_nr_running (refresh_min_vruntime a rq) = rt_nr_running rq" "cfs_tasks (refresh_min_vruntime a rq) = cfs_tasks rq"
  "cfs_nr_running (refresh_min_vruntime a rq) = cfs_nr_running rq" "cfs_load (refresh_min_vruntime a rq) = cfs_load rq"
  "min_vruntime_ns rq \<le> min_vruntime_ns (refresh_min_vruntime a rq)"
  by (auto simp: refresh_min_vruntime_def Let_def split: option.splits)

section \<open>Real-time queues\<close>

lemma highest_prio_Some:
  "highest_prio qs = Some p \<longleftrightarrow> 1 \<le> p \<and> p < RT_QUEUE_LEVELS \<and> qs ! p \<noteq> [] \<and> (\<forall>q. p < q \<and> q < RT_QUEUE_LEVELS \<longrightarrow> qs ! q = [])"
  unfolding highest_prio_def find_rev_upt_Some by auto

lemma highest_prio_None: "highest_prio qs = None \<longleftrightarrow> (\<forall>q. 1 \<le> q \<and> q < RT_QUEUE_LEVELS \<longrightarrow> qs ! q = [])"
  unfolding highest_prio_def find_rev_upt_None by auto

lemma highest_prio_insert:
  assumes "length qs = RT_QUEUE_LEVELS" and "1 \<le> p" and "p < RT_QUEUE_LEVELS" and "q \<noteq> []"
  shows "highest_prio (qs[p := q]) = Some (case highest_prio qs of None \<Rightarrow> p | Some c \<Rightarrow> max c p)"
proof (cases "highest_prio qs")
  case None
  have "highest_prio (qs[p := q]) = Some p"
    using None assms unfolding highest_prio_None highest_prio_Some by (auto simp: nth_list_update)
  then show ?thesis by (simp add: None)
next
  case (Some c)
  have "highest_prio (qs[p := q]) = Some (max c p)"
    using Some assms unfolding highest_prio_Some by (auto simp: nth_list_update max_def)
  then show ?thesis by (simp add: Some)
qed

lemma rt_level_set: "p < length qs \<Longrightarrow> t \<in> set (qs ! p) \<Longrightarrow> t \<in> set (concat qs)"
  by auto

lemma rt_insert:
  assumes ok: "rt_ok rq T" and t: "t \<notin> set (concat (rt_queues rq))" "is_rt (policy (T t))" "rt_priority (T t) = p"
    and p: "1 \<le> p" "p < RT_QUEUE_LEVELS" and q: "mset q = add_mset t (mset (rt_queues rq ! p))"
  defines "rq' \<equiv> rq\<lparr>rt_queues := (rt_queues rq)[p := q], rt_nr_running := rt_nr_running rq + 1,
     highest_rt_prio := Some (case highest_rt_prio rq of None \<Rightarrow> p | Some cur \<Rightarrow> max cur p)\<rparr>"
  shows "rt_ok rq' T" and "mset (concat (rt_queues rq')) = add_mset t (mset (concat (rt_queues rq)))"
proof -
  have len: "length (rt_queues rq) = RT_QUEUE_LEVELS" using ok by (simp add: rt_ok_def)
  show m: "mset (concat (rt_queues rq')) = add_mset t (mset (concat (rt_queues rq)))"
    using concat_insert [of p "rt_queues rq" q t] q p len by (simp add: rq'_def)
  have sq: "set q = insert t (set (rt_queues rq ! p))" "q \<noteq> []" using mset_eq_length_set(1,2) [OF q] by auto
  have "is_rt (policy (T u)) \<and> rt_priority (T u) = k \<and> 1 \<le> k" if "k < RT_QUEUE_LEVELS" "u \<in> set (rt_queues rq' ! k)" for k u
    using that t p ok sq(1) len by (cases "k = p") (auto simp: rq'_def rt_ok_def)
  then show "rt_ok rq' T"
    using ok t(1) mset_eq_length_set(1,3) [OF m] highest_prio_insert [OF len p sq(2)] len unfolding rt_ok_def
    by (auto simp: rq'_def)
qed

lemma rt_delete:
  assumes ok: "rt_ok rq T" and p: "p < RT_QUEUE_LEVELS" and q: "mset (rt_queues rq ! p) = add_mset t (mset q)"
  defines "rq' \<equiv> refresh_highest_rt_prio (rq\<lparr>rt_queues := (rt_queues rq)[p := q], rt_nr_running := sat_sub (rt_nr_running rq) 1\<rparr>)"
  shows "rt_ok rq' T" and "mset (concat (rt_queues rq)) = add_mset t (mset (concat (rt_queues rq')))"
proof -
  have len: "length (rt_queues rq) = RT_QUEUE_LEVELS" using ok by (simp add: rt_ok_def)
  show m: "mset (concat (rt_queues rq)) = add_mset t (mset (concat (rt_queues rq')))"
    using concat_delete [of p "rt_queues rq" t q] q p len by (simp add: rq'_def refresh_highest_rt_prio_def)
  have "set q \<subseteq> set (rt_queues rq ! p)" using mset_eq_length_set(2) [OF q] by auto
  then have "is_rt (policy (T u)) \<and> rt_priority (T u) = k \<and> 1 \<le> k" if "k < RT_QUEUE_LEVELS" "u \<in> set (rt_queues rq' ! k)" for k u
    using that ok len by (cases "k = p") (auto simp: rq'_def rt_ok_def refresh_highest_rt_prio_def)
  then have lv: "\<forall>k<RT_QUEUE_LEVELS. \<forall>u\<in>set (rt_queues rq' ! k). is_rt (policy (T u)) \<and> rt_priority (T u) = k \<and> 1 \<le> k" by blast
  have f: "length (rt_queues rq') = RT_QUEUE_LEVELS" "highest_rt_prio rq' = highest_prio (rt_queues rq')" "rt_nr_running rq' = rt_nr_running rq - 1"
    using len by (simp_all add: rq'_def refresh_highest_rt_prio_def highest_prio_def sat_sub_def)
  have "distinct (concat (rt_queues rq))" "rt_nr_running rq = length (concat (rt_queues rq))" using ok by (simp_all add: rt_ok_def)
  then have "distinct (concat (rt_queues rq'))" "rt_nr_running rq - 1 = length (concat (rt_queues rq'))"
    using mset_eq_length_set(1,3) [OF m] by simp_all
  then show "rt_ok rq' T" unfolding rt_ok_def using f lv by metis
qed

lemma refresh_highest_cfs [simp]:
  "cfs_tasks (refresh_highest_rt_prio rq) = cfs_tasks rq" "cfs_nr_running (refresh_highest_rt_prio rq) = cfs_nr_running rq"
  "cfs_load (refresh_highest_rt_prio rq) = cfs_load rq" "min_vruntime_ns (refresh_highest_rt_prio rq) = min_vruntime_ns rq"
  by (simp_all add: refresh_highest_rt_prio_def)

section \<open>Fair tasks\<close>

lemma cfs_load_mset: "sum_list (map f (map snd xs)) = sum_mset (image_mset f (mset (map snd xs)))"
  by (metis mset_map sum_mset_sum_list)

lemma cfs_load_bound:
  assumes "cfs_ok rq T" and "length (cfs_tasks rq) < 2 ^ 40"
  shows "cfs_load rq + 88761 \<le> usize_max"
proof -
  have "sum_list (map (\<lambda>t. weight (T t)) (map snd xs)) \<le> 88761 * length xs" if "\<forall>e\<in>set xs. entry_ok T e" for xs
    using that by (induction xs) (auto simp: entry_ok_def)
  then have "cfs_load rq \<le> 88761 * length (cfs_tasks rq)" using assms(1) by (auto simp: cfs_ok_def)
  also have "\<dots> \<le> 88761 * 2 ^ 40" using assms(2) by simp
  finally show ?thesis by (simp add: usize_max_def)
qed

lemma cfs_insert:
  fixes v :: nat and b :: bool
  assumes ok: "cfs_ok rq T" and len: "length (cfs_tasks rq) < 2 ^ 40" and t: "t \<notin> snd ` set (cfs_tasks rq)"
    and a: "policy (T t) = Other" "weight (T t) \<le> 88761"
  defines "T' \<equiv> T(t := (T t)\<lparr>vruntime_ns := v, cfs_initialized := b, cfs_rq_key := Some (v, t)\<rparr>)"
    and "rq' \<equiv> rq\<lparr>cfs_tasks := om_insert (v, t) t (cfs_tasks rq), cfs_nr_running := cfs_nr_running rq + 1,
                     cfs_load := sat_add (cfs_load rq) (weight (T t))\<rparr>"
  shows "cfs_ok rq' T'" and "mset (map snd (cfs_tasks rq')) = add_mset t (mset (map snd (cfs_tasks rq)))"
proof -
  have o: "om_ok (cfs_tasks rq)" using ok by (simp add: cfs_ok_def)
  have fresh: "(v, t) \<notin> fst ` set (cfs_tasks rq)"
  proof
    assume "(v, t) \<in> fst ` set (cfs_tasks rq)"
    then obtain e where "e \<in> set (cfs_tasks rq)" "fst e = (v, t)" by force
    then show False using ok t by (force simp: cfs_ok_def entry_ok_def)
  qed
  show m: "mset (map snd (cfs_tasks rq')) = add_mset t (mset (map snd (cfs_tasks rq)))"
    using om_insert_mset [OF fresh] by (simp add: rq'_def)
  have keep: "T' u = T u" if "u \<in> snd ` set (cfs_tasks rq)" for u using that t by (auto simp: T'_def)
  have "entry_ok T' e" if "e \<in> set (cfs_tasks rq')" for e
  proof (cases "e = ((v, t), t)")
    case True
    then show ?thesis using a by (simp add: entry_ok_def T'_def)
  next
    case False
    then have "e \<in> set (cfs_tasks rq)" using that om_insert_set [OF o] by (auto simp: rq'_def)
    then show ?thesis using ok keep [of "snd e"] by (force simp: cfs_ok_def entry_ok_def)
  qed
  moreover have "image_mset (\<lambda>u. weight (T' u)) (mset (map snd (cfs_tasks rq))) = image_mset (\<lambda>u. weight (T u)) (mset (map snd (cfs_tasks rq)))"
    using keep by (intro image_mset_cong) (simp del: mset_map)
  then have "sum_list (map (\<lambda>u. weight (T' u)) (map snd (cfs_tasks rq'))) = weight (T t) + cfs_load rq"
    unfolding cfs_load_mset m using ok by (simp add: T'_def cfs_ok_def cfs_load_mset del: mset_map map_map)
  moreover have "sat_add (cfs_load rq) (weight (T t)) = cfs_load rq + weight (T t)"
    using cfs_load_bound [OF ok len] a(2) by (intro sat_add_exact) simp
  moreover have "length (cfs_tasks rq') = Suc (length (cfs_tasks rq))"
    using om.length_ins [OF o fresh] by (simp add: rq'_def)
  ultimately show "cfs_ok rq' T'" using ok om_insert_ok [OF o] by (simp add: cfs_ok_def rq'_def del: map_map)
qed

lemma cfs_delete:
  assumes ok: "cfs_ok rq T" and r: "om_remove k (cfs_tasks rq) = (Some t, rest)"
  defines "T' \<equiv> T(t := (T t)\<lparr>cfs_rq_key := None\<rparr>)"
    and "rq' \<equiv> rq\<lparr>cfs_tasks := rest, cfs_load := sat_sub (cfs_load rq) (weight (T t)), cfs_nr_running := sat_sub (cfs_nr_running rq) 1\<rparr>"
  shows "cfs_ok rq' T'" and "mset (map snd (cfs_tasks rq)) = add_mset t (mset (map snd (cfs_tasks rq')))" and "(k, t) \<in> set (cfs_tasks rq)"
proof -
  have o: "om_ok (cfs_tasks rq)" using ok by (simp add: cfs_ok_def)
  note sp = om_remove_spec [OF o, of k, unfolded r fst_conv snd_conv]
  show kt: "(k, t) \<in> set (cfs_tasks rq)" using sp by (metis map_of_SomeD)
  then have k: "k = (vruntime_ns (T t), t)" using ok by (auto simp: cfs_ok_def entry_ok_def)
  show m: "mset (map snd (cfs_tasks rq)) = add_mset t (mset (map snd (cfs_tasks rq')))"
    using om_remove_mset [of k "cfs_tasks rq" t] r by (simp add: rq'_def)
  have other: "snd e \<noteq> t \<and> e \<in> set (cfs_tasks rq)" if "e \<in> set rest" for e
  proof -
    have e: "e \<in> set (cfs_tasks rq)" "fst e \<noteq> k" using sp that by auto
    then show ?thesis using ok k by (auto simp: cfs_ok_def entry_ok_def)
  qed
  have "entry_ok T' e" if "e \<in> set rest" for e
    using other [OF that] ok by (force simp: cfs_ok_def entry_ok_def T'_def)
  moreover have "image_mset (\<lambda>u. weight (T' u)) (mset (map snd rest)) = image_mset (\<lambda>u. weight (T u)) (mset (map snd rest))"
    by (intro image_mset_cong) (simp add: T'_def)
  then have l: "cfs_load rq = weight (T t) + sum_list (map (\<lambda>u. weight (T' u)) (map snd rest))"
    using ok m unfolding cfs_ok_def cfs_load_mset by (simp add: rq'_def del: mset_map map_map)
  have "sat_sub (cfs_load rq) (weight (T t)) = sum_list (map (\<lambda>u. weight (T' u)) (map snd rest))"
    unfolding l sat_sub_def by simp
  moreover have "length (cfs_tasks rq) = Suc (length rest)" using om_remove_length [of k "cfs_tasks rq" t] r by simp
  moreover have "cfs_nr_running rq = length (cfs_tasks rq)" using ok by (simp add: cfs_ok_def)
  ultimately show "cfs_ok rq' T'" using sp unfolding cfs_ok_def rq'_def by (simp add: sat_sub_def [of _ "Suc 0"] del: map_map)
qed

section \<open>Operations\<close>

text \<open>
  What every operation keeps: the invariant, the control blocks of the other tasks, and a minimum virtual
  runtime that never goes back.
\<close>

definition kept :: "nat \<Rightarrow> run_queue \<Rightarrow> tcbs \<Rightarrow> run_queue \<Rightarrow> tcbs \<Rightarrow> bool" where
  "kept t rq T rq' T' \<longleftrightarrow> rq_ok rq' T' \<and> touched t T T' \<and> min_vruntime_ns rq \<le> min_vruntime_ns rq' \<and> stop_task rq' = stop_task rq"

lemma refresh_stop [simp]:
  "stop_task (refresh_min_vruntime a rq) = stop_task rq" "stop_task (refresh_highest_rt_prio rq) = stop_task rq"
  by (auto simp: refresh_min_vruntime_def refresh_highest_rt_prio_def Let_def split: option.splits)

lemma enqueue_ok:
  assumes ok: "rq_ok rq T" and a: "valid_attr (T t)" and t: "t \<notin> set (runnable_ptrs rq)" and len: "length (cfs_tasks rq) < 2 ^ 40"
  shows "\<exists>i rq' T'. enqueue_locked t hint rq T = Some (i, rq', T') \<and> kept t rq T rq' T'
    \<and> mset (runnable_ptrs rq') = add_mset t (mset (runnable_ptrs rq))"
proof (cases "policy (T t) = Other")
  case True
  obtain v b where pl: "place_cfs_entity rq (vruntime_ns (T t)) (cfs_initialized (T t)) hint = (v, b)" by force
  define T' where "T' = T(t := (T t)\<lparr>vruntime_ns := v, cfs_initialized := b, cfs_rq_key := Some (v, t)\<rparr>)"
  define rq1 where "rq1 = rq\<lparr>cfs_tasks := om_insert (v, t) t (cfs_tasks rq), cfs_nr_running := cfs_nr_running rq + 1,
     cfs_load := sat_add (cfs_load rq) (weight (T t))\<rparr>"
  have e: "enqueue_locked t hint rq T = Some (\<lparr>in_policy = Other, in_rt_priority = 0, in_vruntime_ns = v\<rparr>, refresh_min_vruntime None rq1, T')"
    by (simp add: enqueue_locked_def True pl T'_def rq1_def Let_def)
  have c0: "cfs_ok rq T" "t \<notin> snd ` set (cfs_tasks rq)" "weight (T t) \<le> 88761"
    using ok t a True by (auto simp: rq_ok_def runnable_ptrs_def valid_attr_def)
  have c1: "cfs_ok rq1 T'" and m: "mset (map snd (cfs_tasks rq1)) = add_mset t (mset (map snd (cfs_tasks rq)))"
    using cfs_insert(1) [OF c0(1) len c0(2) True c0(3), of v b] cfs_insert(2) [OF c0(1) len c0(2) True c0(3), of v]
    unfolding T'_def rq1_def by blast+
  have "rt_ok rq1 T'"
    using ok t by (subst rt_ok_cong [of _ rq _ T]) (auto simp: rq_ok_def rq1_def T'_def runnable_ptrs_def)
  then have "rq_ok (refresh_min_vruntime None rq1) T'"
    using c1 rt_ok_cong [of "refresh_min_vruntime None rq1" rq1 T' T'] cfs_ok_cong [of "refresh_min_vruntime None rq1" rq1 T' T']
    by (simp add: rq_ok_def)
  moreover have "touched t T T'" by (rule touchedI [where v = v and b = b and k = "Some (v, t)" and h = "rt_enqueue_head (T t)"]) (simp add: T'_def)
  moreover have "min_vruntime_ns rq \<le> min_vruntime_ns (refresh_min_vruntime None rq1)"
    using refresh_min_fields(7) [of rq1 None] by (simp add: rq1_def)
  ultimately show ?thesis using e m by (auto simp: kept_def runnable_mset rq1_def)
next
  case False
  then have rt: "is_rt (policy (T t))" and pr: "1 \<le> rt_priority (T t)" "rt_priority (T t) < RT_QUEUE_LEVELS"
    using a by (auto simp: valid_attr_def is_rt_def SCHED_RT_PRIO_MIN_def RT_QUEUE_LEVELS_def split: sched_policy.splits)
  let ?p = "rt_priority (T t)"
  have len: "length (rt_queues rq) = RT_QUEUE_LEVELS" using rq_okD(1) [OF ok] .
  define q where "q = (if rt_enqueue_head (T t) then t # rt_queues rq ! ?p else rt_queues rq ! ?p @ [t])"
  define T' where "T' = T(t := (T t)\<lparr>rt_enqueue_head := False\<rparr>)"
  define rq' where "rq' = rq\<lparr>rt_queues := (rt_queues rq)[?p := q], rt_nr_running := rt_nr_running rq + 1,
     highest_rt_prio := Some (case highest_rt_prio rq of None \<Rightarrow> ?p | Some cur \<Rightarrow> max cur ?p)\<rparr>"
  have e: "enqueue_locked t hint rq T = Some (\<lparr>in_policy = policy (T t), in_rt_priority = ?p, in_vruntime_ns = 0\<rparr>, rq', T')"
    using rt pr len by (cases "policy (T t)") (auto simp: enqueue_locked_def is_rt_def q_def T'_def rq'_def Let_def)
  have "mset q = add_mset t (mset (rt_queues rq ! ?p))" by (simp add: q_def)
  moreover have r0: "rt_ok rq T" "t \<notin> set (concat (rt_queues rq))" using ok t by (auto simp: rq_ok_def runnable_ptrs_def)
  ultimately have r1: "rt_ok rq' T" and m: "mset (concat (rt_queues rq')) = add_mset t (mset (concat (rt_queues rq)))"
    using rt_insert [OF r0 rt refl pr] unfolding rq'_def by blast+
  have "rt_ok rq' T'" using r1 by (subst rt_ok_cong [of _ rq' _ T]) (auto simp: T'_def)
  moreover have "cfs_ok rq' T'" using ok by (subst cfs_ok_cong [of _ rq _ T]) (auto simp: T'_def rq'_def rq_ok_def)
  moreover have "touched t T T'"
    by (rule touchedI [where v = "vruntime_ns (T t)" and b = "cfs_initialized (T t)" and k = "cfs_rq_key (T t)" and h = False]) (simp add: T'_def)
  ultimately show ?thesis using e m by (auto simp: kept_def rq_ok_def runnable_mset rq'_def)
qed

lemma remove_cfs_ok:
  assumes ok: "rq_ok rq T" and r: "om_remove k (cfs_tasks rq) = (Some t, rest)"
  shows "\<exists>rq' T'. remove_cfs_by_key k rq T = (Some t, rq', T') \<and> kept t rq T rq' T' \<and> (k, t) \<in> set (cfs_tasks rq)
    \<and> mset (runnable_ptrs rq) = add_mset t (mset (runnable_ptrs rq'))"
proof -
  define T' where "T' = T(t := (T t)\<lparr>cfs_rq_key := None\<rparr>)"
  define rq1 where "rq1 = rq\<lparr>cfs_tasks := rest, cfs_load := sat_sub (cfs_load rq) (weight (T t)), cfs_nr_running := sat_sub (cfs_nr_running rq) 1\<rparr>"
  let ?rq = "refresh_min_vruntime (Some (vruntime_ns (T t))) rq1"
  have e: "remove_cfs_by_key k rq T = (Some t, ?rq, T')" by (simp add: remove_cfs_by_key_def r T'_def rq1_def)
  have c0: "cfs_ok rq T" using ok by (simp add: rq_ok_def)
  note c = cfs_delete [OF c0 r, folded T'_def rq1_def]
  have "cfs_ok ?rq T'" using c(1) cfs_ok_cong [of ?rq rq1 T' T'] by (simp add: rq_ok_def)
  moreover have "rt_ok ?rq T'" using ok by (subst rt_ok_cong [of _ rq _ T]) (auto simp: rq_ok_def rq1_def T'_def)
  moreover have "touched t T T'"
    by (rule touchedI [where v = "vruntime_ns (T t)" and b = "cfs_initialized (T t)" and k = None and h = "rt_enqueue_head (T t)"]) (simp add: T'_def)
  moreover have "min_vruntime_ns rq \<le> min_vruntime_ns ?rq"
    using refresh_min_fields(7) [of rq1 "Some (vruntime_ns (T t))"] by (simp add: rq1_def)
  ultimately show ?thesis using e c(2,3) ok by (auto simp: kept_def rq_ok_def runnable_mset rq1_def)
qed

lemma rt_delete_ok:
  assumes ok: "rq_ok rq T" and p: "p < RT_QUEUE_LEVELS" and q: "mset (rt_queues rq ! p) = add_mset t (mset q)"
  defines "rq' \<equiv> refresh_highest_rt_prio (rq\<lparr>rt_queues := (rt_queues rq)[p := q], rt_nr_running := sat_sub (rt_nr_running rq) 1\<rparr>)"
  shows "kept t rq T rq' T" and "mset (runnable_ptrs rq) = add_mset t (mset (runnable_ptrs rq'))"
proof -
  have r0: "rt_ok rq T" using ok by (simp add: rq_ok_def)
  note d = rt_delete [OF r0 p q, folded rq'_def]
  have "cfs_ok rq' T" using ok by (subst cfs_ok_cong [of _ rq _ T]) (auto simp: rq'_def rq_ok_def)
  then show "kept t rq T rq' T" using d(1) ok touched_refl by (auto simp: kept_def rq_ok_def rq'_def)
  show "mset (runnable_ptrs rq) = add_mset t (mset (runnable_ptrs rq'))" using d(2) ok by (simp add: rq_ok_def runnable_mset rq'_def)
qed

text \<open>
  \<open>next_task\<close> is what the queue should run next: the task that waits longest at the highest real-time
  priority, and without real-time tasks the one with the least virtual runtime.
\<close>

definition next_task :: "run_queue \<Rightarrow> tcbs \<Rightarrow> nat \<Rightarrow> bool" where
  "next_task rq T t \<longleftrightarrow>
     (\<exists>p. 1 \<le> p \<and> p < RT_QUEUE_LEVELS \<and> rt_queues rq ! p \<noteq> [] \<and> hd (rt_queues rq ! p) = t
        \<and> (\<forall>u\<in>set (concat (rt_queues rq)). rt_priority (T u) \<le> p))
     \<or> concat (rt_queues rq) = [] \<and> t \<in> set (map snd (cfs_tasks rq))
        \<and> (\<forall>u\<in>set (map snd (cfs_tasks rq)). (vruntime_ns (T t), t) \<le> (vruntime_ns (T u), u))"

lemma highest_None_empty: "rq_ok rq T \<Longrightarrow> highest_rt_prio rq = None \<Longrightarrow> concat (rt_queues rq) = []"
proof -
  assume ok: "rq_ok rq T" and h: "highest_rt_prio rq = None"
  have len: "length (rt_queues rq) = RT_QUEUE_LEVELS" using rq_okD(1) [OF ok] .
  have "rt_queues rq ! p = []" if "p < RT_QUEUE_LEVELS" for p
  proof (cases "1 \<le> p")
    case True
    then show ?thesis using h rq_okD(2) [OF ok] that highest_prio_None [of "rt_queues rq"] by simp
  next
    case False
    then show ?thesis using rq_okD(3) [OF ok that] by (cases "rt_queues rq ! p") fastforce+
  qed
  then have "\<forall>q\<in>set (rt_queues rq). q = []" unfolding all_set_conv_all_nth len by simp
  then show ?thesis by simp
qed

lemma dequeue_rt_ok:
  assumes ok: "rq_ok rq T" and h: "highest_rt_prio rq = Some p"
  shows "\<exists>t rq'. dequeue_highest_rt rq = Some (Some t, rq') \<and> kept t rq T rq' T \<and> next_task rq T t
    \<and> mset (runnable_ptrs rq) = add_mset t (mset (runnable_ptrs rq'))"
proof -
  have p: "1 \<le> p" "p < RT_QUEUE_LEVELS" "rt_queues rq ! p \<noteq> []" and top: "\<forall>q. p < q \<and> q < RT_QUEUE_LEVELS \<longrightarrow> rt_queues rq ! q = []"
    using h rq_okD(2) [OF ok] highest_prio_Some [of "rt_queues rq" p] by auto
  obtain t q where q: "rt_queues rq ! p = t # q" using p(3) by (cases "rt_queues rq ! p") auto
  have len: "length (rt_queues rq) = RT_QUEUE_LEVELS" using rq_okD(1) [OF ok] .
  have le: "rt_priority (T u) \<le> p" if u: "u \<in> set (concat (rt_queues rq))" for u
  proof -
    obtain k where k: "k < RT_QUEUE_LEVELS" "u \<in> set (rt_queues rq ! k)" 
      using u len unfolding in_concat_nth by metis
    then show ?thesis using rq_okD(3) [OF ok k] top by (cases "k \<le> p") auto
  qed
  have "mset (rt_queues rq ! p) = add_mset t (mset q)" using q by simp
  note d = rt_delete_ok [OF ok p(2) this]
  have "next_task rq T t" unfolding next_task_def using p q le by (intro disjI1 exI [of _ p]) simp
  then show ?thesis using d p q len h by (simp add: dequeue_highest_rt_def)
qed

lemma dequeue_cfs_ok:
  assumes ok: "rq_ok rq T" and f: "om_first (cfs_tasks rq) = Some k" and h: "concat (rt_queues rq) = []"
  shows "\<exists>t rq' T'. dequeue_leftmost_cfs rq T = (Some t, rq', T') \<and> kept t rq T rq' T' \<and> next_task rq T t
    \<and> mset (runnable_ptrs rq) = add_mset t (mset (runnable_ptrs rq'))"
proof -
  have o: "om_ok (cfs_tasks rq)" using rq_okD(4) [OF ok] .
  obtain t where t: "(k, t) \<in> set (cfs_tasks rq)" and least: "\<forall>e\<in>set (cfs_tasks rq). k \<le> fst e" using om_first_least [OF o f] by blast
  obtain rest where r: "om_remove k (cfs_tasks rq) = (Some t, rest)"
    using om_remove_spec [OF o, of k] om.lookup_iff [OF o, of k t] t by (metis prod.collapse)
  have key: "fst e = (vruntime_ns (T (snd e)), snd e)" if "e \<in> set (cfs_tasks rq)" for e
    using rq_okD(5) [OF ok that] by (simp add: entry_ok_def)
  have "(vruntime_ns (T t), t) \<le> (vruntime_ns (T u), u)" if u: "u \<in> set (map snd (cfs_tasks rq))" for u
  proof -
    obtain e where e: "e \<in> set (cfs_tasks rq)" "snd e = u" using u by auto
    have "k \<le> fst e" using least e(1) by blast
    then show ?thesis using key [OF e(1)] key [OF t] e(2) by simp
  qed
  moreover have "t \<in> set (map snd (cfs_tasks rq))" using t by (metis in_set_zipE snd_conv image_eqI list.set_map)
  ultimately have "next_task rq T t" unfolding next_task_def using h by blast
  then show ?thesis using remove_cfs_ok [OF ok r] by (auto simp: dequeue_leftmost_cfs_def f)
qed

lemma dequeue_ok:
  assumes ok: "rq_ok rq T"
  shows "\<exists>r rq' T'. dequeue_locked rq T = Some (r, rq', T') \<and>
    (case r of None \<Rightarrow> runnable_ptrs rq = [] \<and> rq' = rq \<and> T' = T
     | Some t \<Rightarrow> kept t rq T rq' T' \<and> next_task rq T t \<and> mset (runnable_ptrs rq) = add_mset t (mset (runnable_ptrs rq')))"
proof (cases "highest_rt_prio rq")
  case (Some p)
  then show ?thesis using dequeue_rt_ok [OF ok Some] by (auto simp: dequeue_locked_def)
next
  case None
  then have e: "concat (rt_queues rq) = []" "dequeue_highest_rt rq = Some (None, rq)"
    using highest_None_empty [OF ok] by (simp_all add: dequeue_highest_rt_def)
  show ?thesis
  proof (cases "om_first (cfs_tasks rq)")
    case None
    then have "dequeue_leftmost_cfs rq T = (None, rq, T)" "cfs_tasks rq = []" by (simp_all add: dequeue_leftmost_cfs_def del: om_first_None) simp
    then show ?thesis using e by (simp add: dequeue_locked_def runnable_ptrs_def)
  next
    case (Some k)
    then show ?thesis using dequeue_cfs_ok [OF ok Some e(1)] e(2) by (auto simp: dequeue_locked_def)
  qed
qed

lemma rq_remove_ok:
  assumes ok: "rq_ok rq T" and a: "valid_attr (T t)" and key: "cfs_rq_key (T t) = None \<or> t \<in> set (runnable_ptrs rq)"
  shows "\<exists>b rq' T'. rq_remove_task t rq T = Some (b, rq', T') \<and> (b \<longleftrightarrow> t \<in> set (runnable_ptrs rq)) \<and>
    (if b then kept t rq T rq' T' \<and> mset (runnable_ptrs rq) = add_mset t (mset (runnable_ptrs rq')) else rq' = rq \<and> T' = T)"
proof (cases "policy (T t) = Other")
  case True
  have o: "om_ok (cfs_tasks rq)" using rq_okD(4) [OF ok] .
  have nrt: "t \<notin> set (concat (rt_queues rq))" using rt_tasks_policy [OF ok, of t] True by (auto simp: is_rt_def)
  have ent: "e = ((vruntime_ns (T t), t), t) \<and> cfs_rq_key (T t) = Some (fst e)" if "e \<in> set (cfs_tasks rq)" "snd e = t" for e
    using rq_okD(5) [OF ok that(1)] that(2) by (auto simp: entry_ok_def prod_eq_iff)
  show ?thesis
  proof (cases "t \<in> set (runnable_ptrs rq)")
    case in_q: True
    then obtain e where e: "e \<in> set (cfs_tasks rq)" "snd e = t" using nrt by (auto simp: runnable_ptrs_def)
    then have k: "cfs_rq_key (T t) = Some (fst e)" "(fst e, t) \<in> set (cfs_tasks rq)"
      using ent [OF e] e by (metis prod.collapse)+
    obtain rest where r: "om_remove (fst e) (cfs_tasks rq) = (Some t, rest)"
      using om_remove_spec [OF o, of "fst e"] om.lookup_iff [OF o, of "fst e" t] k(2) by (metis prod.collapse)
    obtain rq' T' where d: "remove_cfs_by_key (fst e) rq T = (Some t, rq', T')" "kept t rq T rq' T'"
      "mset (runnable_ptrs rq) = add_mset t (mset (runnable_ptrs rq'))" using remove_cfs_ok [OF ok r] by blast
    have "rq_remove_task t rq T = Some (True, rq', T')" by (simp add: rq_remove_task_def True k(1) d(1))
    then show ?thesis using d(2,3) in_q by auto
  next
    case out: False
    then have "find (\<lambda>(_, queued). queued = t) (cfs_tasks rq) = None" by (force simp: find_None_iff runnable_ptrs_def)
    then have "rq_remove_task t rq T = Some (False, rq, T)" using key out True by (simp add: rq_remove_task_def)
    then show ?thesis using out by auto
  qed
next
  case False
  then have rt: "is_rt (policy (T t))" and pr: "rt_priority (T t) < RT_QUEUE_LEVELS"
    using a by (auto simp: valid_attr_def is_rt_def RT_QUEUE_LEVELS_def split: sched_policy.splits)
  let ?q = "rt_queues rq ! rt_priority (T t)"
  have len: "length (rt_queues rq) = RT_QUEUE_LEVELS" using rq_okD(1) [OF ok] .
  have "t \<notin> set (map snd (cfs_tasks rq))" using rq_okD(5) [OF ok] rt by (force simp: entry_ok_def is_rt_def)
  moreover have "t \<in> set (concat (rt_queues rq)) \<longleftrightarrow> t \<in> set ?q"
    using rq_okD(3) [OF ok] pr len unfolding in_concat_nth by metis
  ultimately have iff: "t \<in> set (runnable_ptrs rq) \<longleftrightarrow> t \<in> set ?q" by (auto simp: runnable_ptrs_def)
  have m: "mset ?q = add_mset t (mset (remove1 t ?q))" if "t \<in> set ?q" using that by simp
  show ?thesis
  proof (cases "t \<in> set ?q")
    case True
    note d = rt_delete_ok [OF ok pr m [OF True]]
    let ?rq = "refresh_highest_rt_prio (rq\<lparr>rt_queues := (rt_queues rq)[rt_priority (T t) := remove1 t ?q],
      rt_nr_running := sat_sub (rt_nr_running rq) 1\<rparr>)"
    have "rq_remove_task t rq T = Some (True, ?rq, T)"
      using True rt pr len by (cases "policy (T t)") (simp_all add: rq_remove_task_def is_rt_def)
    then show ?thesis using d True iff by auto
  next
    case False
    then have "rq_remove_task t rq T = Some (False, rq, T)"
      using rt pr len by (cases "policy (T t)") (simp_all add: rq_remove_task_def is_rt_def)
    then show ?thesis using False iff by auto
  qed
qed

end
