(* ===== verification/Run_Queue_Props.thy ===== *)
theory Run_Queue_Props
  imports Run_Queue_Ok
begin

text \<open>
  Boosting, and the run queue over any sequence of its operations.
\<close>

section \<open>Boosting\<close>

lemma om_sorted_unique:
  assumes "om_ok xs" and "om_ok ys" and "set xs = set ys"
  shows "xs = ys"
proof (rule map_sorted_distinct_set_unique [where f = fst])
  show "inj_on fst (set xs \<union> set ys)"
    using om.entries_distinct [OF assms(1)] assms(3) by (simp add: distinct_map)
qed (use assms om.entries_distinct strict_sorted_imp_sorted in \<open>auto simp: om_ok_def\<close>)

lemma om_reinsert:
  assumes "om_ok xs" and "om_remove k xs = (Some v, rest)"
  shows "om_insert k v rest = xs"
proof -
  note sp = om_remove_spec [OF assms(1), of k, unfolded assms(2) fst_conv snd_conv]
  have kv: "(k, v) \<in> set xs" using sp by (metis map_of_SomeD)
  have ok: "om_ok rest" and st: "set rest = {e \<in> set xs. fst e \<noteq> k}" using sp by simp_all
  have u: "e = (k, v)" if "fst e = k" "e \<in> set xs" for e
    using om.lookup_iff [OF assms(1), of k] sp that by (metis option.inject prod.collapse)
  have "insert (k, v) {e \<in> set rest. fst e \<noteq> k} = set xs" using u kv unfolding st by blast
  then have "set (om_insert k v rest) = set xs" using om_insert_set [OF ok, of k v] by simp
  then show ?thesis using om_sorted_unique [OF om_insert_ok [OF ok] assms(1)] by blast
qed

lemma cfs_rekey:
  fixes v :: nat
  assumes ok: "cfs_ok rq T" and len: "length (cfs_tasks rq) < 2 ^ 40" and r: "om_remove k (cfs_tasks rq) = (Some t, rest)"
  shows "cfs_ok (rq\<lparr>cfs_tasks := om_insert (v, t) t rest\<rparr>) (T(t := (T t)\<lparr>vruntime_ns := v, cfs_rq_key := Some (v, t)\<rparr>))"
    and "mset (map snd (om_insert (v, t) t rest)) = mset (map snd (cfs_tasks rq))"
proof -
  define T1 where "T1 = T(t := (T t)\<lparr>cfs_rq_key := None\<rparr>)"
  define rq1 where "rq1 = rq\<lparr>cfs_tasks := rest, cfs_load := sat_sub (cfs_load rq) (weight (T t)), cfs_nr_running := sat_sub (cfs_nr_running rq) 1\<rparr>"
  note d = cfs_delete [OF ok r, folded T1_def rq1_def]
  have et: "entry_ok T (k, t)" using d(3) ok by (auto simp: cfs_ok_def)
  have l: "length (cfs_tasks rq) = Suc (length rest)" using om_remove_length [of k "cfs_tasks rq" t] r by simp
  have nt: "t \<notin> snd ` set (cfs_tasks rq1)"
  proof
    assume "t \<in> snd ` set (cfs_tasks rq1)"
    then obtain e where "e \<in> set rest" "snd e = t" by (auto simp: rq1_def)
    then have "entry_ok T1 e" using d(1) by (auto simp: cfs_ok_def rq1_def)
    then show False using \<open>snd e = t\<close> by (simp add: entry_ok_def T1_def)
  qed
  have a: "policy (T1 t) = Other" "weight (T1 t) \<le> 88761" using et by (simp_all add: entry_ok_def T1_def)
  have len1: "length (cfs_tasks rq1) < 2 ^ 40" using len l by (simp add: rq1_def)
  note i = cfs_insert(1) [OF d(1) len1 nt a, of v "cfs_initialized (T t)"]
  have ld: "weight (T t) \<le> cfs_load rq"
  proof -
    have "weight (T t) \<in> set (map (\<lambda>t. weight (T t)) (map snd (cfs_tasks rq)))" using d(3) by force
    from member_le_sum_list [OF this] show ?thesis using ok by (simp add: cfs_ok_def)
  qed
  have bound: "cfs_load rq \<le> usize_max" using cfs_load_bound [OF ok len] by simp
  have c: "cfs_nr_running rq1 + 1 = cfs_nr_running rq" "sat_add (cfs_load rq1) (weight (T1 t)) = cfs_load rq"
    using ok l ld bound by (auto simp: rq1_def cfs_ok_def sat_sub_def sat_add_def T1_def)
  have q: "rq1\<lparr>cfs_tasks := om_insert (v, t) t (cfs_tasks rq1), cfs_nr_running := cfs_nr_running rq1 + 1,
      cfs_load := sat_add (cfs_load rq1) (weight (T1 t))\<rparr> = rq\<lparr>cfs_tasks := om_insert (v, t) t rest\<rparr>"
    unfolding c by (simp add: rq1_def)
  have T2: "T1(t := (T1 t)\<lparr>vruntime_ns := v, cfs_initialized := cfs_initialized (T t), cfs_rq_key := Some (v, t)\<rparr>)
      = T(t := (T t)\<lparr>vruntime_ns := v, cfs_rq_key := Some (v, t)\<rparr>)"
    by (rule ext) (simp add: T1_def)
  show "cfs_ok (rq\<lparr>cfs_tasks := om_insert (v, t) t rest\<rparr>) (T(t := (T t)\<lparr>vruntime_ns := v, cfs_rq_key := Some (v, t)\<rparr>))"
    using i unfolding q T2 .
  show "mset (map snd (om_insert (v, t) t rest)) = mset (map snd (cfs_tasks rq))"
    using cfs_insert(2) [OF d(1) len1 nt a, of v] d(2) by (simp add: rq1_def)
qed

text \<open>The fields a boost may write, in any number of tasks.\<close>

definition same_task :: "tcb \<Rightarrow> tcb \<Rightarrow> bool" where
  "same_task a b \<longleftrightarrow> (\<exists>v i k h. b = a\<lparr>vruntime_ns := v, cfs_initialized := i, cfs_rq_key := k, rt_enqueue_head := h\<rparr>)"

lemma same_task_refl [simp]: "same_task a a"
  unfolding same_task_def
  by (intro exI [of _ "vruntime_ns a"] exI [of _ "cfs_initialized a"] exI [of _ "cfs_rq_key a"] exI [of _ "rt_enqueue_head a"]) simp

lemma boost_loop_ok:
  assumes "rq_ok rq T" and "length (cfs_tasks rq) < 2 ^ 40" and "boost_loop v ts n rq T = (n', rq', T')"
  shows "rq_ok rq' T' \<and> mset (runnable_ptrs rq') = mset (runnable_ptrs rq) \<and> rt_queues rq' = rt_queues rq
    \<and> min_vruntime_ns rq' = min_vruntime_ns rq \<and> (\<forall>u. same_task (T u) (T' u)) \<and> n' \<le> max n RT_SLEEP_CFS_BOOST_MAX_TASKS
    \<and> (\<forall>u. u \<notin> set (runnable_ptrs rq) \<longrightarrow> T' u = T u) \<and> stop_task rq' = stop_task rq"
  using assms
proof (induction v ts n rq T rule: boost_loop.induct)
  case (1 v n rq T)
  then show ?case by auto
next
  case (2 v t ts n rq T)
  show ?case
  proof (cases "n \<ge> RT_SLEEP_CFS_BOOST_MAX_TASKS")
    case True
    then show ?thesis using 2 by auto
  next
    case n: False
    show ?thesis
    proof (cases "policy (T t) \<noteq> Other \<or> \<not> on_rq (T t) \<or> task_status (T t) \<noteq> Runnable")
      case True
      then show ?thesis using "2.IH"(1) [OF n True] "2.prems" n by simp
    next
      case g: False
      show ?thesis
      proof (cases "cfs_rq_key (T t)")
        case None
        then show ?thesis using "2.IH"(2) [OF n g None] "2.prems" n g by simp
      next
        case (Some key)
        obtain r rest where r: "om_remove key (cfs_tasks rq) = (r, rest)" by force
        show ?thesis
        proof (cases r)
          case None
          then show ?thesis using "2.IH"(3) [OF n g Some r [symmetric, unfolded None]] "2.prems" n g Some r by simp
        next
          case (Some queued)
          have o: "om_ok (cfs_tasks rq)" using rq_okD(4) [OF "2.prems"(1)] .
          show ?thesis
          proof (cases "queued = t")
            case False
            have same: "rq\<lparr>cfs_tasks := om_insert key queued rest\<rparr> = rq"
              using om_reinsert [OF o r [unfolded Some]] by simp
            then show ?thesis
              using "2.IH"(4) [OF n g \<open>cfs_rq_key (T t) = Some key\<close> r [symmetric, unfolded Some] refl False] "2.prems" n g \<open>cfs_rq_key (T t) = Some key\<close> r Some False
              by simp
          next
            case True
            then have nf: "\<not> queued \<noteq> t" by simp
            define T1 where "T1 = T(t := (T t)\<lparr>vruntime_ns := v, cfs_rq_key := Some (v, t)\<rparr>)"
            define rq1 where "rq1 = rq\<lparr>cfs_tasks := om_insert (v, t) t rest\<rparr>"
            have r': "om_remove key (cfs_tasks rq) = (Some t, rest)" using r Some True by simp
            have c0: "cfs_ok rq T" using "2.prems"(1) by (simp add: rq_ok_def)
            note c = cfs_rekey [OF c0 "2.prems"(2) r', of v, folded T1_def rq1_def]
            have "rt_ok rq1 T1" using "2.prems"(1) by (subst rt_ok_cong [of _ rq _ T]) (auto simp: rq1_def T1_def rq_ok_def)
            then have ok1: "rq_ok rq1 T1" using c(1) by (simp add: rq_ok_def)
            have m: "mset (runnable_ptrs rq1) = mset (runnable_ptrs rq)" using c(2) by (simp add: runnable_mset rq1_def)
            have len1: "length (cfs_tasks rq1) < 2 ^ 40"
              using "2.prems"(2) mset_eq_length [OF c(2)] by (simp add: rq1_def)
            have ex: "boost_loop v ts (n + 1) rq1 T1 = (n', rq', T')"
              using "2.prems"(3) n g \<open>cfs_rq_key (T t) = Some key\<close> r Some True by (simp add: T1_def rq1_def)
            have IH: "rq_ok rq' T' \<and> mset (runnable_ptrs rq') = mset (runnable_ptrs rq1) \<and> rt_queues rq' = rt_queues rq1
              \<and> min_vruntime_ns rq' = min_vruntime_ns rq1 \<and> (\<forall>u. same_task (T1 u) (T' u)) \<and> n' \<le> max (n + 1) RT_SLEEP_CFS_BOOST_MAX_TASKS
              \<and> (\<forall>u. u \<notin> set (runnable_ptrs rq1) \<longrightarrow> T' u = T1 u) \<and> stop_task rq' = stop_task rq1"
              using "2.IH"(5) [OF n g \<open>cfs_rq_key (T t) = Some key\<close> r [symmetric, unfolded Some] refl nf, folded T1_def rq1_def, OF ok1 len1 ex] .
            have "same_task (T u) (T' u)" for u
            proof (cases "u = t")
              case True
              obtain w i k h where "T' u = (T1 u)\<lparr>vruntime_ns := w, cfs_initialized := i, cfs_rq_key := k, rt_enqueue_head := h\<rparr>"
                using IH unfolding same_task_def by blast
              then show ?thesis unfolding same_task_def using True
                by (intro exI [of _ w] exI [of _ i] exI [of _ k] exI [of _ h]) (simp add: T1_def)
            next
              case False
              moreover have "same_task (T1 u) (T' u)" using IH by blast
              ultimately show ?thesis by (simp add: T1_def)
            qed
            moreover have "max (n + 1) RT_SLEEP_CFS_BOOST_MAX_TASKS \<le> max n RT_SLEEP_CFS_BOOST_MAX_TASKS" using n by simp
            moreover have "T' u = T u" if "u \<notin> set (runnable_ptrs rq)" for u
            proof -
              have "t \<in> set (runnable_ptrs rq)" using cfs_delete(3) [OF c0 r'] by (force simp: runnable_ptrs_def)
              then show ?thesis using that IH mset_eq_setD [OF m] by (auto simp: T1_def)
            qed
            ultimately show ?thesis using IH m by (auto simp: rq1_def)
          qed
        qed
      qed
    qed
  qed
qed

lemma boost_ok:
  assumes "rq_ok rq T" and "length (cfs_tasks rq) < 2 ^ 40" and "boost_process_cfs_tasks ts rq T = (n, rq', T')"
  shows "rq_ok rq' T'" and "mset (runnable_ptrs rq') = mset (runnable_ptrs rq)" and "min_vruntime_ns rq \<le> min_vruntime_ns rq'"
    and "\<And>u. same_task (T u) (T' u)" and "n \<le> RT_SLEEP_CFS_BOOST_MAX_TASKS"
    and "\<And>u. u \<notin> set (runnable_ptrs rq) \<Longrightarrow> T' u = T u"
proof -
  have "rq_ok rq' T' \<and> mset (runnable_ptrs rq') = mset (runnable_ptrs rq) \<and> min_vruntime_ns rq \<le> min_vruntime_ns rq'
    \<and> (\<forall>u. same_task (T u) (T' u)) \<and> n \<le> RT_SLEEP_CFS_BOOST_MAX_TASKS \<and> (\<forall>u. u \<notin> set (runnable_ptrs rq) \<longrightarrow> T' u = T u)"
  proof (cases "cfs_nr_running rq < RT_SLEEP_CFS_BOOST_MIN_RUNNING")
    case True
    then show ?thesis using assms by (auto simp: boost_process_cfs_tasks_def)
  next
    case False
    define v where "v = sat_sub (min_vruntime_ns rq) CFS_WAKEUP_GRANULARITY_NS"
    obtain n1 rq1 T1 where b: "boost_loop v ts 0 rq T = (n1, rq1, T1)" by (metis prod_cases3)
    note l = boost_loop_ok [OF assms(1,2) b]
    have e: "n = n1" "T' = T1" "rq' = (if n1 \<noteq> 0 then refresh_min_vruntime None rq1 else rq1)"
      using assms(3) False b by (auto simp: boost_process_cfs_tasks_def v_def [symmetric] split: if_splits)
    have "rq_ok (refresh_min_vruntime None rq1) T1"
      using l rt_ok_cong [of "refresh_min_vruntime None rq1" rq1 T1 T1] cfs_ok_cong [of "refresh_min_vruntime None rq1" rq1 T1 T1]
      by (simp add: rq_ok_def)
    moreover have "min_vruntime_ns rq1 \<le> min_vruntime_ns (refresh_min_vruntime None rq1)" by simp
    ultimately show ?thesis using l unfolding e by (auto simp: runnable_ptrs_def)
  qed
  then show "rq_ok rq' T'" and "mset (runnable_ptrs rq') = mset (runnable_ptrs rq)" and "min_vruntime_ns rq \<le> min_vruntime_ns rq'"
    and "\<And>u. same_task (T u) (T' u)" and "n \<le> RT_SLEEP_CFS_BOOST_MAX_TASKS"
    and "\<And>u. u \<notin> set (runnable_ptrs rq) \<Longrightarrow> T' u = T u" by blast+
qed

section \<open>Reachable queues\<close>

text \<open>
  Every state of a run queue that its operations can produce: tasks with valid attributes are added when
  they are not queued, taken by the scheduler, removed, and boosted; meanwhile the other fields of
  control blocks may change in any way, and so may those of tasks that are not queued.
\<close>

inductive rq_reach :: "run_queue \<Rightarrow> tcbs \<Rightarrow> bool" where
  reach_new: "rq_reach run_queue_new T"
| reach_enqueue: "rq_reach rq T \<Longrightarrow> valid_attr (T t) \<Longrightarrow> t \<notin> set (runnable_ptrs rq) \<Longrightarrow> length (cfs_tasks rq) < 2 ^ 40
    \<Longrightarrow> enqueue_locked t hint rq T = Some (i, rq', T') \<Longrightarrow> rq_reach rq' T'"
| reach_dequeue: "rq_reach rq T \<Longrightarrow> dequeue_locked rq T = Some (r, rq', T') \<Longrightarrow> rq_reach rq' T'"
| reach_remove: "rq_reach rq T \<Longrightarrow> valid_attr (T t) \<Longrightarrow> cfs_rq_key (T t) = None \<or> t \<in> set (runnable_ptrs rq)
    \<Longrightarrow> rq_remove_task t rq T = Some (b, rq', T') \<Longrightarrow> rq_reach rq' T'"
| reach_boost: "rq_reach rq T \<Longrightarrow> length (cfs_tasks rq) < 2 ^ 40 \<Longrightarrow> boost_process_cfs_tasks ts rq T = (n, rq', T') \<Longrightarrow> rq_reach rq' T'"
| reach_other: "rq_reach rq T \<Longrightarrow> (\<forall>t\<in>set (runnable_ptrs rq). policy (T' t) = policy (T t) \<and> rt_priority (T' t) = rt_priority (T t)
      \<and> weight (T' t) = weight (T t) \<and> vruntime_ns (T' t) = vruntime_ns (T t) \<and> cfs_rq_key (T' t) = cfs_rq_key (T t))
    \<Longrightarrow> rq_reach rq T'"

lemma rq_new_ok: "rq_ok run_queue_new T"
proof -
  have "highest_prio (replicate RT_QUEUE_LEVELS []) = None" by (simp add: highest_prio_None)
  then show ?thesis
    by (simp add: rq_ok_def rt_ok_def cfs_ok_def run_queue_new_def om_ok_def)
qed

lemma rq_reach_ok: "rq_reach rq T \<Longrightarrow> rq_ok rq T"
proof (induction rule: rq_reach.induct)
  case (reach_new T)
  show ?case by (rule rq_new_ok)
next
  case (reach_enqueue rq T t hint i rq' T')
  then show ?case using enqueue_ok [of rq T t hint] by (auto simp: kept_def)
next
  case (reach_dequeue rq T r rq' T')
  then show ?case using dequeue_ok [of rq T] by (auto simp: kept_def split: option.splits)
next
  case (reach_remove rq T t b rq' T')
  then show ?case using rq_remove_ok [of rq T t] by (auto simp: kept_def split: if_splits)
next
  case (reach_boost rq T ts n rq' T')
  then show ?case using boost_ok(1) by blast
next
  case (reach_other rq T T')
  then show ?case using rq_ok_cong [of rq T' T] by blast
qed

section \<open>Properties\<close>

text \<open>A queue with one round-robin task of priority 5 at address 64.\<close>

definition example_tasks :: tcbs where
  "example_tasks = (\<lambda>_. tcb_new (attr_rr 5))"

lemma example_reach: "\<exists>rq T. rq_reach rq T \<and> runnable_ptrs rq = [64]"
proof -
  have v: "valid_attr (example_tasks 64)"
    by (simp add: example_tasks_def tcb_new_def attr_rr_def valid_attr_def SCHED_RT_PRIO_MIN_def SCHED_RT_PRIO_MAX_def)
  have n: "runnable_ptrs run_queue_new = []" "length (cfs_tasks run_queue_new) < 2 ^ 40"
    by (simp_all add: runnable_ptrs_def run_queue_new_def)
  obtain i rq T where e: "enqueue_locked 64 None run_queue_new example_tasks = Some (i, rq, T)"
    "mset (runnable_ptrs rq) = add_mset 64 (mset (runnable_ptrs run_queue_new))"
    using enqueue_ok [of run_queue_new example_tasks 64 None] rq_new_ok v n by auto
  then have "runnable_ptrs rq = [64]" using n(1) by simp
  moreover have "rq_reach rq T" using reach_enqueue [of run_queue_new example_tasks 64 None i rq T] reach_new v n e(1) by simp
  ultimately show ?thesis by blast
qed

text \<open>
  C31. In every state the run queue can reach, its summary fields are true: the two counters are the
  numbers of queued real-time and fair tasks, the load is the sum of the weights of the fair tasks, the
  cached priority is the highest level that is not empty, no task is queued twice, and every fair task
  is stored under the key its control block records. No operation on it panics: adding a task with valid
  attributes, taking the next task and removing a task all return.
\<close>

theorem run_queue_well_formed:
  assumes "rq_reach rq T"
  shows "rt_nr_running rq = length (concat (rt_queues rq)) \<and> cfs_nr_running rq = length (cfs_tasks rq)
    \<and> cfs_load rq = sum_list (map (\<lambda>t. weight (T t)) (map snd (cfs_tasks rq)))
    \<and> highest_rt_prio rq = highest_prio (rt_queues rq) \<and> distinct (runnable_ptrs rq)
    \<and> (\<forall>e\<in>set (cfs_tasks rq). fst e = (vruntime_ns (T (snd e)), snd e) \<and> cfs_rq_key (T (snd e)) = Some (fst e))
    \<and> (\<forall>t hint. valid_attr (T t) \<and> t \<notin> set (runnable_ptrs rq) \<and> length (cfs_tasks rq) < 2 ^ 40 \<longrightarrow> enqueue_locked t hint rq T \<noteq> None)
    \<and> dequeue_locked rq T \<noteq> None \<and> (\<forall>t. valid_attr (T t) \<and> t \<in> set (runnable_ptrs rq) \<longrightarrow> rq_remove_task t rq T \<noteq> None)"
proof (intro conjI allI impI)
  have ok: "rq_ok rq T" using rq_reach_ok [OF assms] .
  show "distinct (runnable_ptrs rq)" by (rule rq_ok_distinct [OF ok])
  show "enqueue_locked t hint rq T \<noteq> None"
    if "valid_attr (T t) \<and> t \<notin> set (runnable_ptrs rq) \<and> length (cfs_tasks rq) < 2 ^ 40" for t hint
    using enqueue_ok [OF ok, of t hint] that by auto
  show "dequeue_locked rq T \<noteq> None" using dequeue_ok [OF ok] by auto
  show "rq_remove_task t rq T \<noteq> None" if "valid_attr (T t) \<and> t \<in> set (runnable_ptrs rq)" for t
    using rq_remove_ok [OF ok, of t] that by auto
qed (use rq_reach_ok [OF assms] in \<open>auto simp: rq_ok_def rt_ok_def cfs_ok_def entry_ok_def\<close>)

theorem run_queue_well_formed_witness:
  "\<exists>rq T. rq_reach rq T \<and> runnable_ptrs rq = [64] \<and> dequeue_locked rq T \<noteq> None
    \<and> rt_nr_running rq = length (concat (rt_queues rq)) \<and> cfs_nr_running rq = length (cfs_tasks rq)"
  using example_reach run_queue_well_formed by blast

text \<open>
  C32. The scheduler takes the right task. From any reachable queue the next task is taken exactly when one is
  queued; it is the one at the front of the highest real-time priority in use, or, when no real-time task is queued,
  the fair task with the least virtual runtime. Exactly this task leaves the queue, and the minimum virtual runtime never
  decreases.
\<close>

theorem dequeue_takes_next:
  assumes "rq_reach rq T"
  shows "\<exists>r rq' T'. dequeue_locked rq T = Some (r, rq', T') \<and> (r = None \<longleftrightarrow> runnable_ptrs rq = [])
    \<and> (\<forall>t. r = Some t \<longrightarrow> next_task rq T t \<and> mset (runnable_ptrs rq) = add_mset t (mset (runnable_ptrs rq'))
         \<and> min_vruntime_ns rq \<le> min_vruntime_ns rq')"
proof -
  obtain r rq' T' where d: "dequeue_locked rq T = Some (r, rq', T')"
    "case r of None \<Rightarrow> runnable_ptrs rq = [] \<and> rq' = rq \<and> T' = T
     | Some t \<Rightarrow> kept t rq T rq' T' \<and> next_task rq T t \<and> mset (runnable_ptrs rq) = add_mset t (mset (runnable_ptrs rq'))"
    using dequeue_ok [OF rq_reach_ok [OF assms]] by blast
  then show ?thesis by (cases r) (auto simp: kept_def)
qed

theorem dequeue_takes_next_witness:
  "\<exists>rq T rq' T'. rq_reach rq T \<and> dequeue_locked rq T = Some (Some 64, rq', T') \<and> next_task rq T 64"
proof -
  obtain rq T where q: "rq_reach rq T" "runnable_ptrs rq = [64]" using example_reach by blast
  obtain r rq' T' where d: "dequeue_locked rq T = Some (r, rq', T')" "r = None \<longleftrightarrow> runnable_ptrs rq = []"
    "\<forall>t. r = Some t \<longrightarrow> next_task rq T t \<and> mset (runnable_ptrs rq) = add_mset t (mset (runnable_ptrs rq'))"
    using dequeue_takes_next [OF q(1)] by blast
  obtain t where t: "r = Some t" using d(2) q(2) by auto
  have "mset [64] = add_mset t (mset (runnable_ptrs rq'))" using d(3) t q(2) by auto
  then have "t = 64" using union_single_eq_member by fastforce
  then show ?thesis using q(1) d(1,3) t by blast
qed

end
