(* ===== verification/Scheduler.thy ===== *)
theory Scheduler
  imports Run_Queue_Props
begin

unbundle bit_operations_syntax

text \<open>
  Scheduling on several harts (\<open>os/src/sched/runqueue.rs\<close>, \<open>processor.rs\<close>, \<open>api.rs\<close>,
  \<open>os/src/task/wait_queue.rs\<close>). Every section that the code runs under a lock is one event; between two
  sections any other hart may act. What a hart holds between two of its own sections is its state, and what a
  wakeup or an enqueue in progress holds is an activity on the stack of the hart that runs it: an
  interrupt pushes an activity, only the topmost one acts, and the hart itself goes on when none is left.
  The windows that the code runs with interrupts off are the hart states in which no activity starts.
\<close>

section \<open>State\<close>

datatype hart_state =
    HIdle                              \<comment> \<open>in the idle loop\<close>
  | HPopped nat                        \<comment> \<open>\<open>dequeue_task\<close> has popped the task\<close>
  | HStolen nat                        \<comment> \<open>\<open>steal_cfs_task\<close> has removed the task from another queue\<close>
  | HClaimed nat                       \<comment> \<open>\<open>pick_next_task\<close> has returned the task\<close>
  | HRun nat                           \<comment> \<open>the task is \<open>processor.current\<close>\<close>
  | HBlocking nat                      \<comment> \<open>\<open>block_current_and_run_next\<close> has taken \<open>current\<close>\<close>
  | HRestoring nat                     \<comment> \<open>the block was cancelled\<close>
  | HParking nat bool                  \<comment> \<open>the block goes ahead; whether to boost the process\<close>
  | HSuspending nat bool bool "bool option"
  | HSwitch nat                        \<comment> \<open>the task is \<open>pending_task_release\<close>\<close>
  | HReleasing nat                     \<comment> \<open>\<open>finish_pending_task_release\<close> has taken it\<close>
  | HRequeue nat                       \<comment> \<open>it is to be added again\<close>
  | HEnqueue nat nat                   \<comment> \<open>\ldots{} to the queue of this hart\<close>
  | HExiting nat                       \<comment> \<open>\<open>exit_current_and_run_next\<close> has taken \<open>current\<close>\<close>
  | HStopping nat                      \<comment> \<open>it is about to be kept as \<open>stop_task\<close>\<close>

datatype activity =
    AAdd nat nat                       \<comment> \<open>\<open>enqueue_task_on(task, hart)\<close>\<close>
  | AEnqueue nat nat                   \<comment> \<open>\ldots{} with its target hart selected\<close>
  | AWake nat                          \<comment> \<open>\<open>wakeup_task(task)\<close>\<close>
  | AResolve nat nat                   \<comment> \<open>\<open>resolve_on_cpu_wake(task, last_cpu)\<close>\<close>
  | ASpin nat nat nat sched_policy     \<comment> \<open>waiting for \<open>on_cpu\<close> to fall\<close>
  | ARepair nat nat nat sched_policy   \<comment> \<open>the task was seen runnable without an owner\<close>
  | AWakeEnqueue nat nat               \<comment> \<open>\<open>enqueue_wakeup_task(task, target)\<close>\<close>
  | APrio nat int nat                  \<comment> \<open>\<open>sys_setpriority\<close> on one task\<close>
  | APrioRemove nat int nat nat        \<comment> \<open>\ldots{} which was queued, last on this hart\<close>
  | APrioUnlink nat int nat nat
  | APrioSet nat int nat "nat option"
  | AKill nat                          \<comment> \<open>the end of the process, on one of its other threads\<close>
  | AKillRemove nat
  | AKillUnlink nat
  | AKillClear nat

record sched_state =
  tasks :: tcbs
  rqs :: "nat \<Rightarrow> run_queue"
  harts :: "nat \<Rightarrow> hart_state"
  acts :: "nat \<Rightarrow> activity list"
  known :: "nat set"
  online :: nat
  panicked :: bool

definition sched_init :: "nat \<Rightarrow> sched_state" where
  "sched_init onl = \<lparr>tasks = (\<lambda>_. tcb_new (attr_rr 1)), rqs = (\<lambda>_. run_queue_new), harts = (\<lambda>_. HIdle),
     acts = (\<lambda>_. []), known = {}, online = onl, panicked = False\<rparr>"

fun current :: "hart_state \<Rightarrow> nat option" where
  "current (HRun t) = Some t"
| "current _ = None"

definition set_task :: "nat \<Rightarrow> (tcb \<Rightarrow> tcb) \<Rightarrow> sched_state \<Rightarrow> sched_state" where
  "set_task t f s = s\<lparr>tasks := (tasks s)(t := f (tasks s t))\<rparr>"

definition set_hart :: "nat \<Rightarrow> hart_state \<Rightarrow> sched_state \<Rightarrow> sched_state" where
  "set_hart h x s = s\<lparr>harts := (harts s)(h := x)\<rparr>"

definition set_acts :: "nat \<Rightarrow> activity list \<Rightarrow> sched_state \<Rightarrow> sched_state" where
  "set_acts h as s = s\<lparr>acts := (acts s)(h := as)\<rparr>"

definition set_queue :: "nat \<Rightarrow> run_queue \<Rightarrow> tcbs \<Rightarrow> sched_state \<Rightarrow> sched_state" where
  "set_queue h rq T s = s\<lparr>rqs := (rqs s)(h := rq), tasks := T\<rparr>"

section \<open>Choosing a hart\<close>

definition normalize_hart :: "nat \<Rightarrow> nat" where
  "normalize_hart h = min h (MAX_HARTS - 1)"

definition first_bit :: "nat \<Rightarrow> nat" where
  "first_bit m = length (takeWhile (\<lambda>i. \<not> bit m i) [0..<64])"

definition effective_affinity_mask :: "nat \<Rightarrow> nat \<Rightarrow> nat \<Rightarrow> nat" where
  "effective_affinity_mask this onl msk =
     (let onl = (if onl \<noteq> 0 then onl else 2 ^ normalize_hart this);
          eff = (if msk = 0 then onl else msk AND onl)
      in if eff = 0 then onl else eff)"

fun select_loop :: "(nat \<Rightarrow> run_queue) \<Rightarrow> nat \<Rightarrow> nat \<Rightarrow> nat list \<Rightarrow> nat \<Rightarrow> nat \<times> nat \<Rightarrow> nat" where
  "select_loop Q msk preferred [] best score = best"
| "select_loop Q msk preferred (h # hs) best score =
     (if \<not> bit msk h then select_loop Q msk preferred hs best score
      else let sc = cfs_load_score (Q h) in
        if sc < score \<or> sc = score \<and> h = preferred
        then select_loop Q msk preferred hs h sc
        else select_loop Q msk preferred hs best score)"

definition select_target_hart :: "nat \<Rightarrow> nat \<Rightarrow> nat \<Rightarrow> sched_policy \<Rightarrow> sched_state \<Rightarrow> nat" where
  "select_target_hart this preferred msk pol s =
     (let msk = effective_affinity_mask this (online s) msk;
          preferred = normalize_hart preferred
      in if is_rt pol then (if bit msk preferred then preferred else first_bit msk)
         else if bit msk preferred \<and> total_nr_running (rqs s preferred) = 0 then preferred
         else let best = first_bit msk
              in select_loop (rqs s) msk preferred [0..<MAX_HARTS] best (cfs_load_score (rqs s best)))"

section \<open>Sections under the task lock\<close>

definition not_addable :: "tcb \<Rightarrow> bool" where
  "not_addable t \<longleftrightarrow> on_rq t \<or> on_cpu t \<or> task_status t = Zombie"

definition mark_task_woken :: "tcb \<Rightarrow> tcb" where
  "mark_task_woken t =
     (let t = t\<lparr>task_status := Runnable, has_wait_reason := False, current_wq_handle := None\<rparr>
      in if policy t = Rr then reset_time_slice t else t)"

definition claim_task :: "nat \<Rightarrow> tcb \<Rightarrow> tcb" where
  "claim_task h t =
     (let t = t\<lparr>on_rq := False\<rparr>
      in if task_status t = Runnable then t\<lparr>on_cpu := True, last_cpu := h\<rparr> else t)"

definition run_task :: "nat \<Rightarrow> nat \<Rightarrow> tcb \<Rightarrow> tcb" where
  "run_task h now t =
     (let t = t\<lparr>task_status := Running, has_wait_reason := False, last_cpu := h, on_cpu := True, on_rq := False, resched := None\<rparr>
      in if policy t = Other then t\<lparr>exec_start_ns := now, cfs_slice_start_ns := now\<rparr> else t)"

definition prepare_to_wait :: "nat \<Rightarrow> tcb \<Rightarrow> tcb" where
  "prepare_to_wait wq t = t\<lparr>task_status := Interruptible, has_wait_reason := True, current_wq_handle := Some wq\<rparr>"

definition cancel_prepared_wait :: "tcb \<Rightarrow> tcb" where
  "cancel_prepared_wait t =
     (if task_status t = Interruptible
      then t\<lparr>task_status := Running, has_wait_reason := False, current_wq_handle := None, on_cpu := True, on_rq := False\<rparr>
      else t)"

text \<open>The commit of \<open>block_current_and_run_next\<close>: whether it blocks, and whether it boosts the process.\<close>

definition block_commit :: "nat \<Rightarrow> bool \<Rightarrow> tcb \<Rightarrow> (bool \<times> bool) \<times> tcb" where
  "block_commit now nanosleep t =
     (let t = account_cfs_runtime now t
      in if task_status t = Runnable
         then ((False, False), t\<lparr>task_status := Running, has_wait_reason := False, on_cpu := True, on_rq := False, resched := None\<rparr>)
         else ((True, is_rt (policy t) \<and> nanosleep),
               t\<lparr>on_rq := False, task_status := Interruptible, has_wait_reason := True, resched := None\<rparr>))"

definition suspend_commit :: "nat \<Rightarrow> bool \<Rightarrow> bool \<Rightarrow> bool option \<Rightarrow> tcb \<Rightarrow> tcb" where
  "suspend_commit now penalty reset_slice head t =
     (let t = account_cfs_runtime now t;
          t = (if task_status t = Zombie then t\<lparr>on_rq := False, has_wait_reason := False\<rparr>
               else let t = t\<lparr>on_rq := False, task_status := Runnable, has_wait_reason := False\<rparr>;
                        t = (if reset_slice then reset_time_slice t else t);
                        t = (if is_rt (policy t) then (case head of Some b \<Rightarrow> t\<lparr>rt_enqueue_head := b\<rparr> | None \<Rightarrow> t) else t)
                    in if penalty \<and> policy t = Other then t\<lparr>vruntime_ns := sat_add (vruntime_ns t) CFS_YIELD_PENALTY_NS\<rparr> else t)
      in t\<lparr>resched := None\<rparr>)"

definition release_task :: "tcb \<Rightarrow> tcb" where
  "release_task t = t\<lparr>on_cpu := False, on_rq := False\<rparr>"

definition exit_task :: "tcb \<Rightarrow> tcb" where
  "exit_task t = t\<lparr>task_status := Zombie, on_cpu := False, on_rq := False, resched := None\<rparr>"

definition unlink_task :: "tcb \<Rightarrow> tcb" where
  "unlink_task t = t\<lparr>on_rq := False, cfs_rq_key := None\<rparr>"

definition kill_task :: "tcb \<Rightarrow> tcb" where
  "kill_task t = t\<lparr>task_status := Zombie, has_wait_reason := False, on_rq := False, resched := Some HigherRtPriority, current_wq_handle := None\<rparr>"

section \<open>Sections under a queue lock\<close>

text \<open>The locked part of \<open>enqueue_task_on\<close> and of \<open>enqueue_wakeup_task\<close>, with the virtual runtime of the running task as a hint.\<close>

definition enqueue_commit :: "nat \<Rightarrow> nat \<Rightarrow> nat option \<Rightarrow> sched_state \<Rightarrow> sched_state" where
  "enqueue_commit t target hint s =
     (if not_addable (tasks s t) then s
      else let T = (tasks s)(t := (tasks s t)\<lparr>task_status := Runnable, has_wait_reason := False, last_cpu := target, on_rq := True\<rparr>)
           in case enqueue_locked t hint (rqs s target) T of
                None \<Rightarrow> s\<lparr>panicked := True\<rparr>
              | Some (_, rq, T') \<Rightarrow> set_queue target rq T' s)"

definition wake_commit :: "nat \<Rightarrow> nat \<Rightarrow> nat option \<Rightarrow> sched_state \<Rightarrow> sched_state" where
  "wake_commit t target hint s =
     (let tk = tasks s t in
      if task_status tk \<in> {Running, Zombie} then s
      else if task_status tk = Runnable \<and> (on_rq tk \<or> on_cpu tk) then s
      else if on_rq tk \<or> on_cpu tk
      then set_task t (\<lambda>tk. tk\<lparr>task_status := Runnable, has_wait_reason := False, current_wq_handle := None\<rparr>) s
      else let T = (tasks s)(t := (mark_task_woken tk)\<lparr>last_cpu := target, on_rq := True\<rparr>)
           in case enqueue_locked t hint (rqs s target) T of
                None \<Rightarrow> s\<lparr>panicked := True\<rparr>
              | Some (_, rq, T') \<Rightarrow> set_queue target rq T' s)"

definition steal_claim_task :: "nat \<Rightarrow> nat \<Rightarrow> tcb \<Rightarrow> tcb" where
  "steal_claim_task h target_min t =
     (let t = t\<lparr>on_rq := False\<rparr>
      in if task_status t \<noteq> Runnable then t
         else t\<lparr>on_cpu := True, last_cpu := h, vruntime_ns := max (vruntime_ns t) target_min\<rparr>)"

definition steal_key :: "nat \<Rightarrow> run_queue \<Rightarrow> tcbs \<Rightarrow> cfs_key option" where
  "steal_key h rq T =
     map_option fst (find (\<lambda>(_, t). bit (cpu_affinity_mask (T t)) (normalize_hart h)) (cfs_tasks rq))"

text \<open>The scan of \<open>remove_task\<close> over the queues, up to the first that had the task.\<close>

fun scan_queues :: "nat \<Rightarrow> nat list \<Rightarrow> sched_state \<Rightarrow> sched_state" where
  "scan_queues t [] s = s"
| "scan_queues t (h # hs) s =
     (case rq_remove_task t (rqs s h) (tasks s) of
        None \<Rightarrow> s\<lparr>panicked := True\<rparr>
      | Some (removed, rq, T) \<Rightarrow> if removed then set_queue h rq T s else scan_queues t hs (set_queue h rq T s))"


section \<open>Sections of a hart\<close>

definition dequeue_pop :: "nat \<Rightarrow> sched_state \<Rightarrow> sched_state option" where
  "dequeue_pop h s =
     (case harts s h of
        HIdle \<Rightarrow>
          Some (case dequeue_locked (rqs s h) (tasks s) of
                  None \<Rightarrow> s\<lparr>panicked := True\<rparr>
                | Some (None, rq, T) \<Rightarrow> set_queue h rq T s
                | Some (Some t, rq, T) \<Rightarrow> set_hart h (HPopped t) (set_queue h rq T s))
      | _ \<Rightarrow> None)"

definition dequeue_claim :: "nat \<Rightarrow> sched_state \<Rightarrow> sched_state option" where
  "dequeue_claim h s =
     (case harts s h of
        HPopped t \<Rightarrow> Some (set_hart h (if task_status (tasks s t) = Runnable then HClaimed t else HIdle) (set_task t (claim_task h) s))
      | _ \<Rightarrow> None)"

definition steal_remove :: "nat \<Rightarrow> nat \<Rightarrow> sched_state \<Rightarrow> sched_state option" where
  "steal_remove h src s =
     (if harts s h = HIdle \<and> src < MAX_HARTS \<and> src \<noteq> h
      then Some (case steal_key h (rqs s src) (tasks s) of
                   None \<Rightarrow> s
                 | Some key \<Rightarrow>
                     (case remove_cfs_by_key key (rqs s src) (tasks s) of
                        (None, rq, T) \<Rightarrow> set_queue src rq T s
                      | (Some t, rq, T) \<Rightarrow> set_hart h (HStolen t) (set_queue src rq T s)))
      else None)"

definition steal_claim :: "nat \<Rightarrow> sched_state \<Rightarrow> sched_state option" where
  "steal_claim h s =
     (case harts s h of
        HStolen t \<Rightarrow> Some (set_hart h (if task_status (tasks s t) = Runnable then HClaimed t else HIdle)
                       (set_task t (steal_claim_task h (min_vruntime_ns (rqs s (normalize_hart h)))) s))
      | _ \<Rightarrow> None)"

definition run_claimed :: "nat \<Rightarrow> nat \<Rightarrow> sched_state \<Rightarrow> sched_state option" where
  "run_claimed h now s =
     (case harts s h of HClaimed t \<Rightarrow> Some (set_hart h (HRun t) (set_task t (run_task h now) s)) | _ \<Rightarrow> None)"

definition prepare_current :: "nat \<Rightarrow> nat \<Rightarrow> sched_state \<Rightarrow> sched_state option" where
  "prepare_current h wq s = (case harts s h of HRun t \<Rightarrow> Some (set_task t (prepare_to_wait wq) s) | _ \<Rightarrow> None)"

definition cancel_current :: "nat \<Rightarrow> sched_state \<Rightarrow> sched_state option" where
  "cancel_current h s = (case harts s h of HRun t \<Rightarrow> Some (set_task t cancel_prepared_wait s) | _ \<Rightarrow> None)"

definition block_take :: "nat \<Rightarrow> sched_state \<Rightarrow> sched_state option" where
  "block_take h s = (case harts s h of HRun t \<Rightarrow> Some (set_hart h (HBlocking t) s) | _ \<Rightarrow> None)"

definition block_current :: "nat \<Rightarrow> nat \<Rightarrow> bool \<Rightarrow> sched_state \<Rightarrow> sched_state option" where
  "block_current h now nanosleep s =
     (case harts s h of
        HBlocking t \<Rightarrow>
          (case block_commit now nanosleep (tasks s t) of
             ((blocks, boost), tk) \<Rightarrow>
               Some (set_hart h (if blocks then HParking t boost else HRestoring t) (set_task t (\<lambda>_. tk) s)))
      | _ \<Rightarrow> None)"

definition restore_current :: "nat \<Rightarrow> sched_state \<Rightarrow> sched_state option" where
  "restore_current h s = (case harts s h of HRestoring t \<Rightarrow> Some (set_hart h (HRun t) s) | _ \<Rightarrow> None)"

definition boost_current :: "nat \<Rightarrow> nat list \<Rightarrow> sched_state \<Rightarrow> sched_state option" where
  "boost_current h ts s =
     (case harts s h of
        HParking t True \<Rightarrow>
          (case boost_process_cfs_tasks ts (rqs s h) (tasks s) of
             (_, rq, T) \<Rightarrow> Some (set_hart h (HParking t False) (set_queue h rq T s)))
      | _ \<Rightarrow> None)"

definition park_current :: "nat \<Rightarrow> sched_state \<Rightarrow> sched_state option" where
  "park_current h s = (case harts s h of HParking t False \<Rightarrow> Some (set_hart h (HSwitch t) s) | _ \<Rightarrow> None)"

text \<open>The deferred reason decides how \<open>schedule_if_needed\<close> suspends: yield penalty, slice reset, and side of the queue.\<close>

definition suspend_args :: "resched_reason \<Rightarrow> bool \<times> bool \<times> bool option" where
  "suspend_args r = (case r of
       HigherRtPriority \<Rightarrow> (False, False, Some True)
     | RrTimesliceExpired \<Rightarrow> (False, True, Some False)
     | Yield \<Rightarrow> (True, False, Some False)
     | _ \<Rightarrow> (False, False, None))"

definition suspend_take :: "nat \<Rightarrow> bool \<times> bool \<times> bool option \<Rightarrow> sched_state \<Rightarrow> sched_state option" where
  "suspend_take h args s =
     (case harts s h of
        HRun t \<Rightarrow> (case args of (penalty, reset_slice, head) \<Rightarrow> Some (set_hart h (HSuspending t penalty reset_slice head) s))
      | _ \<Rightarrow> None)"

definition schedule_if_needed :: "nat \<Rightarrow> sched_state \<Rightarrow> sched_state option" where
  "schedule_if_needed h s =
     (case harts s h of
        HRun t \<Rightarrow> (case resched (tasks s t) of None \<Rightarrow> Some s | Some r \<Rightarrow> suspend_take h (suspend_args r) s)
      | _ \<Rightarrow> None)"

definition suspend_current :: "nat \<Rightarrow> nat \<Rightarrow> sched_state \<Rightarrow> sched_state option" where
  "suspend_current h now s =
     (case harts s h of
        HSuspending t penalty reset_slice head \<Rightarrow>
          Some (set_hart h (HSwitch t) (set_task t (suspend_commit now penalty reset_slice head) s))
      | _ \<Rightarrow> None)"

definition release_take :: "nat \<Rightarrow> sched_state \<Rightarrow> sched_state option" where
  "release_take h s = (case harts s h of HSwitch t \<Rightarrow> Some (set_hart h (HReleasing t) s) | _ \<Rightarrow> None)"

definition release_pending :: "nat \<Rightarrow> sched_state \<Rightarrow> sched_state option" where
  "release_pending h s =
     (case harts s h of
        HReleasing t \<Rightarrow> Some (set_hart h (if task_status (tasks s t) = Runnable then HRequeue t else HIdle) (set_task t release_task s))
      | _ \<Rightarrow> None)"

definition requeue_check :: "nat \<Rightarrow> sched_state \<Rightarrow> sched_state option" where
  "requeue_check h s =
     (case harts s h of
        HRequeue t \<Rightarrow>
          Some (set_hart h (if not_addable (tasks s t) then HIdle
                            else HEnqueue t (select_target_hart h h (cpu_affinity_mask (tasks s t)) (policy (tasks s t)) s)) s)
      | _ \<Rightarrow> None)"

definition requeue :: "nat \<Rightarrow> nat option \<Rightarrow> sched_state \<Rightarrow> sched_state option" where
  "requeue h hint s =
     (case harts s h of HEnqueue t target \<Rightarrow> Some (set_hart h HIdle (enqueue_commit t target hint s)) | _ \<Rightarrow> None)"

text \<open>A task that has prepared to wait blocks or cancels; it does not exit in between.\<close>

definition exit_take :: "nat \<Rightarrow> sched_state \<Rightarrow> sched_state option" where
  "exit_take h s =
     (case harts s h of
        HRun t \<Rightarrow> if asleep (task_status (tasks s t)) then None else Some (set_hart h (HExiting t) s)
      | _ \<Rightarrow> None)"

definition exit_current :: "nat \<Rightarrow> sched_state \<Rightarrow> sched_state option" where
  "exit_current h s =
     (case harts s h of HExiting t \<Rightarrow> Some (set_hart h (HStopping t) (set_task t exit_task s)) | _ \<Rightarrow> None)"

definition add_stopping_task :: "nat \<Rightarrow> sched_state \<Rightarrow> sched_state option" where
  "add_stopping_task h s =
     (case harts s h of
        HStopping t \<Rightarrow> Some (set_hart h HIdle (set_queue h ((rqs s h)\<lparr>stop_task := Some t\<rparr>) (tasks s) s))
      | _ \<Rightarrow> None)"

definition clear_stopping_task :: "nat \<Rightarrow> sched_state \<Rightarrow> sched_state option" where
  "clear_stopping_task h s =
     (case harts s h of HIdle \<Rightarrow> Some (set_queue h ((rqs s h)\<lparr>stop_task := None\<rparr>) (tasks s) s) | _ \<Rightarrow> None)"

section \<open>Sections on the task that runs\<close>

definition request_resched :: "nat \<Rightarrow> resched_reason \<Rightarrow> sched_state \<Rightarrow> sched_state" where
  "request_resched h r s =
     (case current (harts s h) of None \<Rightarrow> s | Some t \<Rightarrow> set_task t (\<lambda>tk. tk\<lparr>resched := Some r\<rparr>) s)"

definition running_cfs_vruntime_snapshot :: "nat \<Rightarrow> nat \<Rightarrow> sched_state \<Rightarrow> nat option \<times> sched_state" where
  "running_cfs_vruntime_snapshot h now s =
     (case current (harts s (normalize_hart h)) of
        None \<Rightarrow> (None, s)
      | Some t \<Rightarrow>
          if \<not> on_cpu (tasks s t) \<or> task_status (tasks s t) \<noteq> Running \<or> policy (tasks s t) \<noteq> Other then (None, s)
          else let s' = set_task t (account_cfs_runtime now) s in (Some (vruntime_ns (tasks s' t)), s'))"

definition maybe_preempt_current :: "nat \<Rightarrow> nat \<Rightarrow> enqueued_info \<Rightarrow> sched_state \<Rightarrow> sched_state" where
  "maybe_preempt_current h now incoming s =
     (case current (harts s h) of
        None \<Rightarrow> s
      | Some t \<Rightarrow>
          if \<not> on_cpu (tasks s t) \<or> task_status (tasks s t) \<noteq> Running then s
          else let s = (if policy (tasks s t) = Other then set_task t (account_cfs_runtime now) s else s)
               in case preempt_reason_for_current (policy (tasks s t)) (rt_priority (tasks s t)) (vruntime_ns (tasks s t)) incoming of
                    None \<Rightarrow> s
                  | Some r \<Rightarrow> request_resched h r s)"

definition tick_task :: "run_queue \<Rightarrow> nat \<Rightarrow> tcb \<Rightarrow> tcb" where
  "tick_task rq now t =
     (if task_status t \<noteq> Running then t
      else case policy t of
        Fifo \<Rightarrow> if has_same_or_higher_rt (min (rt_priority t + 1) 255) rq then t\<lparr>resched := Some HigherRtPriority\<rparr> else t
      | Rr \<Rightarrow>
          let t = (if remaining_slice_ticks t > 0 then t\<lparr>remaining_slice_ticks := remaining_slice_ticks t - 1\<rparr> else t)
          in if remaining_slice_ticks t > 0 then t
             else if has_same_or_higher_rt (rt_priority t) rq then t\<lparr>resched := Some RrTimesliceExpired\<rparr>
             else reset_time_slice t
      | Other \<Rightarrow>
          let t = account_cfs_runtime now t
          in if cfs_should_preempt rq (vruntime_ns t) (weight t) (sat_sub now (cfs_slice_start_ns t))
             then t\<lparr>resched := Some CfsPreempt\<rparr> else t
      | Idle \<Rightarrow> t)"

definition on_timer_tick :: "nat \<Rightarrow> nat \<Rightarrow> sched_state \<Rightarrow> sched_state" where
  "on_timer_tick h now s =
     (case current (harts s h) of None \<Rightarrow> s | Some t \<Rightarrow> set_task t (tick_task (rqs s h) now) s)"

section \<open>Sections of an activity\<close>

definition task_is_current_on_any_hart :: "nat \<Rightarrow> sched_state \<Rightarrow> bool" where
  "task_is_current_on_any_hart t s \<longleftrightarrow> list_ex (\<lambda>h. current (harts s h) = Some t) [0..<MAX_HARTS]"

definition wakeup_task :: "nat \<Rightarrow> nat \<Rightarrow> sched_state \<Rightarrow> activity option \<times> sched_state" where
  "wakeup_task h t s =
     (let tk = tasks s t in
      if asleep (task_status tk)
      then if on_rq tk then (None, set_task t mark_task_woken s)
           else if on_cpu tk then (Some (AResolve t (normalize_hart (last_cpu tk))), s)
           else (Some (AWakeEnqueue t (select_target_hart h (last_cpu tk) (cpu_affinity_mask tk) (policy tk) s)), s)
      else if task_status tk = Runnable
      then if on_rq tk \<or> on_cpu tk then (None, s)
           else (Some (ARepair t (last_cpu tk) (cpu_affinity_mask tk) (policy tk)), s)
      else (None, s))"

text \<open>\<open>resolve_on_cpu_wake\<close>, and the check of \<open>wakeup_task\<close> that the owner is another hart before it waits.\<close>

definition resolve_on_cpu_wake :: "nat \<Rightarrow> nat \<Rightarrow> nat \<Rightarrow> sched_state \<Rightarrow> activity option \<times> sched_state" where
  "resolve_on_cpu_wake h t cpu s =
     (let tk = tasks s t in
      if \<not> asleep (task_status tk) then (None, s)
      else if on_rq tk then (None, set_task t mark_task_woken s)
      else if current (harts s cpu) = Some t
      then (let target = normalize_hart (last_cpu tk); s = set_task t mark_task_woken s
            in (None, if target = h then request_resched h Migration s else s))
      else if on_cpu tk
      then if cpu = normalize_hart h then (None, s\<lparr>panicked := True\<rparr>)
           else (Some (ASpin t cpu (cpu_affinity_mask tk) (policy tk)), s)
      else (Some (AWakeEnqueue t (select_target_hart h (last_cpu tk) (cpu_affinity_mask tk) (policy tk) s)), s))"

fun activity_step :: "nat \<Rightarrow> nat option \<Rightarrow> activity \<Rightarrow> sched_state \<Rightarrow> (activity option \<times> sched_state) option" where
  "activity_step h hint (AAdd t g) s =
     Some (if not_addable (tasks s t) then (None, s)
           else (Some (AEnqueue t (select_target_hart h g (cpu_affinity_mask (tasks s t)) (policy (tasks s t)) s)), s))"
| "activity_step h hint (AEnqueue t target) s = Some (None, enqueue_commit t target hint s)"
| "activity_step h hint (AWake t) s = Some (wakeup_task h t s)"
| "activity_step h hint (AResolve t cpu) s = Some (resolve_on_cpu_wake h t cpu s)"
| "activity_step h hint (ASpin t cpu msk pol) s =
     (if on_cpu (tasks s t) then None else Some (Some (AWakeEnqueue t (select_target_hart h cpu msk pol s)), s))"
| "activity_step h hint (ARepair t cpu msk pol) s =
     Some (if task_is_current_on_any_hart t s then (None, s)
           else (Some (AWakeEnqueue t (select_target_hart h cpu msk pol s)), s))"
| "activity_step h hint (AWakeEnqueue t target) s = Some (None, wake_commit t target hint s)"
| "activity_step h hint (APrio t n w) s =
     Some (if on_rq (tasks s t) then (Some (APrioRemove t n w (last_cpu (tasks s t))), s) else (Some (APrioSet t n w None), s))"
| "activity_step h hint (APrioRemove t n w g) s = Some (Some (APrioUnlink t n w g), scan_queues t [0..<MAX_HARTS] s)"
| "activity_step h hint (APrioUnlink t n w g) s = Some (Some (APrioSet t n w (Some g)), set_task t unlink_task s)"
| "activity_step h hint (APrioSet t n w r) s =
     Some (map_option (AAdd t) r, set_task t (\<lambda>tk. tk\<lparr>nice := n, weight := w\<rparr>) s)"
| "activity_step h hint (AKill t) s =
     Some (if on_cpu (tasks s t) then None else Some (AKillRemove t), set_task t kill_task s)"
| "activity_step h hint (AKillRemove t) s = Some (Some (AKillUnlink t), scan_queues t [0..<MAX_HARTS] s)"
| "activity_step h hint (AKillUnlink t) s = Some (Some (AKillClear t), set_task t unlink_task s)"
| "activity_step h hint (AKillClear t) s = Some (None, set_task t (\<lambda>tk. tk\<lparr>on_cpu := False\<rparr>) s)"

definition act_top :: "nat \<Rightarrow> nat option \<Rightarrow> sched_state \<Rightarrow> sched_state option" where
  "act_top h hint s =
     (case acts s h of
        [] \<Rightarrow> None
      | a # as \<Rightarrow>
          (case activity_step h hint a s of
             None \<Rightarrow> None
           | Some (r, s') \<Rightarrow> Some (set_acts h (case r of None \<Rightarrow> as | Some a' \<Rightarrow> a' # as) s')))"

section \<open>Events\<close>

fun interruptible :: "hart_state \<Rightarrow> bool" where
  "interruptible HIdle = True"
| "interruptible (HRun _) = True"
| "interruptible (HExiting _) = True"
| "interruptible (HStopping _) = True"
| "interruptible _ = False"

datatype event =
    Pop nat | Claim nat | Steal nat nat | ClaimStolen nat | Run nat nat
  | Prepare nat nat | Cancel nat | TakeBlock nat | Block nat nat bool | Restore nat | Boost nat "nat list" | Park nat
  | TakeSuspend nat "bool \<times> bool \<times> bool option" | ScheduleIfNeeded nat | Suspend nat nat
  | TakeRelease nat | Release nat | RequeueCheck nat | Requeue nat "nat option"
  | TakeExit nat | Exit nat | Stop nat | ClearStop nat
  | Tick nat nat | Snapshot nat nat | Resched nat resched_reason | Preempt nat nat enqueued_info
  | Spawn nat nat sched_attr | Wake nat nat | SetPriority nat nat int nat | Kill nat nat | Act nat "nat option"

fun hart_of :: "event \<Rightarrow> nat" where
  "hart_of (Pop h) = h" | "hart_of (Claim h) = h" | "hart_of (Steal h _) = h" | "hart_of (ClaimStolen h) = h"
| "hart_of (Run h _) = h" | "hart_of (Prepare h _) = h" | "hart_of (Cancel h) = h" | "hart_of (TakeBlock h) = h"
| "hart_of (Block h _ _) = h" | "hart_of (Restore h) = h" | "hart_of (Boost h _) = h" | "hart_of (Park h) = h"
| "hart_of (TakeSuspend h _) = h" | "hart_of (ScheduleIfNeeded h) = h" | "hart_of (Suspend h _) = h"
| "hart_of (TakeRelease h) = h" | "hart_of (Release h) = h" | "hart_of (RequeueCheck h) = h" | "hart_of (Requeue h _) = h"
| "hart_of (TakeExit h) = h" | "hart_of (Exit h) = h" | "hart_of (Stop h) = h" | "hart_of (ClearStop h) = h"
| "hart_of (Tick h _) = h" | "hart_of (Snapshot h _) = h" | "hart_of (Resched h _) = h" | "hart_of (Preempt h _ _) = h"
| "hart_of (Spawn h _ _) = h" | "hart_of (Wake h _) = h" | "hart_of (SetPriority h _ _ _) = h" | "hart_of (Kill h _) = h"
| "hart_of (Act h _) = h"

text \<open>What starts or advances an activity, and what the interrupt handlers do to the task that runs, may come on top of other activities; a hart's own sections wait for them.\<close>

fun nested :: "event \<Rightarrow> bool" where
  "nested (Tick _ _) = True" | "nested (Snapshot _ _) = True" | "nested (Resched _ _) = True" | "nested (Preempt _ _ _) = True"
| "nested (Spawn _ _ _) = True" | "nested (Wake _ _) = True" | "nested (SetPriority _ _ _ _) = True" | "nested (Kill _ _) = True"
| "nested (Act _ _) = True" | "nested _ = False"

definition start :: "nat \<Rightarrow> activity \<Rightarrow> sched_state \<Rightarrow> sched_state option" where
  "start h a s = (if interruptible (harts s h) then Some (set_acts h (a # acts s h) s) else None)"

fun section_of :: "event \<Rightarrow> sched_state \<Rightarrow> sched_state option" where
  "section_of (Pop h) s = dequeue_pop h s"
| "section_of (Claim h) s = dequeue_claim h s"
| "section_of (Steal h src) s = steal_remove h src s"
| "section_of (ClaimStolen h) s = steal_claim h s"
| "section_of (Run h now) s = run_claimed h now s"
| "section_of (Prepare h wq) s = prepare_current h wq s"
| "section_of (Cancel h) s = cancel_current h s"
| "section_of (TakeBlock h) s = block_take h s"
| "section_of (Block h now nanosleep) s = block_current h now nanosleep s"
| "section_of (Restore h) s = restore_current h s"
| "section_of (Boost h ts) s = boost_current h ts s"
| "section_of (Park h) s = park_current h s"
| "section_of (TakeSuspend h args) s = suspend_take h args s"
| "section_of (ScheduleIfNeeded h) s = schedule_if_needed h s"
| "section_of (Suspend h now) s = suspend_current h now s"
| "section_of (TakeRelease h) s = release_take h s"
| "section_of (Release h) s = release_pending h s"
| "section_of (RequeueCheck h) s = requeue_check h s"
| "section_of (Requeue h hint) s = requeue h hint s"
| "section_of (TakeExit h) s = exit_take h s"
| "section_of (Exit h) s = exit_current h s"
| "section_of (Stop h) s = add_stopping_task h s"
| "section_of (ClearStop h) s = clear_stopping_task h s"
| "section_of (Tick h now) s = Some (on_timer_tick h now s)"
| "section_of (Snapshot h now) s = Some (snd (running_cfs_vruntime_snapshot h now s))"
| "section_of (Resched h r) s = Some (request_resched h r s)"
| "section_of (Preempt h now incoming) s = Some (maybe_preempt_current h now incoming s)"
| "section_of (Spawn h t a) s =
     (if t \<in> known s \<or> card (known s) + 1 \<ge> 2 ^ 40 then None
      else start h (AAdd t h) (s\<lparr>tasks := (tasks s)(t := tcb_new a), known := insert t (known s)\<rparr>))"
| "section_of (Wake h t) s = (if t \<in> known s then start h (AWake t) s else None)"
| "section_of (SetPriority h t n w) s = (if t \<in> known s then start h (APrio t n w) s else None)"
| "section_of (Kill h t) s = (if t \<in> known s then start h (AKill t) s else None)"
| "section_of (Act h hint) s = act_top h hint s"

definition exec :: "event \<Rightarrow> sched_state \<Rightarrow> sched_state option" where
  "exec e s =
     (if panicked s \<or> hart_of e \<ge> MAX_HARTS \<or> (\<not> nested e \<and> acts s (hart_of e) \<noteq> []) then None else section_of e s)"

fun exec_all :: "event list \<Rightarrow> sched_state \<Rightarrow> sched_state option" where
  "exec_all [] s = Some s"
| "exec_all (e # es) s = (case exec e s of None \<Rightarrow> None | Some s' \<Rightarrow> exec_all es s')"

section \<open>The invariants the kernel checks\<close>

definition all_runnable :: "sched_state \<Rightarrow> (nat \<times> nat) list" where
  "all_runnable s = concat (map (\<lambda>h. map (Pair h) (runnable_ptrs (rqs s h))) [0..<MAX_HARTS])"

definition check_sched_invariants :: "sched_state \<Rightarrow> bool" where
  "check_sched_invariants s \<longleftrightarrow>
     (let currents = map (\<lambda>h. current (harts s h)) [0..<MAX_HARTS]; runnable = all_runnable s
      in list_all (\<lambda>a. case currents ! a of None \<Rightarrow> True
             | Some p \<Rightarrow> list_all (\<lambda>b. currents ! b \<noteq> Some p) [a + 1..<MAX_HARTS]) [0..<MAX_HARTS]
         \<and> list_all (\<lambda>a. case currents ! a of None \<Rightarrow> True | Some p \<Rightarrow> list_all (\<lambda>e. snd e \<noteq> p) runnable) [0..<MAX_HARTS]
         \<and> list_all (\<lambda>i. list_all (\<lambda>j. snd (runnable ! i) \<noteq> snd (runnable ! j)) [i + 1..<length runnable]) [0..<length runnable])"

text \<open>\<open>warn_lost_runnable_tasks\<close> reports a task that is marked runnable and that nothing owns.\<close>

definition lost_runnable :: "nat \<Rightarrow> sched_state \<Rightarrow> bool" where
  "lost_runnable t s \<longleftrightarrow> task_status (tasks s t) = Runnable \<and> \<not> on_cpu (tasks s t) \<and> \<not> on_rq (tasks s t)
     \<and> \<not> list_ex (\<lambda>h. current (harts s h) = Some t) [0..<MAX_HARTS] \<and> \<not> list_ex (\<lambda>e. snd e = t) (all_runnable s)"

end
