(* ===== verification/Scheduler_Inv.thy ===== *)
theory Scheduler_Inv
  imports Scheduler
begin

text \<open>
  Ownership of tasks. Each task has at most one owner: a queue, a hart that has just taken it from a queue, or a hart
  that runs it or is switching away from it. The flags \<open>on_rq\<close> and \<open>on_cpu\<close> of its control block say which,
  and a runnable task without an owner is about to be added by somebody.
\<close>

section \<open>Owners\<close>

fun popped :: "hart_state \<Rightarrow> nat option" where
  "popped (HPopped t) = Some t"
| "popped (HStolen t) = Some t"
| "popped _ = None"

fun held :: "hart_state \<Rightarrow> nat option" where
  "held (HClaimed t) = Some t"
| "held (HRun t) = Some t"
| "held (HBlocking t) = Some t"
| "held (HRestoring t) = Some t"
| "held (HParking t _) = Some t"
| "held (HSuspending t _ _ _) = Some t"
| "held (HSwitch t) = Some t"
| "held (HReleasing t) = Some t"
| "held (HExiting t) = Some t"
| "held _ = None"

fun requeuing :: "hart_state \<Rightarrow> nat option" where
  "requeuing (HRequeue t) = Some t"
| "requeuing (HEnqueue t _) = Some t"
| "requeuing _ = None"

fun adds :: "activity \<Rightarrow> nat option" where
  "adds (AAdd t _) = Some t"
| "adds (AEnqueue t _) = Some t"
| "adds (AWakeEnqueue t _) = Some t"
| "adds _ = None"

definition queued_in :: "run_queue \<Rightarrow> nat \<Rightarrow> nat" where
  "queued_in rq t = count (mset (runnable_ptrs rq)) t"

definition queue_owners :: "(nat \<Rightarrow> run_queue) \<Rightarrow> (nat \<Rightarrow> hart_state) \<Rightarrow> nat \<Rightarrow> nat" where
  "queue_owners Q H t = (\<Sum>h<MAX_HARTS. queued_in (Q h) t + of_bool (popped (H h) = Some t))"

definition hart_owners :: "(nat \<Rightarrow> hart_state) \<Rightarrow> nat \<Rightarrow> nat" where
  "hart_owners H t = (\<Sum>h<MAX_HARTS. of_bool (held (H h) = Some t))"

definition adding :: "sched_state \<Rightarrow> nat \<Rightarrow> bool" where
  "adding s t \<longleftrightarrow> (\<exists>h<MAX_HARTS. requeuing (harts s h) = Some t \<or> Some t \<in> adds ` set (acts s h))"

definition owners_ok :: "sched_state \<Rightarrow> bool" where
  "owners_ok s \<longleftrightarrow> (\<forall>t. queue_owners (rqs s) (harts s) t = of_bool (on_rq (tasks s t))
     \<and> hart_owners (harts s) t = of_bool (on_cpu (tasks s t)) \<and> \<not> (on_rq (tasks s t) \<and> on_cpu (tasks s t)))"

definition queues_ok :: "sched_state \<Rightarrow> bool" where
  "queues_ok s \<longleftrightarrow> (\<forall>h<MAX_HARTS. rq_ok (rqs s h) (tasks s))"

definition tasks_ok :: "sched_state \<Rightarrow> bool" where
  "tasks_ok s \<longleftrightarrow> finite (known s) \<and> card (known s) < 2 ^ 40 \<and> (\<forall>t\<in>known s. valid_attr (tasks s t))
     \<and> (\<forall>t. t \<notin> known s \<longrightarrow> \<not> on_rq (tasks s t) \<and> \<not> on_cpu (tasks s t) \<and> \<not> asleep (task_status (tasks s t)))"

definition harts_ok :: "sched_state \<Rightarrow> bool" where
  "harts_ok s \<longleftrightarrow> (\<forall>h<MAX_HARTS. (\<forall>t. held (harts s h) = Some t \<longrightarrow> last_cpu (tasks s t) = h)
     \<and> (\<forall>t. harts s h = HExiting t \<longrightarrow> \<not> asleep (task_status (tasks s t)))
     \<and> (\<forall>t. requeuing (harts s h) = Some t \<longrightarrow> t \<in> known s) \<and> (\<forall>t g. harts s h = HEnqueue t g \<longrightarrow> g < MAX_HARTS))"

definition act_ok :: "sched_state \<Rightarrow> nat \<Rightarrow> activity \<Rightarrow> bool" where
  "act_ok s h a \<longleftrightarrow> (case a of
       AAdd t _ \<Rightarrow> t \<in> known s
     | AEnqueue t g \<Rightarrow> t \<in> known s \<and> g < MAX_HARTS
     | AWake t \<Rightarrow> t \<in> known s
     | AResolve t g \<Rightarrow> t \<in> known s \<and> g < MAX_HARTS \<and> (g = h \<longrightarrow> harts s h = HRun t)
     | ASpin t _ _ _ \<Rightarrow> t \<in> known s
     | ARepair t _ _ _ \<Rightarrow> t \<in> known s
     | AWakeEnqueue t g \<Rightarrow> t \<in> known s \<and> g < MAX_HARTS
     | _ \<Rightarrow> False)"

definition acts_ok :: "sched_state \<Rightarrow> bool" where
  "acts_ok s \<longleftrightarrow> (\<forall>h<MAX_HARTS. (acts s h \<noteq> [] \<longrightarrow> interruptible (harts s h)) \<and> (\<forall>a\<in>set (acts s h). act_ok s h a))"

definition none_lost :: "sched_state \<Rightarrow> bool" where
  "none_lost s \<longleftrightarrow> (\<forall>t\<in>known s. task_status (tasks s t) = Runnable \<longrightarrow> on_rq (tasks s t) \<or> on_cpu (tasks s t) \<or> adding s t)"

definition sched_inv :: "sched_state \<Rightarrow> bool" where
  "sched_inv s \<longleftrightarrow> owners_ok s \<and> queues_ok s \<and> tasks_ok s \<and> harts_ok s \<and> acts_ok s \<and> none_lost s
     \<and> \<not> panicked s \<and> 0 < online s \<and> online s < 2 ^ MAX_HARTS"

section \<open>Counting\<close>

lemma sum_update:
  fixes f :: "nat \<Rightarrow> nat" and g :: "nat \<Rightarrow> nat"
  assumes "h < n" and "\<And>i. i \<noteq> h \<Longrightarrow> f i = g i"
  shows "(\<Sum>i<n. f i) + g h = (\<Sum>i<n. g i) + f h"
proof -
  have "(\<Sum>i<n. f i) = f h + sum f ({..<n} - {h})" "(\<Sum>i<n. g i) = g h + sum g ({..<n} - {h})"
    using assms(1) by (simp_all add: sum.remove)
  moreover have "sum f ({..<n} - {h}) = sum g ({..<n} - {h})" using assms(2) by (intro sum.cong) auto
  ultimately show ?thesis by simp
qed

lemma sum_member_le: "h < (n :: nat) \<Longrightarrow> (f h :: nat) \<le> (\<Sum>i<n. f i)"
  by (simp add: member_le_sum)

lemma sum_two_le: "h < (n :: nat) \<Longrightarrow> g < n \<Longrightarrow> h \<noteq> g \<Longrightarrow> (f h :: nat) + f g \<le> (\<Sum>i<n. f i)"
proof -
  assume a: "h < n" "g < n" "h \<noteq> g"
  have "sum f {h, g} \<le> sum f {..<n}" by (rule sum_mono2) (use a in auto)
  then show ?thesis using a by simp
qed

lemma queue_owners_hart:
  "h < MAX_HARTS \<Longrightarrow> queue_owners Q (H(h := x)) t + of_bool (popped (H h) = Some t) = queue_owners Q H t + of_bool (popped x = Some t)"
  unfolding queue_owners_def using sum_update [of h MAX_HARTS "\<lambda>i. queued_in (Q i) t + of_bool (popped ((H(h := x)) i) = Some t)"
      "\<lambda>i. queued_in (Q i) t + of_bool (popped (H i) = Some t)"] by simp

lemma queue_owners_queue:
  "h < MAX_HARTS \<Longrightarrow> queue_owners (Q(h := q)) H t + queued_in (Q h) t = queue_owners Q H t + queued_in q t"
  unfolding queue_owners_def using sum_update [of h MAX_HARTS "\<lambda>i. queued_in ((Q(h := q)) i) t + of_bool (popped (H i) = Some t)"
      "\<lambda>i. queued_in (Q i) t + of_bool (popped (H i) = Some t)"] by simp

lemma hart_owners_hart:
  "h < MAX_HARTS \<Longrightarrow> hart_owners (H(h := x)) t + of_bool (held (H h) = Some t) = hart_owners H t + of_bool (held x = Some t)"
  unfolding hart_owners_def using sum_update [of h MAX_HARTS "\<lambda>i. of_bool (held ((H(h := x)) i) = Some t)" "\<lambda>i. of_bool (held (H i) = Some t)"] by simp

lemma queued_in_pos: "queued_in rq t = 0 \<longleftrightarrow> t \<notin> set (runnable_ptrs rq)"
  by (simp add: queued_in_def count_eq_zero_iff)

lemma queued_in_le: "h < MAX_HARTS \<Longrightarrow> queued_in (Q h) t \<le> queue_owners Q H t"
  unfolding queue_owners_def using sum_member_le [of h MAX_HARTS "\<lambda>i. queued_in (Q i) t + of_bool (popped (H i) = Some t)"] by simp

section \<open>What ownership gives\<close>

lemma owners_okD:
  assumes "owners_ok s"
  shows "queue_owners (rqs s) (harts s) t = of_bool (on_rq (tasks s t))" and "hart_owners (harts s) t = of_bool (on_cpu (tasks s t))"
    and "\<not> (on_rq (tasks s t) \<and> on_cpu (tasks s t))"
  using assms by (auto simp: owners_ok_def)

lemma held_on_cpu:
  assumes "owners_ok s" and "h < MAX_HARTS" and "held (harts s h) = Some t"
  shows "on_cpu (tasks s t)" and "\<not> on_rq (tasks s t)"
proof -
  have "1 \<le> hart_owners (harts s) t"
    unfolding hart_owners_def using sum_member_le [of h MAX_HARTS "\<lambda>i. of_bool (held (harts s i) = Some t)"] assms by simp
  then show "on_cpu (tasks s t)" using owners_okD(2) [OF assms(1), of t] by (cases "on_cpu (tasks s t)") auto
  then show "\<not> on_rq (tasks s t)" using owners_okD(3) [OF assms(1), of t] by simp
qed

lemma held_unique:
  assumes "owners_ok s" and "h < MAX_HARTS" and "g < MAX_HARTS" and "held (harts s h) = Some t" and "held (harts s g) = Some t"
  shows "g = h"
proof (rule ccontr)
  assume "g \<noteq> h"
  then have "2 \<le> hart_owners (harts s) t"
    unfolding hart_owners_def using sum_two_le [of h MAX_HARTS g "\<lambda>i. of_bool (held (harts s i) = Some t)"] assms by simp
  then show False using owners_okD(2) [OF assms(1), of t] by (cases "on_cpu (tasks s t)") auto
qed

lemma on_cpu_held: "owners_ok s \<Longrightarrow> on_cpu (tasks s t) \<Longrightarrow> \<exists>h<MAX_HARTS. held (harts s h) = Some t"
proof -
  assume "owners_ok s" "on_cpu (tasks s t)"
  then have "hart_owners (harts s) t \<noteq> 0" using owners_okD(2) [of s t] by simp
  then show ?thesis unfolding hart_owners_def by (auto simp: sum_eq_0_iff)
qed

lemma popped_on_rq:
  assumes "owners_ok s" and "h < MAX_HARTS" and "popped (harts s h) = Some t"
  shows "on_rq (tasks s t)" and "\<not> on_cpu (tasks s t)" and "g < MAX_HARTS \<Longrightarrow> t \<notin> set (runnable_ptrs (rqs s g))"
proof -
  let ?f = "\<lambda>i. queued_in (rqs s i) t + of_bool (popped (harts s i) = Some t)"
  have q: "(\<Sum>i<MAX_HARTS. ?f i) = of_bool (on_rq (tasks s t))" using owners_okD(1) [OF assms(1), of t] by (simp add: queue_owners_def)
  have p: "1 \<le> ?f h" using assms(3) by simp
  then show r: "on_rq (tasks s t)" using q sum_member_le [of h MAX_HARTS ?f] assms(2) by (cases "on_rq (tasks s t)") auto
  then show "\<not> on_cpu (tasks s t)" using owners_okD(3) [OF assms(1), of t] by simp
  show "t \<notin> set (runnable_ptrs (rqs s g))" if g: "g < MAX_HARTS"
  proof -
    have "queued_in (rqs s g) t = 0"
    proof (cases "g = h")
      case True
      then show ?thesis using sum_member_le [of h MAX_HARTS ?f] q r assms(2,3) by simp
    next
      case False
      then show ?thesis using sum_two_le [of h MAX_HARTS g ?f] q r p assms(2) g by simp
    qed
    then show ?thesis by (simp add: queued_in_pos)
  qed
qed

lemma not_on_rq_not_queued: "owners_ok s \<Longrightarrow> \<not> on_rq (tasks s t) \<Longrightarrow> h < MAX_HARTS \<Longrightarrow> t \<notin> set (runnable_ptrs (rqs s h))"
  using owners_okD(1) [of s t] queued_in_le [of h "rqs s" t "harts s"] by (simp add: queued_in_pos [symmetric])

lemma held_not_queued:
  assumes "owners_ok s" and "h < MAX_HARTS" and "held (harts s h) = Some t \<or> popped (harts s h) = Some t" and "g < MAX_HARTS"
  shows "t \<notin> set (runnable_ptrs (rqs s g))"
  using assms not_on_rq_not_queued [OF assms(1) _ assms(4), of t] held_on_cpu [OF assms(1,2), of t] popped_on_rq(3) [OF assms(1,2), of t g] by blast

lemma cfs_length:
  assumes "queues_ok s" and "tasks_ok s" and "owners_ok s" and "h < MAX_HARTS"
  shows "length (cfs_tasks (rqs s h)) < 2 ^ 40"
proof -
  have d: "distinct (runnable_ptrs (rqs s h))" using assms(1,4) rq_ok_distinct by (auto simp: queues_ok_def)
  have "set (runnable_ptrs (rqs s h)) \<subseteq> known s"
    using assms(2) not_on_rq_not_queued [OF assms(3) _ assms(4)] by (auto simp: tasks_ok_def)
  then have "length (runnable_ptrs (rqs s h)) \<le> card (known s)"
    using assms(2) by (metis card_mono distinct_card [OF d] tasks_ok_def)
  then show ?thesis using assms(2) by (simp add: tasks_ok_def runnable_ptrs_def)
qed

lemma queues_ok_update:
  assumes "queues_ok s" and "\<And>h. h < MAX_HARTS \<Longrightarrow> t \<notin> set (runnable_ptrs (rqs s h))"
  shows "queues_ok (s\<lparr>tasks := (tasks s)(t := tk)\<rparr>)"
  unfolding queues_ok_def
proof (intro allI impI)
  fix h assume h: "h < MAX_HARTS"
  have "rq_ok (rqs s h) ((tasks s)(t := tk)) \<longleftrightarrow> rq_ok (rqs s h) (tasks s)"
    by (rule rq_ok_cong) (use assms(2) [OF h] in auto)
  then show "rq_ok (rqs (s\<lparr>tasks := (tasks s)(t := tk)\<rparr>) h) (tasks (s\<lparr>tasks := (tasks s)(t := tk)\<rparr>))"
    using assms(1) h by (simp add: queues_ok_def)
qed

section \<open>Sections of a hart on its own task\<close>

definition same_attr :: "tcb \<Rightarrow> tcb \<Rightarrow> bool" where
  "same_attr a b \<longleftrightarrow> policy b = policy a \<and> rt_priority b = rt_priority a \<and> weight b = weight a"

lemma same_attr_valid: "same_attr a b \<Longrightarrow> valid_attr b \<longleftrightarrow> valid_attr a"
  by (auto simp: same_attr_def valid_attr_def split: sched_policy.splits)

lemma set_parts [simp]:
  "tasks (set_hart h x s) = tasks s" "rqs (set_hart h x s) = rqs s" "harts (set_hart h x s) = (harts s)(h := x)"
  "acts (set_hart h x s) = acts s" "known (set_hart h x s) = known s" "online (set_hart h x s) = online s" "panicked (set_hart h x s) = panicked s"
  "tasks (set_task t f s) = (tasks s)(t := f (tasks s t))" "rqs (set_task t f s) = rqs s" "harts (set_task t f s) = harts s"
  "acts (set_task t f s) = acts s" "known (set_task t f s) = known s" "online (set_task t f s) = online s" "panicked (set_task t f s) = panicked s"
  "tasks (set_acts h as s) = tasks s" "rqs (set_acts h as s) = rqs s" "harts (set_acts h as s) = harts s"
  "acts (set_acts h as s) = (acts s)(h := as)" "known (set_acts h as s) = known s" "online (set_acts h as s) = online s" "panicked (set_acts h as s) = panicked s"
  "tasks (set_queue h rq T s) = T" "rqs (set_queue h rq T s) = (rqs s)(h := rq)" "harts (set_queue h rq T s) = harts s"
  "acts (set_queue h rq T s) = acts s" "known (set_queue h rq T s) = known s" "online (set_queue h rq T s) = online s" "panicked (set_queue h rq T s) = panicked s"
  by (simp_all add: set_hart_def set_task_def set_acts_def set_queue_def)

end
