(* ===== verification/Scheduler_Steps.thy ===== *)
theory Scheduler_Steps
  imports Scheduler_Inv
begin

text \<open>
  Every section keeps the ownership invariant. Three lemmas carry the cases: a hart that works on the task it owns, a
  section that changes a task without changing its owner, and a section that moves a task into or out of a queue.
\<close>

section \<open>Sections of a hart on its own task\<close>

lemma sched_invD:
  assumes "sched_inv s"
  shows "owners_ok s" "queues_ok s" "tasks_ok s" "harts_ok s" "acts_ok s" "none_lost s" "\<not> panicked s" "0 < online s" "online s < 2 ^ MAX_HARTS"
  using assms by (simp_all add: sched_inv_def)

lemma owned_known: "tasks_ok s \<Longrightarrow> on_rq (tasks s t) \<or> on_cpu (tasks s t) \<Longrightarrow> t \<in> known s"
  by (auto simp: tasks_ok_def)

lemma tasks_ok_update:
  assumes "tasks_ok s" and "same_attr (tasks s t) tk" and "t \<in> known s"
  shows "tasks_ok (s\<lparr>tasks := (tasks s)(t := tk), harts := H\<rparr>)"
  using assms same_attr_valid [OF assms(2)] by (auto simp: tasks_ok_def)

lemma act_ok_cong: "known s' = known s \<Longrightarrow> harts s' h = harts s h \<Longrightarrow> act_ok s' h a = act_ok s h a"
  by (cases a) (simp_all add: act_ok_def)

lemma acts_ok_cong:
  assumes "acts_ok s" and "known s' = known s" and "\<And>h. h < MAX_HARTS \<Longrightarrow> acts s' h \<noteq> [] \<Longrightarrow> acts s' h = acts s h \<and> harts s' h = harts s h"
  shows "acts_ok s'"
  unfolding acts_ok_def
proof (intro allI impI)
  fix h assume h: "h < MAX_HARTS"
  show "(acts s' h \<noteq> [] \<longrightarrow> interruptible (harts s' h)) \<and> (\<forall>a\<in>set (acts s' h). act_ok s' h a)"
  proof (cases "acts s' h = []")
    case False
    have e: "acts s' h = acts s h" "harts s' h = harts s h" using assms(3) [OF h False] by auto
    then show ?thesis using assms(1) h act_ok_cong [OF assms(2) e(2)] by (simp add: acts_ok_def)
  qed simp
qed

lemma own_section_inv:
  assumes inv: "sched_inv s" and h: "h < MAX_HARTS" "acts s h = []"
    and t: "held (harts s h) = Some t \<or> popped (harts s h) = Some t"
    and x: "popped x = None" "held x = (if on_cpu tk then Some t else None)" "\<forall>u. requeuing x = Some u \<longrightarrow> u = t" "\<forall>u g. x \<noteq> HEnqueue u g"
      "x = HExiting t \<longrightarrow> \<not> asleep (task_status tk)"
    and tk: "\<not> on_rq tk" "same_attr (tasks s t) tk" "on_cpu tk \<longrightarrow> last_cpu tk = h" "task_status tk = Runnable \<longrightarrow> on_cpu tk \<or> requeuing x = Some t"
    and s': "s' = s\<lparr>tasks := (tasks s)(t := tk), harts := (harts s)(h := x)\<rparr>"
  shows "sched_inv s'"
proof -
  note i = sched_invD [OF inv]
  have nq: "t \<notin> set (runnable_ptrs (rqs s g))" if "g < MAX_HARTS" for g using held_not_queued [OF i(1) h(1) t that] .
  have old: "on_rq (tasks s t) = (popped (harts s h) = Some t)" "on_cpu (tasks s t) = (held (harts s h) = Some t)"
    using t held_on_cpu [OF i(1) h(1)] popped_on_rq [OF i(1) h(1)] by blast+
  have kn: "t \<in> known s" using owned_known [OF i(3)] old t by blast
  have other: "held (harts s h) = Some u \<Longrightarrow> u = t" "popped (harts s h) = Some u \<Longrightarrow> u = t" for u
    using t by (cases "harts s h"; simp)+
  have "owners_ok s'"
    unfolding owners_ok_def
  proof
    fix u
    show "queue_owners (rqs s') (harts s') u = of_bool (on_rq (tasks s' u)) \<and> hart_owners (harts s') u = of_bool (on_cpu (tasks s' u))
        \<and> \<not> (on_rq (tasks s' u) \<and> on_cpu (tasks s' u))"
    proof (cases "u = t")
      case True
      have "queue_owners (rqs s) ((harts s)(h := x)) t + of_bool (on_rq (tasks s t)) = of_bool (on_rq (tasks s t))"
        using queue_owners_hart [OF h(1), of "rqs s" "harts s" x t] owners_okD(1) [OF i(1), of t] x(1) unfolding old(1) by simp
      moreover have "hart_owners ((harts s)(h := x)) t + of_bool (on_cpu (tasks s t)) = of_bool (on_cpu (tasks s t)) + of_bool (on_cpu tk)"
        using hart_owners_hart [OF h(1), of "harts s" x t] owners_okD(2) [OF i(1), of t] x(2) unfolding old(2) by (simp split: if_splits)
      ultimately show ?thesis using tk(1) True by (simp add: s')
    next
      case False
      then have "popped (harts s h) \<noteq> Some u" "held (harts s h) \<noteq> Some u" "held x \<noteq> Some u" using other x(2) by (auto split: if_splits)
      then show ?thesis
        using queue_owners_hart [OF h(1), of "rqs s" "harts s" x u] hart_owners_hart [OF h(1), of "harts s" x u]
          owners_okD [OF i(1), of u] x(1) False by (simp add: s')
    qed
  qed
  moreover have "queues_ok s'"
    using queues_ok_update [OF i(2) nq, of tk] by (simp add: queues_ok_def s')
  moreover have "tasks_ok s'" unfolding s' by (rule tasks_ok_update [OF i(3) tk(2) kn])
  moreover have "harts_ok s'"
    unfolding harts_ok_def
  proof (intro allI impI)
    fix g assume g: "g < MAX_HARTS"
    have o: "held (harts s g) = Some t \<Longrightarrow> g = h"
      using t held_unique [OF i(1) h(1) g, of t] held_on_cpu [OF i(1) g, of t] popped_on_rq(2) [OF i(1) h(1), of t] by blast
    show "(\<forall>u. held (harts s' g) = Some u \<longrightarrow> last_cpu (tasks s' u) = g) \<and> (\<forall>u. harts s' g = HExiting u \<longrightarrow> \<not> asleep (task_status (tasks s' u)))
        \<and> (\<forall>u. requeuing (harts s' g) = Some u \<longrightarrow> u \<in> known s') \<and> (\<forall>u k. harts s' g = HEnqueue u k \<longrightarrow> k < MAX_HARTS)"
    proof (cases "g = h")
      case True
      then show ?thesis using x tk kn by (auto simp: s' split: if_splits)
    next
      case False
      have "held (harts s g) \<noteq> Some t" using o False by blast
      moreover have "harts s g \<noteq> HExiting t" using o False by auto
      ultimately show ?thesis using False i(4) g by (auto simp: s' harts_ok_def)
    qed
  qed
  moreover have "acts_ok s'"
    using h(2) by (intro acts_ok_cong [OF i(5)]) (auto simp: s')
  moreover have "none_lost s'"
    unfolding none_lost_def
  proof (intro ballI impI)
    fix u assume u: "u \<in> known s'" "task_status (tasks s' u) = Runnable"
    show "on_rq (tasks s' u) \<or> on_cpu (tasks s' u) \<or> adding s' u"
    proof (cases "u = t")
      case True
      then show ?thesis using u tk(4) h(1) by (auto simp: s' adding_def)
    next
      case False
      have "requeuing (harts s h) = None" using t by (cases "harts s h") auto
      then have "adding s u \<Longrightarrow> adding s' u" by (auto simp: s' adding_def)
      then show ?thesis using i(6) u False by (auto simp: none_lost_def s')
    qed
  qed
  ultimately show ?thesis using i(7,8,9) by (simp add: sched_inv_def s')
qed

section \<open>Sections that keep the owner\<close>

lemma mark_section_inv:
  assumes inv: "sched_inv s" and kn: "t \<in> known s"
    and tk: "on_rq tk = on_rq (tasks s t)" "on_cpu tk = on_cpu (tasks s t)" "last_cpu tk = last_cpu (tasks s t)" "same_attr (tasks s t) tk"
    and key: "on_rq (tasks s t) \<longrightarrow> vruntime_ns tk = vruntime_ns (tasks s t) \<and> cfs_rq_key tk = cfs_rq_key (tasks s t)"
    and st: "asleep (task_status tk) \<longrightarrow> asleep (task_status (tasks s t))"
      "task_status tk = Runnable \<longrightarrow> task_status (tasks s t) = Runnable \<or> on_rq (tasks s t) \<or> on_cpu (tasks s t)"
  shows "sched_inv (s\<lparr>tasks := (tasks s)(t := tk)\<rparr>)" (is "sched_inv ?s")
proof -
  note i = sched_invD [OF inv]
  have "owners_ok ?s" using i(1) tk(1,2) by (auto simp: owners_ok_def)
  moreover have "queues_ok ?s"
  proof -
    have "rq_ok (rqs s h) ((tasks s)(t := tk)) \<longleftrightarrow> rq_ok (rqs s h) (tasks s)" if "h < MAX_HARTS" for h
    proof (rule rq_ok_cong)
      fix u assume "u \<in> set (runnable_ptrs (rqs s h))"
      then have "on_rq (tasks s u)" using not_on_rq_not_queued [OF i(1) _ that] by blast
      then show "policy (((tasks s)(t := tk)) u) = policy (tasks s u) \<and> rt_priority (((tasks s)(t := tk)) u) = rt_priority (tasks s u)
          \<and> weight (((tasks s)(t := tk)) u) = weight (tasks s u) \<and> vruntime_ns (((tasks s)(t := tk)) u) = vruntime_ns (tasks s u)
          \<and> cfs_rq_key (((tasks s)(t := tk)) u) = cfs_rq_key (tasks s u)"
        using key tk(4) by (auto simp: same_attr_def)
    qed
    then show ?thesis using i(2) by (simp add: queues_ok_def)
  qed
  moreover have "tasks_ok ?s" using tasks_ok_update [OF i(3) tk(4) kn, of "harts s"] by simp
  moreover have "harts_ok ?s" using i(4) tk(3) st(1) by (auto simp: harts_ok_def)
  moreover have "acts_ok ?s" by (rule acts_ok_cong [OF i(5)]) auto
  moreover have "none_lost ?s" using i(6) tk(1,2) st(2) by (auto simp: none_lost_def adding_def)
  ultimately show ?thesis using i(7,8,9) by (simp add: sched_inv_def)
qed

section \<open>Sections on a queue\<close>

lemma take_section_inv:
  assumes inv: "sched_inv s" and h: "h < MAX_HARTS" "acts s h = []" "harts s h = HIdle" and g: "g < MAX_HARTS"
    and k: "kept t (rqs s g) (tasks s) rq T" and m: "mset (runnable_ptrs (rqs s g)) = add_mset t (mset (runnable_ptrs rq))"
    and x: "popped x = Some t"
  shows "sched_inv (set_hart h x (set_queue g rq T s))" (is "sched_inv ?s")
proof -
  note i = sched_invD [OF inv]
  have "t \<in> set (runnable_ptrs (rqs s g))" using m by (metis union_single_eq_member set_mset_mset)
  then have rq: "on_rq (tasks s t)" using not_on_rq_not_queued [OF i(1) _ g] by blast
  obtain v b c d where T: "T = (tasks s)(t := (tasks s t)\<lparr>vruntime_ns := v, cfs_initialized := b, cfs_rq_key := c, rt_enqueue_head := d\<rparr>)"
    using k by (auto simp: kept_def touched_def)
  have flags: "on_rq (T u) = on_rq (tasks s u)" "on_cpu (T u) = on_cpu (tasks s u)" "last_cpu (T u) = last_cpu (tasks s u)"
    "task_status (T u) = task_status (tasks s u)" "same_attr (tasks s u) (T u)" for u
    by (auto simp: T same_attr_def)
  have hx: "held x = None" "requeuing x = None" "\<And>u. x \<noteq> HExiting u" "\<And>u k. x \<noteq> HEnqueue u k" using x by (cases x; simp)+
  have q: "queued_in (rqs s g) u = queued_in rq u + of_bool (u = t)" for u using m by (simp add: queued_in_def)
  have "owners_ok ?s"
    unfolding owners_ok_def
  proof
    fix u
    have "queue_owners ((rqs s)(g := rq)) ((harts s)(h := x)) u = queue_owners (rqs s) (harts s) u"
      using queue_owners_hart [OF h(1), of "(rqs s)(g := rq)" "harts s" x u] queue_owners_queue [OF g, of "rqs s" rq "harts s" u] q [of u] x h(3)
      by (cases "u = t") auto
    moreover have "hart_owners ((harts s)(h := x)) u = hart_owners (harts s) u"
      using hart_owners_hart [OF h(1), of "harts s" x u] h(3) hx by simp
    ultimately show "queue_owners (rqs ?s) (harts ?s) u = of_bool (on_rq (tasks ?s u)) \<and> hart_owners (harts ?s) u = of_bool (on_cpu (tasks ?s u))
        \<and> \<not> (on_rq (tasks ?s u) \<and> on_cpu (tasks ?s u))"
      using owners_okD [OF i(1), of u] flags by simp
  qed
  moreover have "queues_ok ?s"
    unfolding queues_ok_def
  proof (intro allI impI)
    fix f assume f: "f < MAX_HARTS"
    show "rq_ok (rqs ?s f) (tasks ?s)"
    proof (cases "f = g")
      case True
      then show ?thesis using k by (simp add: kept_def)
    next
      case False
      let ?f = "\<lambda>j. queued_in (rqs s j) t + of_bool (popped (harts s j) = Some t)"
      have "queued_in (rqs s f) t = 0"
        using sum_two_le [OF f g False, of ?f] owners_okD(1) [OF i(1), of t] rq q [of t] by (simp add: queue_owners_def)
      then have "rq_ok (rqs s f) T \<longleftrightarrow> rq_ok (rqs s f) (tasks s)"
        by (intro rq_ok_cong) (auto simp: T queued_in_pos)
      then show ?thesis using False i(2) f by (simp add: queues_ok_def)
    qed
  qed
  moreover have "tasks_ok ?s" using i(3) flags(1,2,4) same_attr_valid [OF flags(5)] by (simp add: tasks_ok_def)
  moreover have "harts_ok ?s" using i(4) flags hx by (auto simp: harts_ok_def)
  moreover have "acts_ok ?s" using h(2) by (intro acts_ok_cong [OF i(5)]) auto
  moreover have "none_lost ?s"
  proof -
    have "adding s u \<Longrightarrow> adding ?s u" for u using h(3) by (auto simp: adding_def)
    then show ?thesis using i(6) flags by (auto simp: none_lost_def)
  qed
  ultimately show ?thesis using i(7,8,9) by (simp add: sched_inv_def)
qed

text \<open>All but the last clause of the invariant, for sections that finish an addition.\<close>

definition core_inv :: "sched_state \<Rightarrow> bool" where
  "core_inv s \<longleftrightarrow> owners_ok s \<and> queues_ok s \<and> tasks_ok s \<and> harts_ok s \<and> acts_ok s \<and> \<not> panicked s \<and> 0 < online s \<and> online s < 2 ^ MAX_HARTS"

lemma sched_inv_core: "sched_inv s \<longleftrightarrow> core_inv s \<and> none_lost s"
  by (auto simp: sched_inv_def core_inv_def)

lemma core_invD:
  assumes "core_inv s"
  shows "owners_ok s" "queues_ok s" "tasks_ok s" "harts_ok s" "acts_ok s" "\<not> panicked s" "0 < online s" "online s < 2 ^ MAX_HARTS"
  using assms by (simp_all add: core_inv_def)

definition settled :: "tcb \<Rightarrow> bool" where
  "settled tk \<longleftrightarrow> (task_status tk = Runnable \<longrightarrow> on_rq tk \<or> on_cpu tk)"

lemma none_lost_settled:
  assumes "none_lost s" and "known s' = known s" and "settled (tasks s' t)"
    and "\<And>u. u \<noteq> t \<Longrightarrow> tasks s' u = tasks s u" and "\<And>u. u \<noteq> t \<Longrightarrow> adding s u \<Longrightarrow> adding s' u"
  shows "none_lost s'"
  unfolding none_lost_def
proof (intro ballI impI)
  fix u assume u: "u \<in> known s'" "task_status (tasks s' u) = Runnable"
  show "on_rq (tasks s' u) \<or> on_cpu (tasks s' u) \<or> adding s' u"
  proof (cases "u = t")
    case True
    then show ?thesis using assms(3) u by (auto simp: settled_def)
  next
    case False
    then show ?thesis using assms(1,2) assms(4,5) [OF False] u by (auto simp: none_lost_def)
  qed
qed

lemma enqueue_section_inv:
  assumes inv: "core_inv s" and kn: "t \<in> known s" and g: "g < MAX_HARTS" and free: "\<not> on_rq (tasks s t)" "\<not> on_cpu (tasks s t)"
    and tk: "on_rq tk" "\<not> on_cpu tk" "same_attr (tasks s t) tk" "task_status tk = Runnable"
  obtains i rq T where "enqueue_locked t hint (rqs s g) ((tasks s)(t := tk)) = Some (i, rq, T)" and "core_inv (set_queue g rq T s)"
    and "\<And>u. u \<noteq> t \<Longrightarrow> T u = tasks s u" and "settled (T t)"
proof -
  note i = core_invD [OF inv]
  let ?T = "(tasks s)(t := tk)"
  have nq: "t \<notin> set (runnable_ptrs (rqs s f))" if "f < MAX_HARTS" for f using not_on_rq_not_queued [OF i(1) free(1) that] .
  have q1: "queues_ok (s\<lparr>tasks := ?T\<rparr>)" by (rule queues_ok_update [OF i(2) nq])
  have ok: "rq_ok (rqs s g) ?T" using q1 g by (simp add: queues_ok_def)
  have va: "valid_attr (?T t)" using i(3) kn same_attr_valid [OF tk(3)] by (simp add: tasks_ok_def)
  obtain e rq T where e: "enqueue_locked t hint (rqs s g) ?T = Some (e, rq, T)" and k: "kept t (rqs s g) ?T rq T"
    and m: "mset (runnable_ptrs rq) = add_mset t (mset (runnable_ptrs (rqs s g)))"
    using enqueue_ok [OF ok va nq [OF g] cfs_length [OF i(2,3,1) g], of hint] by blast
  obtain v b c d where T: "T = ?T(t := (?T t)\<lparr>vruntime_ns := v, cfs_initialized := b, cfs_rq_key := c, rt_enqueue_head := d\<rparr>)"
    using k by (auto simp: kept_def touched_def)
  have Tt: "on_rq (T t)" "\<not> on_cpu (T t)" "same_attr (tasks s t) (T t)" "task_status (T t) = Runnable"
    using tk by (simp_all add: T same_attr_def)
  have Tu: "T u = tasks s u" if "u \<noteq> t" for u using that by (simp add: T)
  let ?s = "set_queue g rq T s"
  have "owners_ok ?s"
    unfolding owners_ok_def
  proof
    fix u
    have q: "queued_in rq u = queued_in (rqs s g) u + of_bool (u = t)" using m by (simp add: queued_in_def)
    show "queue_owners (rqs ?s) (harts ?s) u = of_bool (on_rq (tasks ?s u)) \<and> hart_owners (harts ?s) u = of_bool (on_cpu (tasks ?s u))
        \<and> \<not> (on_rq (tasks ?s u) \<and> on_cpu (tasks ?s u))"
      using queue_owners_queue [OF g, of "rqs s" rq "harts s" u] owners_okD [OF i(1), of u] q Tt Tu [of u] free
      by (cases "u = t") simp_all
  qed
  moreover have "queues_ok ?s"
    unfolding queues_ok_def
  proof (intro allI impI)
    fix f assume f: "f < MAX_HARTS"
    show "rq_ok (rqs ?s f) (tasks ?s)"
    proof (cases "f = g")
      case True
      then show ?thesis using k by (simp add: kept_def)
    next
      case False
      have "rq_ok (rqs s f) T \<longleftrightarrow> rq_ok (rqs s f) (tasks s)" by (rule rq_ok_cong) (metis nq [OF f] Tu)
      then show ?thesis using False i(2) f by (simp add: queues_ok_def)
    qed
  qed
  moreover have "tasks_ok ?s"
    using i(3) Tt Tu kn same_attr_valid [OF Tt(3)] unfolding tasks_ok_def by (metis set_parts(22,26))
  moreover have "harts_ok ?s"
    unfolding harts_ok_def
  proof (intro allI impI)
    fix f assume f: "f < MAX_HARTS"
    have nh: "held (harts s f) \<noteq> Some t" using held_on_cpu(1) [OF i(1) f] free(2) by blast
    have "T u = tasks s u" if "held (harts s f) = Some u" for u using Tu [of u] nh that by auto
    moreover have "T u = tasks s u" if "harts s f = HExiting u" for u using Tu [of u] nh that by auto
    ultimately show "(\<forall>u. held (harts ?s f) = Some u \<longrightarrow> last_cpu (tasks ?s u) = f) \<and> (\<forall>u. harts ?s f = HExiting u \<longrightarrow> \<not> asleep (task_status (tasks ?s u)))
        \<and> (\<forall>u. requeuing (harts ?s f) = Some u \<longrightarrow> u \<in> known ?s) \<and> (\<forall>u k. harts ?s f = HEnqueue u k \<longrightarrow> k < MAX_HARTS)"
      using i(4) f by (auto simp: harts_ok_def)
  qed
  moreover have "acts_ok ?s" by (rule acts_ok_cong [OF i(5)]) auto
  ultimately have "core_inv ?s" using i(6,7,8) by (simp add: core_inv_def)
  then show thesis using that e Tu Tt by (simp add: settled_def)
qed

text \<open>What a section that ends an addition of a task leaves behind.\<close>

definition addition_done :: "nat \<Rightarrow> sched_state \<Rightarrow> sched_state \<Rightarrow> bool" where
  "addition_done t s s' \<longleftrightarrow> core_inv s' \<and> settled (tasks s' t) \<and> (\<forall>u. u \<noteq> t \<longrightarrow> tasks s' u = tasks s u)
     \<and> harts s' = harts s \<and> acts s' = acts s \<and> known s' = known s"

lemma enqueue_finished:
  assumes "core_inv s" and "t \<in> known s" and "g < MAX_HARTS" and "\<not> on_rq (tasks s t)" "\<not> on_cpu (tasks s t)"
    and "on_rq tk" "\<not> on_cpu tk" "same_attr (tasks s t) tk" "task_status tk = Runnable"
    and "s' = (case enqueue_locked t hint (rqs s g) ((tasks s)(t := tk)) of None \<Rightarrow> s\<lparr>panicked := True\<rparr> | Some (_, rq, T') \<Rightarrow> set_queue g rq T' s)"
  shows "addition_done t s s'"
proof -
  obtain i rq T where "enqueue_locked t hint (rqs s g) ((tasks s)(t := tk)) = Some (i, rq, T)" and "core_inv (set_queue g rq T s)"
    "\<And>u. u \<noteq> t \<Longrightarrow> T u = tasks s u" "settled (T t)"
    using enqueue_section_inv [OF assms(1-9), of hint] by metis
  then show ?thesis using assms(10) by (simp add: addition_done_def)
qed

lemma enqueue_commit_finished:
  assumes inv: "sched_inv s" and kn: "t \<in> known s" and g: "g < MAX_HARTS"
  shows "addition_done t s (enqueue_commit t g hint s)"
proof (cases "not_addable (tasks s t)")
  case True
  then show ?thesis using inv by (auto simp: enqueue_commit_def not_addable_def settled_def addition_done_def sched_inv_core)
next
  case False
  have c: "core_inv s" using inv by (simp add: sched_inv_core)
  show ?thesis
    by (rule enqueue_finished [OF c kn g, where tk = "(tasks s t)\<lparr>task_status := Runnable, has_wait_reason := False, last_cpu := g, on_rq := True\<rparr>" and hint = hint])
      (use False in \<open>auto simp: not_addable_def same_attr_def enqueue_commit_def Let_def\<close>)
qed

lemma mark_task_woken_fields [simp]:
  "task_status (mark_task_woken tk) = Runnable" "on_rq (mark_task_woken tk) = on_rq tk" "on_cpu (mark_task_woken tk) = on_cpu tk"
  "last_cpu (mark_task_woken tk) = last_cpu tk" "same_attr tk (mark_task_woken tk)"
  "vruntime_ns (mark_task_woken tk) = vruntime_ns tk" "cfs_rq_key (mark_task_woken tk) = cfs_rq_key tk"
  by (simp_all add: mark_task_woken_def reset_time_slice_def same_attr_def Let_def)

lemma wake_commit_finished:
  assumes inv: "sched_inv s" and kn: "t \<in> known s" and g: "g < MAX_HARTS"
  shows "addition_done t s (wake_commit t g hint s)"
proof -
  have c: "core_inv s" using inv by (simp add: sched_inv_core)
  let ?tk = "tasks s t"
  consider (skip) "task_status ?tk \<in> {Running, Zombie} \<or> task_status ?tk = Runnable \<and> (on_rq ?tk \<or> on_cpu ?tk)"
    | (mark) "task_status ?tk \<notin> {Running, Zombie}" "task_status ?tk \<noteq> Runnable" "on_rq ?tk \<or> on_cpu ?tk"
    | (add) "task_status ?tk \<notin> {Running, Zombie}" "\<not> on_rq ?tk" "\<not> on_cpu ?tk" by blast
  then show ?thesis
  proof cases
    case skip
    then show ?thesis using c by (auto simp: wake_commit_def settled_def addition_done_def)
  next
    case mark
    let ?m = "?tk\<lparr>task_status := Runnable, has_wait_reason := False, current_wq_handle := None\<rparr>"
    have "sched_inv (s\<lparr>tasks := (tasks s)(t := ?m)\<rparr>)"
      by (rule mark_section_inv [OF inv kn]) (use mark in \<open>auto simp: same_attr_def asleep_def\<close>)
    then show ?thesis using mark by (auto simp: wake_commit_def set_task_def settled_def addition_done_def sched_inv_core)
  next
    case add
    show ?thesis
      by (rule enqueue_finished [OF c kn g, where tk = "(mark_task_woken ?tk)\<lparr>last_cpu := g, on_rq := True\<rparr>" and hint = hint])
        (use add mark_task_woken_fields(5) [of ?tk] in \<open>auto simp: same_attr_def wake_commit_def Let_def\<close>)
  qed
qed

section \<open>Ending an addition\<close>

lemma requeue_inv:
  assumes inv: "sched_inv s" and h: "h < MAX_HARTS" "acts s h = []" and x: "harts s h = HEnqueue t g"
  shows "sched_inv (set_hart h HIdle (enqueue_commit t g hint s))"
proof -
  note i = sched_invD [OF inv]
  have kn: "t \<in> known s" and g: "g < MAX_HARTS" using i(4) h(1) x by (auto simp: harts_ok_def)
  define s1 where "s1 = enqueue_commit t g hint s"
  have f: "addition_done t s s1" unfolding s1_def by (rule enqueue_commit_finished [OF inv kn g])
  then have c: "core_inv s1" by (simp add: addition_done_def)
  let ?s = "set_hart h HIdle s1"
  have x1: "harts s1 h = HEnqueue t g" using f x by (simp add: addition_done_def)
  have "owners_ok ?s"
    using core_invD(1) [OF c] queue_owners_hart [OF h(1), of "rqs s1" "harts s1" HIdle] hart_owners_hart [OF h(1), of "harts s1" HIdle] x1
    by (auto simp: owners_ok_def)
  moreover have "queues_ok ?s" using core_invD(2) [OF c] by (simp add: queues_ok_def)
  moreover have "tasks_ok ?s" using core_invD(3) [OF c] by (simp add: tasks_ok_def)
  moreover have "harts_ok ?s" using core_invD(4) [OF c] by (simp add: harts_ok_def)
  moreover have "acts_ok ?s" using h f by (intro acts_ok_cong [OF core_invD(5) [OF c]]) (auto simp: addition_done_def)
  moreover have "none_lost ?s"
    by (rule none_lost_settled [OF i(6), where t = t]) (use f x in \<open>auto simp: addition_done_def adding_def\<close>)
  ultimately show ?thesis using core_invD(6-8) [OF c] by (simp add: sched_inv_def s1_def)
qed

text \<open>The top activity of a hart ends, or goes on as another.\<close>

lemma acts_ok_step:
  assumes ok: "acts_ok s" and as: "acts s h = a # as" and r: "\<And>b. r = Some b \<Longrightarrow> act_ok s h b" and h: "h < MAX_HARTS"
  shows "acts_ok (set_acts h (case r of None \<Rightarrow> as | Some b \<Rightarrow> b # as) s)" (is "acts_ok ?s")
  unfolding acts_ok_def
proof (intro allI impI)
  fix g assume g: "g < MAX_HARTS"
  have c: "act_ok ?s g b = act_ok s g b" for b by (rule act_ok_cong) simp_all
  show "(acts ?s g \<noteq> [] \<longrightarrow> interruptible (harts ?s g)) \<and> (\<forall>b\<in>set (acts ?s g). act_ok ?s g b)"
    unfolding c using ok as r g by (cases "g = h") (auto simp: acts_ok_def split: option.splits)
qed

lemma core_set_acts: "core_inv s \<Longrightarrow> acts_ok (set_acts h as s) \<Longrightarrow> core_inv (set_acts h as s)"
  by (auto simp: core_inv_def owners_ok_def queues_ok_def tasks_ok_def harts_ok_def)

lemma adding_acts:
  assumes "adding s u" and "acts s h = a # as" and "adds a = Some u \<longrightarrow> Some u \<in> adds ` set bs" and "set as \<subseteq> set bs"
    and "harts s' = harts s" and "acts s' = (acts s)(h := bs)"
  shows "adding s' u"
proof -
  obtain g where g: "g < MAX_HARTS" "requeuing (harts s g) = Some u \<or> Some u \<in> adds ` set (acts s g)" using assms(1) by (auto simp: adding_def)
  have "requeuing (harts s' g) = Some u \<or> Some u \<in> adds ` set (acts s' g)"
    using g(2) assms(2-6) by (cases "g = h") auto
  then show ?thesis using g(1) by (auto simp: adding_def)
qed

lemma finished_act_inv:
  assumes inv: "sched_inv s" and h: "h < MAX_HARTS" and as: "acts s h = a # as" and a: "adds a = Some t" and f: "addition_done t s s'"
  shows "sched_inv (set_acts h as s')"
proof -
  have c: "core_inv s'" using f by (simp add: addition_done_def)
  have "acts_ok (set_acts h as s')"
    using acts_ok_step [OF core_invD(5) [OF c], of h a as None] f as h by (simp add: addition_done_def)
  then have "core_inv (set_acts h as s')" by (rule core_set_acts [OF c])
  moreover have "none_lost (set_acts h as s')"
  proof (rule none_lost_settled [OF sched_invD(6) [OF inv], where t = t])
    show "adding (set_acts h as s') u" if "u \<noteq> t" "adding s u" for u
      by (rule adding_acts [OF that(2) as, of as]) (use f a that(1) in \<open>auto simp: addition_done_def\<close>)
  qed (use f in \<open>simp_all add: addition_done_def\<close>)
  ultimately show ?thesis by (simp add: sched_inv_core)
qed

lemma act_inv:
  assumes inv: "sched_inv s" and h: "h < MAX_HARTS" and as: "acts s h = a # as" and r: "\<And>b. r = Some b \<Longrightarrow> act_ok s h b"
    and keep: "\<And>t. adds a = Some t \<Longrightarrow> settled (tasks s t) \<or> (\<exists>b. r = Some b \<and> adds b = Some t)"
  shows "sched_inv (set_acts h (case r of None \<Rightarrow> as | Some b \<Rightarrow> b # as) s)" (is "sched_inv ?s")
proof -
  note i = sched_invD [OF inv]
  have "core_inv ?s"
    by (rule core_set_acts) (use inv acts_ok_step [OF i(5) as r h] in \<open>simp_all add: sched_inv_core\<close>)
  moreover have "none_lost ?s"
    unfolding none_lost_def
  proof (intro ballI impI)
    fix u assume u: "u \<in> known ?s" "task_status (tasks ?s u) = Runnable"
    have "settled (tasks s u) \<or> adding ?s u" if "adding s u"
    proof (cases "settled (tasks s u)")
      case False
      have "adding ?s u"
        by (rule adding_acts [OF that as, of "case r of None \<Rightarrow> as | Some b \<Rightarrow> b # as"]) (use keep [of u] False in \<open>auto split: option.splits\<close>)
      then show ?thesis ..
    qed simp
    then show "on_rq (tasks ?s u) \<or> on_cpu (tasks ?s u) \<or> adding ?s u"
      using i(6) u by (auto simp: none_lost_def settled_def)
  qed
  ultimately show ?thesis by (simp add: sched_inv_core)
qed

end

