(* ===== verification/Scheduler_Safe.thy ===== *)
theory Scheduler_Safe
  imports Scheduler_Steps
begin

unbundle bit_operations_syntax

text \<open>
  The invariant holds after any sequence of events in which no attribute of a queued task is changed and no thread
  is killed by another; what it gives for the kernel's own checks.
\<close>

section \<open>Choosing a hart\<close>

lemma first_bit_le: "bit m i \<Longrightarrow> i < 64 \<Longrightarrow> first_bit m \<le> i"
proof (rule ccontr)
  assume b: "bit m i" "i < 64" "\<not> first_bit m \<le> i"
  let ?w = "takeWhile (\<lambda>i. \<not> bit m i) [0..<64]"
  have l: "i < length ?w" using b by (simp add: first_bit_def)
  have "?w ! i = i" using b(2) takeWhile_nth [OF l] by simp
  then have "i \<in> set ?w" using nth_mem [OF l] by simp
  then show False using b(1) set_takeWhileD by fastforce
qed

lemma bit_less: "bit (m :: nat) i \<Longrightarrow> m < 2 ^ n \<Longrightarrow> i < n"
proof (rule ccontr)
  assume b: "bit m i" "m < 2 ^ n" "\<not> i < n"
  then have "m < 2 ^ i" by (meson linorder_not_less order_less_le_trans power_increasing one_le_numeral)
  then show False using b(1) by (simp add: bit_iff_odd)
qed

lemma effective_mask:
  assumes "0 < onl" and "onl < 2 ^ MAX_HARTS"
  shows "\<And>i. bit (effective_affinity_mask this onl msk) i \<Longrightarrow> i < MAX_HARTS"
    and "first_bit (effective_affinity_mask this onl msk) < MAX_HARTS"
proof -
  let ?m = "effective_affinity_mask this onl msk"
  show b: "\<And>i. bit ?m i \<Longrightarrow> i < MAX_HARTS"
    using assms bit_less [OF _ assms(2)] by (auto simp: effective_affinity_mask_def Let_def bit_and_iff split: if_splits)
  have "?m \<noteq> 0" using assms(1) by (auto simp: effective_affinity_mask_def Let_def)
  then obtain i where i: "bit ?m i" using bit_eq_iff [of ?m 0] by auto
  show "first_bit ?m < MAX_HARTS"
    using first_bit_le [OF i] b [OF i] by (simp add: MAX_HARTS_def)
qed

lemma select_loop_lt:
  "best < MAX_HARTS \<Longrightarrow> (\<And>i. bit m i \<Longrightarrow> i < MAX_HARTS) \<Longrightarrow> select_loop Q m p hs best sc < MAX_HARTS"
  by (induction hs arbitrary: best sc) (auto simp: Let_def)

lemma normalize_lt [simp]: "normalize_hart h < MAX_HARTS"
  by (simp add: normalize_hart_def MAX_HARTS_def min_def)

lemma normalize_id [simp]: "h < MAX_HARTS \<Longrightarrow> normalize_hart h = h"
  by (simp add: normalize_hart_def)

lemma select_lt: "0 < online s \<Longrightarrow> online s < 2 ^ MAX_HARTS \<Longrightarrow> select_target_hart this p m pol s < MAX_HARTS"
  using effective_mask [of "online s"] by (auto simp: select_target_hart_def Let_def intro!: select_loop_lt)

section \<open>The task of a hart\<close>

lemma account_fields [simp]:
  "task_status (account_cfs_runtime now tk) = task_status tk" "on_rq (account_cfs_runtime now tk) = on_rq tk"
  "on_cpu (account_cfs_runtime now tk) = on_cpu tk" "last_cpu (account_cfs_runtime now tk) = last_cpu tk"
  "policy (account_cfs_runtime now tk) = policy tk" "rt_priority (account_cfs_runtime now tk) = rt_priority tk" "weight (account_cfs_runtime now tk) = weight tk"
  by (simp_all add: account_cfs_runtime_def Let_def)

lemma same_attr_refl [simp]: "same_attr tk tk"
  by (simp add: same_attr_def)

lemma take_inv:
  assumes "sched_inv s" and "h < MAX_HARTS" and "acts s h = []" and "held (harts s h) = Some t" and "held x = Some t" and "popped x = None"
    and "x = HExiting t \<longrightarrow> \<not> asleep (task_status (tasks s t))"
  shows "sched_inv (set_hart h x s)"
proof -
  note i = sched_invD [OF assms(1)]
  have o: "on_cpu (tasks s t)" "\<not> on_rq (tasks s t)" using held_on_cpu [OF i(1) assms(2,4)] by simp_all
  have l: "last_cpu (tasks s t) = h" using i(4) assms(2,4) by (auto simp: harts_ok_def)
  have r: "requeuing x = None" "\<forall>u g. x \<noteq> HEnqueue u g" using assms(5) by (cases x; simp)+
  show ?thesis
    by (rule own_section_inv [OF assms(1-3), of t x "tasks s t"]) (use assms(4-7) o l r in \<open>auto simp: set_hart_def\<close>)
qed

lemma own_task_inv:
  assumes inv: "sched_inv s" and h: "h < MAX_HARTS" "acts s h = []" and t: "held (harts s h) = Some t" and x: "held x = Some t"
    and tk: "on_cpu tk" "\<not> on_rq tk" "same_attr (tasks s t) tk" "last_cpu tk = last_cpu (tasks s t)"
    and e: "x = HExiting t \<longrightarrow> \<not> asleep (task_status tk)"
    and s': "s' = s\<lparr>tasks := (tasks s)(t := tk), harts := (harts s)(h := x)\<rparr>"
  shows "sched_inv s'"
proof -
  have l: "last_cpu (tasks s t) = h" using sched_invD(4) [OF inv] h t by (auto simp: harts_ok_def)
  have r: "popped x = None" "requeuing x = None" "\<forall>u g. x \<noteq> HEnqueue u g" using x by (cases x; simp)+
  show ?thesis by (rule own_section_inv [OF inv h, of t x tk]) (use t x tk e l r s' in auto)
qed

section \<open>Sections of a hart\<close>

named_theorems sections

lemma claim_inv [sections]:
  assumes inv: "sched_inv s" and h: "h < MAX_HARTS" "acts s h = []" and s': "dequeue_claim h s = Some s'"
  shows "sched_inv s'"
proof -
  obtain t where t: "harts s h = HPopped t"
    and e: "s' = set_hart h (if task_status (tasks s t) = Runnable then HClaimed t else HIdle) (set_task t (claim_task h) s)"
    using s' by (auto simp: dequeue_claim_def split: hart_state.splits)
  have o: "\<not> on_cpu (tasks s t)" using popped_on_rq [OF sched_invD(1) [OF inv] h(1), of t] t by simp
  show ?thesis
    by (rule own_section_inv [OF inv h, of t "if task_status (tasks s t) = Runnable then HClaimed t else HIdle" "claim_task h (tasks s t)"])
      (use t o e in \<open>auto simp: claim_task_def Let_def same_attr_def set_hart_def set_task_def\<close>)
qed

lemma steal_claim_inv [sections]:
  assumes inv: "sched_inv s" and h: "h < MAX_HARTS" "acts s h = []" and s': "steal_claim h s = Some s'"
  shows "sched_inv s'"
proof -
  obtain t where t: "harts s h = HStolen t"
    and e: "s' = set_hart h (if task_status (tasks s t) = Runnable then HClaimed t else HIdle)
      (set_task t (steal_claim_task h (min_vruntime_ns (rqs s (normalize_hart h)))) s)"
    using s' unfolding steal_claim_def by (auto split: hart_state.splits)
  have o: "\<not> on_cpu (tasks s t)" using popped_on_rq [OF sched_invD(1) [OF inv] h(1), of t] t by simp
  show ?thesis
    by (rule own_section_inv [OF inv h, of t "if task_status (tasks s t) = Runnable then HClaimed t else HIdle"
          "steal_claim_task h (min_vruntime_ns (rqs s (normalize_hart h))) (tasks s t)"])
      (use t o e in \<open>auto simp: steal_claim_task_def Let_def same_attr_def set_hart_def set_task_def\<close>)
qed

lemma run_inv [sections]:
  assumes inv: "sched_inv s" and h: "h < MAX_HARTS" "acts s h = []" and s': "run_claimed h now s = Some s'"
  shows "sched_inv s'"
proof -
  obtain t where t: "harts s h = HClaimed t" and e: "s' = set_hart h (HRun t) (set_task t (run_task h now) s)"
    using s' by (auto simp: run_claimed_def split: hart_state.splits)
  show ?thesis
    by (rule own_section_inv [OF inv h, of t "HRun t" "run_task h now (tasks s t)"])
      (use t e in \<open>auto simp: run_task_def Let_def same_attr_def set_hart_def set_task_def\<close>)
qed

lemma prepare_inv [sections]:
  assumes inv: "sched_inv s" and h: "h < MAX_HARTS" "acts s h = []" and s': "prepare_current h wq s = Some s'"
  shows "sched_inv s'"
proof -
  obtain t where t: "harts s h = HRun t" and e: "s' = set_task t (prepare_to_wait wq) s"
    using s' by (auto simp: prepare_current_def split: hart_state.splits)
  note o = held_on_cpu [OF sched_invD(1) [OF inv] h(1), of t]
  show ?thesis
    by (rule own_task_inv [OF inv h, of t "HRun t" "prepare_to_wait wq (tasks s t)"])
      (use t e o fun_upd_triv [of "harts s" h] in \<open>auto simp: prepare_to_wait_def same_attr_def set_task_def\<close>)
qed

lemma cancel_inv [sections]:
  assumes inv: "sched_inv s" and h: "h < MAX_HARTS" "acts s h = []" and s': "cancel_current h s = Some s'"
  shows "sched_inv s'"
proof -
  obtain t where t: "harts s h = HRun t" and e: "s' = set_task t cancel_prepared_wait s"
    using s' by (auto simp: cancel_current_def split: hart_state.splits)
  note o = held_on_cpu [OF sched_invD(1) [OF inv] h(1), of t]
  show ?thesis
    by (rule own_task_inv [OF inv h, of t "HRun t" "cancel_prepared_wait (tasks s t)"])
      (use t e o fun_upd_triv [of "harts s" h] in \<open>auto simp: cancel_prepared_wait_def same_attr_def set_task_def\<close>)
qed

lemma take_sections_inv [sections]:
  assumes inv: "sched_inv s" and h: "h < MAX_HARTS" "acts s h = []"
  shows "block_take h s = Some s' \<Longrightarrow> sched_inv s'" and "restore_current h s = Some s' \<Longrightarrow> sched_inv s'"
    and "park_current h s = Some s' \<Longrightarrow> sched_inv s'" and "release_take h s = Some s' \<Longrightarrow> sched_inv s'"
    and "exit_take h s = Some s' \<Longrightarrow> sched_inv s'" and "suspend_take h args s = Some s' \<Longrightarrow> sched_inv s'"
  by (auto simp: block_take_def restore_current_def park_current_def release_take_def exit_take_def suspend_take_def
      split: hart_state.splits bool.splits if_splits prod.splits intro!: take_inv [OF inv h])

lemma schedule_if_needed_inv [sections]:
  assumes "sched_inv s" and "h < MAX_HARTS" and "acts s h = []" and "schedule_if_needed h s = Some s'"
  shows "sched_inv s'"
  using assms(4) take_sections_inv(6) [OF assms(1-3)] assms(1) by (auto simp: schedule_if_needed_def split: hart_state.splits option.splits)

lemma block_inv [sections]:
  assumes inv: "sched_inv s" and h: "h < MAX_HARTS" "acts s h = []" and s': "block_current h now nanosleep s = Some s'"
  shows "sched_inv s'"
proof -
  obtain t where t: "harts s h = HBlocking t" using s' by (auto simp: block_current_def split: hart_state.splits)
  obtain bl bo tk where c: "block_commit now nanosleep (tasks s t) = ((bl, bo), tk)" by (metis prod.collapse)
  have e: "s' = set_hart h (if bl then HParking t bo else HRestoring t) (set_task t (\<lambda>_. tk) s)" using s' t c by (simp add: block_current_def)
  have o: "on_cpu (tasks s t)" "\<not> on_rq (tasks s t)" using held_on_cpu [OF sched_invD(1) [OF inv] h(1), of t] t by simp_all
  have "on_cpu tk" "\<not> on_rq tk" "same_attr (tasks s t) tk" "last_cpu tk = last_cpu (tasks s t)"
    using c o by (auto simp: block_commit_def Let_def same_attr_def split: if_splits)
  then show ?thesis
    by (intro own_task_inv [OF inv h, of t "if bl then HParking t bo else HRestoring t" tk]) (use t e in \<open>auto simp: set_hart_def set_task_def\<close>)
qed

lemma suspend_inv [sections]:
  assumes inv: "sched_inv s" and h: "h < MAX_HARTS" "acts s h = []" and s': "suspend_current h now s = Some s'"
  shows "sched_inv s'"
proof -
  obtain t p r d where t: "harts s h = HSuspending t p r d" and e: "s' = set_hart h (HSwitch t) (set_task t (suspend_commit now p r d) s)"
    using s' by (auto simp: suspend_current_def split: hart_state.splits)
  have o: "on_cpu (tasks s t)" "\<not> on_rq (tasks s t)" using held_on_cpu [OF sched_invD(1) [OF inv] h(1), of t] t by simp_all
  show ?thesis
    by (rule own_task_inv [OF inv h, of t "HSwitch t" "suspend_commit now p r d (tasks s t)"])
      (use t e o in \<open>auto simp: suspend_commit_def Let_def same_attr_def reset_time_slice_def set_hart_def set_task_def split: option.splits\<close>)
qed

lemma release_inv [sections]:
  assumes inv: "sched_inv s" and h: "h < MAX_HARTS" "acts s h = []" and s': "release_pending h s = Some s'"
  shows "sched_inv s'"
proof -
  obtain t where t: "harts s h = HReleasing t"
    and e: "s' = set_hart h (if task_status (tasks s t) = Runnable then HRequeue t else HIdle) (set_task t release_task s)"
    using s' by (auto simp: release_pending_def split: hart_state.splits)
  show ?thesis
    by (rule own_section_inv [OF inv h, of t "if task_status (tasks s t) = Runnable then HRequeue t else HIdle" "release_task (tasks s t)"])
      (use t e in \<open>auto simp: release_task_def same_attr_def set_hart_def set_task_def\<close>)
qed

lemma exit_inv [sections]:
  assumes inv: "sched_inv s" and h: "h < MAX_HARTS" "acts s h = []" and s': "exit_current h s = Some s'"
  shows "sched_inv s'"
proof -
  obtain t where t: "harts s h = HExiting t" and e: "s' = set_hart h (HStopping t) (set_task t exit_task s)"
    using s' by (auto simp: exit_current_def split: hart_state.splits)
  show ?thesis
    by (rule own_section_inv [OF inv h, of t "HStopping t" "exit_task (tasks s t)"])
      (use t e in \<open>auto simp: exit_task_def same_attr_def set_hart_def set_task_def\<close>)
qed

section \<open>Queues\<close>

lemma pop_inv [sections]:
  assumes inv: "sched_inv s" and h: "h < MAX_HARTS" "acts s h = []" and s': "dequeue_pop h s = Some s'"
  shows "sched_inv s'"
proof -
  have x: "harts s h = HIdle" using s' by (auto simp: dequeue_pop_def split: hart_state.splits)
  have ok: "rq_ok (rqs s h) (tasks s)" using sched_invD(2) [OF inv] h by (simp add: queues_ok_def)
  obtain r rq T where d: "dequeue_locked (rqs s h) (tasks s) = Some (r, rq, T)" and
    c: "case r of None \<Rightarrow> runnable_ptrs (rqs s h) = [] \<and> rq = rqs s h \<and> T = tasks s
      | Some t \<Rightarrow> kept t (rqs s h) (tasks s) rq T \<and> next_task (rqs s h) (tasks s) t
        \<and> mset (runnable_ptrs (rqs s h)) = add_mset t (mset (runnable_ptrs rq))"
    using dequeue_ok [OF ok] by blast
  show ?thesis
  proof (cases r)
    case None
    then have "s' = s" using s' x d c by (simp add: dequeue_pop_def set_queue_def)
    then show ?thesis using inv by simp
  next
    case (Some t)
    then have "s' = set_hart h (HPopped t) (set_queue h rq T s)" using s' x d by (simp add: dequeue_pop_def)
    then show ?thesis using take_section_inv [OF inv h x h(1), of t rq T "HPopped t"] c Some by simp
  qed
qed

lemma steal_inv [sections]:
  assumes inv: "sched_inv s" and h: "h < MAX_HARTS" "acts s h = []" and s': "steal_remove h src s = Some s'"
  shows "sched_inv s'"
proof -
  have x: "harts s h = HIdle" "src < MAX_HARTS" using s' by (auto simp: steal_remove_def split: if_splits)
  have ok: "rq_ok (rqs s src) (tasks s)" using sched_invD(2) [OF inv] x by (simp add: queues_ok_def)
  show ?thesis
  proof (cases "steal_key h (rqs s src) (tasks s)")
    case None
    then show ?thesis using s' inv by (auto simp: steal_remove_def split: if_splits)
  next
    case (Some k)
    obtain t rest where r: "om_remove k (cfs_tasks (rqs s src)) = (Some t, rest)"
    proof -
      have o: "om_ok (cfs_tasks (rqs s src))" using rq_okD(4) [OF ok] .
      obtain t where kt: "(k, t) \<in> set (cfs_tasks (rqs s src))"
        using Some by (auto simp: steal_key_def find_Some_iff in_set_conv_nth) (metis fst_conv nth_mem surj_pair)
      then have "map_of (cfs_tasks (rqs s src)) k = Some t" using om.lookup_iff [OF o, of k] by metis
      then show thesis using that om_remove_spec [OF o, of k] by (metis prod.collapse)
    qed
    obtain rq T where e: "remove_cfs_by_key k (rqs s src) (tasks s) = (Some t, rq, T)" "kept t (rqs s src) (tasks s) rq T"
      "mset (runnable_ptrs (rqs s src)) = add_mset t (mset (runnable_ptrs rq))"
      using remove_cfs_ok [OF ok r] by blast
    have "s' = set_hart h (HStolen t) (set_queue src rq T s)" using s' Some e(1) by (auto simp: steal_remove_def split: if_splits)
    then show ?thesis using take_section_inv [OF inv h x, of t rq T "HStolen t"] e by simp
  qed
qed

text \<open>Sections that change a queue but not what it holds.\<close>

lemma same_queue_inv:
  assumes inv: "sched_inv s" and h: "h < MAX_HARTS" "acts s h = []"
    and x: "held x = held (harts s h)" "popped x = popped (harts s h)" "requeuing x = requeuing (harts s h)" "\<forall>u. x \<noteq> HExiting u" "\<forall>u g. x \<noteq> HEnqueue u g"
    and q: "rq_ok rq T" "mset (runnable_ptrs rq) = mset (runnable_ptrs (rqs s h))"
    and T: "\<And>u. same_task (tasks s u) (T u)" "\<And>u. u \<notin> set (runnable_ptrs (rqs s h)) \<Longrightarrow> T u = tasks s u"
  shows "sched_inv (set_hart h x (set_queue h rq T s))" (is "sched_inv ?s")
proof -
  note i = sched_invD [OF inv]
  have fl: "on_rq (T u) = on_rq (tasks s u)" "on_cpu (T u) = on_cpu (tasks s u)" "last_cpu (T u) = last_cpu (tasks s u)"
    "task_status (T u) = task_status (tasks s u)" "same_attr (tasks s u) (T u)" for u
    using T(1) [of u] by (auto simp: same_task_def same_attr_def)
  have "owners_ok ?s"
    unfolding owners_ok_def
  proof
    fix u
    have "queue_owners ((rqs s)(h := rq)) ((harts s)(h := x)) u = queue_owners (rqs s) (harts s) u"
      using queue_owners_hart [OF h(1), of "(rqs s)(h := rq)" "harts s" x u] queue_owners_queue [OF h(1), of "rqs s" rq "harts s" u] x(2) q(2)
      by (simp add: queued_in_def)
    moreover have "hart_owners ((harts s)(h := x)) u = hart_owners (harts s) u" using hart_owners_hart [OF h(1), of "harts s" x u] x(1) by simp
    ultimately show "queue_owners (rqs ?s) (harts ?s) u = of_bool (on_rq (tasks ?s u)) \<and> hart_owners (harts ?s) u = of_bool (on_cpu (tasks ?s u))
        \<and> \<not> (on_rq (tasks ?s u) \<and> on_cpu (tasks ?s u))"
      using owners_okD [OF i(1), of u] fl by simp
  qed
  moreover have "queues_ok ?s"
    unfolding queues_ok_def
  proof (intro allI impI)
    fix f assume f: "f < MAX_HARTS"
    show "rq_ok (rqs ?s f) (tasks ?s)"
    proof (cases "f = h")
      case False
      have "T u = tasks s u" if u: "u \<in> set (runnable_ptrs (rqs s f))" for u
      proof (rule T(2), rule notI)
        assume "u \<in> set (runnable_ptrs (rqs s h))"
        then have "1 \<le> queued_in (rqs s h) u" "1 \<le> queued_in (rqs s f) u"
          using u by (metis queued_in_pos less_one not_less)+
        then have "2 \<le> queue_owners (rqs s) (harts s) u"
          using sum_two_le [OF f h(1) False, of "\<lambda>j. queued_in (rqs s j) u + of_bool (popped (harts s j) = Some u)"] by (simp add: queue_owners_def)
        then show False using owners_okD(1) [OF i(1), of u] by (cases "on_rq (tasks s u)") auto
      qed
      then have "rq_ok (rqs s f) T \<longleftrightarrow> rq_ok (rqs s f) (tasks s)" by (intro rq_ok_cong) simp
      then show ?thesis using False i(2) f by (simp add: queues_ok_def)
    qed (use q(1) in simp)
  qed
  moreover have "tasks_ok ?s" using i(3) fl(1,2,4) same_attr_valid [OF fl(5)] by (simp add: tasks_ok_def)
  moreover have "harts_ok ?s" using i(4) fl x h(1) by (auto simp: harts_ok_def)
  moreover have "acts_ok ?s" using h(2) by (intro acts_ok_cong [OF i(5)]) auto
  moreover have "none_lost ?s"
  proof -
    have "adding s u \<Longrightarrow> adding ?s u" for u using x(3) unfolding adding_def by fastforce
    then show ?thesis using i(6) fl by (auto simp: none_lost_def)
  qed
  ultimately show ?thesis using i(7,8,9) by (simp add: sched_inv_def)
qed

lemma boost_inv [sections]:
  assumes inv: "sched_inv s" and h: "h < MAX_HARTS" "acts s h = []" and s': "boost_current h ts s = Some s'"
  shows "sched_inv s'"
proof -
  note i = sched_invD [OF inv]
  obtain t where t: "harts s h = HParking t True" using s' by (auto simp: boost_current_def split: hart_state.splits bool.splits)
  obtain n rq T where b: "boost_process_cfs_tasks ts (rqs s h) (tasks s) = (n, rq, T)" by (metis prod_cases3)
  have e: "s' = set_hart h (HParking t False) (set_queue h rq T s)" using s' t b by (simp add: boost_current_def)
  have ok: "rq_ok (rqs s h) (tasks s)" using i(2) h by (simp add: queues_ok_def)
  note bo = boost_ok [OF ok cfs_length [OF i(2,3,1) h(1)] b]
  show ?thesis unfolding e by (rule same_queue_inv [OF inv h]) (use t bo in auto)
qed

lemma set_hart_triv: "harts s h = x \<Longrightarrow> set_hart h x s = s"
  by (auto simp: set_hart_def)

lemma rq_ok_stop: "rq_ok (rq\<lparr>stop_task := x\<rparr>) T = rq_ok rq T"
  by (simp add: rq_ok_def rt_ok_def cfs_ok_def)

lemma stop_inv [sections]:
  assumes inv: "sched_inv s" and h: "h < MAX_HARTS" "acts s h = []"
  shows "add_stopping_task h s = Some s' \<Longrightarrow> sched_inv s'" and "clear_stopping_task h s = Some s' \<Longrightarrow> sched_inv s'"
proof -
  have ok: "rq_ok (rqs s h) (tasks s)" using sched_invD(2) [OF inv] h by (simp add: queues_ok_def)
  have st: "sched_inv (set_hart h HIdle (set_queue h ((rqs s h)\<lparr>stop_task := r\<rparr>) (tasks s) s))"
    if "held (harts s h) = None" "popped (harts s h) = None" "requeuing (harts s h) = None" for r
    by (rule same_queue_inv [OF inv h]) (use that ok in \<open>simp_all add: rq_ok_stop runnable_ptrs_def\<close>)
  show "sched_inv s'" if "add_stopping_task h s = Some s'"
    using that st by (auto simp: add_stopping_task_def split: hart_state.splits)
  show "sched_inv s'" if c: "clear_stopping_task h s = Some s'"
  proof -
    have x: "harts s h = HIdle" using c by (auto simp: clear_stopping_task_def split: hart_state.splits)
    then have "s' = set_queue h ((rqs s h)\<lparr>stop_task := None\<rparr>) (tasks s) s" using c by (simp add: clear_stopping_task_def)
    then have "set_hart h HIdle (set_queue h ((rqs s h)\<lparr>stop_task := None\<rparr>) (tasks s) s) = s'" using x by (simp add: set_hart_triv)
    then show ?thesis using st [of None] x by simp
  qed
qed

lemma requeue_check_inv [sections]:
  assumes inv: "sched_inv s" and h: "h < MAX_HARTS" "acts s h = []" and s': "requeue_check h s = Some s'"
  shows "sched_inv s'"
proof -
  note i = sched_invD [OF inv]
  obtain t where t: "harts s h = HRequeue t" using s' by (auto simp: requeue_check_def split: hart_state.splits)
  have kn: "t \<in> known s" using i(4) h t by (auto simp: harts_ok_def)
  define x where "x = (if not_addable (tasks s t) then HIdle
    else HEnqueue t (select_target_hart h h (cpu_affinity_mask (tasks s t)) (policy (tasks s t)) s))"
  have e: "s' = set_hart h x s" using s' t by (simp add: requeue_check_def x_def)
  have x: "held x = None" "popped x = None" "\<forall>u. x \<noteq> HExiting u" by (auto simp: x_def)
  have r: "x = HIdle \<and> not_addable (tasks s t) \<or> (\<exists>g<MAX_HARTS. x = HEnqueue t g)" using select_lt [OF i(8,9)] by (auto simp: x_def)
  have "owners_ok s'"
    using i(1) queue_owners_hart [OF h(1), of "rqs s" "harts s" x] hart_owners_hart [OF h(1), of "harts s" x] t x by (auto simp: owners_ok_def e)
  moreover have "queues_ok s'" using i(2) by (simp add: queues_ok_def e)
  moreover have "tasks_ok s'" using i(3) by (simp add: tasks_ok_def e)
  moreover have "harts_ok s'" using i(4) x r kn by (auto simp: harts_ok_def e)
  moreover have "acts_ok s'" using h(2) by (intro acts_ok_cong [OF i(5)]) (auto simp: e)
  moreover have "none_lost s'"
    unfolding none_lost_def
  proof (intro ballI impI)
    fix u assume u: "u \<in> known s'" "task_status (tasks s' u) = Runnable"
    have "adding s' u \<or> settled (tasks s u)" if a: "adding s u"
    proof (cases "u = t")
      case True
      then show ?thesis using r h(1) by (auto simp: adding_def e settled_def not_addable_def)
    next
      case False
      obtain g where "g < MAX_HARTS" "requeuing (harts s g) = Some u \<or> Some u \<in> adds ` set (acts s g)" using a by (auto simp: adding_def)
      moreover from this have "g \<noteq> h" using t False h(2) by auto
      ultimately show ?thesis by (auto simp: adding_def e)
    qed
    then show "on_rq (tasks s' u) \<or> on_cpu (tasks s' u) \<or> adding s' u"
      using i(6) u by (auto simp: none_lost_def e settled_def)
  qed
  ultimately show ?thesis using i(7,8,9) by (simp add: sched_inv_def e)
qed

lemma requeue_section_inv [sections]:
  assumes "sched_inv s" and "h < MAX_HARTS" and "acts s h = []" and "requeue h hint s = Some s'"
  shows "sched_inv s'"
  using assms(4) requeue_inv [OF assms(1-3)] by (auto simp: requeue_def split: hart_state.splits)

section \<open>The task that runs\<close>

lemma current_held: "current x = Some t \<Longrightarrow> held x = Some t"
  by (cases x) auto

lemma current_mark_inv:
  assumes inv: "sched_inv s" and h: "h < MAX_HARTS" and t: "current (harts s h) = Some t"
    and tk: "on_rq tk = on_rq (tasks s t)" "on_cpu tk = on_cpu (tasks s t)" "last_cpu tk = last_cpu (tasks s t)" "same_attr (tasks s t) tk"
      "task_status tk = task_status (tasks s t)"
  shows "sched_inv (s\<lparr>tasks := (tasks s)(t := tk)\<rparr>)"
proof -
  note o = held_on_cpu [OF sched_invD(1) [OF inv] h current_held [OF t]]
  show ?thesis by (rule mark_section_inv [OF inv]) (use o tk owned_known [OF sched_invD(3) [OF inv]] in auto)
qed

lemma request_resched_inv: "sched_inv s \<Longrightarrow> h < MAX_HARTS \<Longrightarrow> sched_inv (request_resched h r s)"
  by (auto simp: request_resched_def set_task_def same_attr_def split: option.splits intro!: current_mark_inv)

lemma account_inv: "sched_inv s \<Longrightarrow> h < MAX_HARTS \<Longrightarrow> current (harts s h) = Some t \<Longrightarrow> sched_inv (set_task t (account_cfs_runtime now) s)"
  unfolding set_task_def by (rule current_mark_inv) (auto simp: same_attr_def)

lemma snapshot_inv: "sched_inv s \<Longrightarrow> sched_inv (snd (running_cfs_vruntime_snapshot h now s))"
  using account_inv [of s "normalize_hart h"] by (auto simp: running_cfs_vruntime_snapshot_def Let_def split: option.splits)

lemma preempt_inv:
  assumes "sched_inv s" and "h < MAX_HARTS"
  shows "sched_inv (maybe_preempt_current h now incoming s)"
proof (cases "current (harts s h)")
  case None
  then show ?thesis using assms by (simp add: maybe_preempt_current_def)
next
  case (Some t)
  define s1 where "s1 = (if policy (tasks s t) = Other then set_task t (account_cfs_runtime now) s else s)"
  have "sched_inv s1" using account_inv [OF assms Some] assms(1) by (simp add: s1_def)
  then show ?thesis using assms(1) request_resched_inv [OF _ assms(2)]
    unfolding maybe_preempt_current_def Let_def Some option.case s1_def [symmetric] by (simp split: option.splits)
qed

lemma tick_fields:
  "on_rq (tick_task rq now tk) = on_rq tk" "on_cpu (tick_task rq now tk) = on_cpu tk" "last_cpu (tick_task rq now tk) = last_cpu tk"
  "task_status (tick_task rq now tk) = task_status tk" "same_attr tk (tick_task rq now tk)"
  by (simp_all add: tick_task_def Let_def reset_time_slice_def same_attr_def split: sched_policy.splits)

lemma tick_inv: "sched_inv s \<Longrightarrow> h < MAX_HARTS \<Longrightarrow> sched_inv (on_timer_tick h now s)"
  by (auto simp: on_timer_tick_def set_task_def tick_fields split: option.splits intro!: current_mark_inv)

section \<open>Activities\<close>

lemma start_inv:
  assumes inv: "sched_inv s" and a: "act_ok s h a" and s': "start h a s = Some s'"
  shows "sched_inv s'"
proof -
  note i = sched_invD [OF inv]
  have x: "interruptible (harts s h)" and e: "s' = set_acts h (a # acts s h) s" using s' by (auto simp: start_def split: if_splits)
  have "acts_ok s'"
    unfolding acts_ok_def
  proof (intro allI impI)
    fix g assume g: "g < MAX_HARTS"
    have c: "act_ok s' g b = act_ok s g b" for b by (rule act_ok_cong) (simp_all add: e)
    show "(acts s' g \<noteq> [] \<longrightarrow> interruptible (harts s' g)) \<and> (\<forall>b\<in>set (acts s' g). act_ok s' g b)"
      unfolding c using i(5) x a g by (cases "g = h") (auto simp: acts_ok_def e)
  qed
  then have "core_inv s'" unfolding e by (intro core_set_acts) (use inv in \<open>auto simp: sched_inv_core\<close>)
  moreover have "none_lost s'"
  proof -
    have "adding s u \<Longrightarrow> adding s' u" for u unfolding adding_def e by fastforce
    then show ?thesis using i(6) by (auto simp: none_lost_def e)
  qed
  ultimately show ?thesis by (simp add: sched_inv_core)
qed

lemma spawn_inv:
  assumes inv: "sched_inv s" and h: "h < MAX_HARTS" and v: "valid_attr (tcb_new a)" and s': "section_of (Spawn h t a) s = Some s'"
  shows "sched_inv s'"
proof -
  note i = sched_invD [OF inv]
  have n: "t \<notin> known s" "card (known s) + 1 < 2 ^ 40" using s' by (auto split: if_splits)
  define s1 where "s1 = s\<lparr>tasks := (tasks s)(t := tcb_new a), known := insert t (known s)\<rparr>"
  have st: "s' = set_acts h (AAdd t h # acts s h) s1" "interruptible (harts s h)"
    using s' n by (auto simp: start_def s1_def [symmetric] split: if_splits) (simp add: s1_def)+
  have new: "\<not> on_rq (tcb_new a)" "\<not> on_cpu (tcb_new a)" "\<not> asleep (task_status (tcb_new a))" by (simp_all add: tcb_new_def asleep_def split: prod.splits)
  have old: "\<not> on_rq (tasks s t)" "\<not> on_cpu (tasks s t)" using i(3) n(1) by (auto simp: tasks_ok_def)
  have "owners_ok s'"
    using i(1) new old unfolding owners_ok_def by (simp add: st s1_def)
  moreover have "queues_ok s'"
    using queues_ok_update [OF i(2) not_on_rq_not_queued [OF i(1) old(1)], of "tcb_new a"] by (simp add: queues_ok_def st s1_def)
  moreover have "tasks_ok s'" using i(3) n v new by (auto simp: tasks_ok_def st s1_def)
  moreover have "harts_ok s'"
  proof -
    have "held (harts s g) \<noteq> Some t" if "g < MAX_HARTS" for g using held_on_cpu(1) [OF i(1) that] old(2) by blast
    then show ?thesis using i(4) new by (auto simp: harts_ok_def st s1_def)
  qed
  moreover have "acts_ok s'"
    unfolding acts_ok_def
  proof (intro allI impI)
    fix g assume g: "g < MAX_HARTS"
    have c: "act_ok s g b \<Longrightarrow> act_ok s' g b" for b by (cases b) (simp_all add: act_ok_def st s1_def)
    have "act_ok s' h (AAdd t h)" by (simp add: act_ok_def st s1_def)
    then show "(acts s' g \<noteq> [] \<longrightarrow> interruptible (harts s' g)) \<and> (\<forall>b\<in>set (acts s' g). act_ok s' g b)"
      using i(5) st(2) g c by (cases "g = h") (auto simp: acts_ok_def st(1) s1_def)
  qed
  moreover have "none_lost s'"
    unfolding none_lost_def
  proof (intro ballI impI)
    fix u assume u: "u \<in> known s'" "task_status (tasks s' u) = Runnable"
    have "adding s' t" using h by (auto simp: adding_def st s1_def)
    moreover have "adding s u \<Longrightarrow> adding s' u" unfolding adding_def st s1_def by fastforce
    ultimately show "on_rq (tasks s' u) \<or> on_cpu (tasks s' u) \<or> adding s' u"
      using i(6) u by (cases "u = t") (auto simp: none_lost_def st s1_def)
  qed
  ultimately show ?thesis using i(7,8,9) by (simp add: sched_inv_def st s1_def)
qed

lemma woken_inv:
  assumes inv: "sched_inv s" and kn: "t \<in> known s" and o: "on_rq (tasks s t) \<or> on_cpu (tasks s t)"
  shows "sched_inv (set_task t mark_task_woken s)"
  unfolding set_task_def by (rule mark_section_inv [OF inv kn]) (use o in \<open>auto simp: asleep_def\<close>)

text \<open>Where a section of an activity leaves the state.\<close>

lemma act_done_inv:
  assumes inv: "sched_inv s" and h: "h < MAX_HARTS" and as: "acts s h = a # as" and a: "adds a = None"
    and s': "sched_inv s'" "acts s' = acts s"
  shows "sched_inv (set_acts h as s')"
  using act_inv [OF s'(1) h, of a as None] as a s'(2) by simp

lemma wake_act_inv:
  assumes inv: "sched_inv s" and h: "h < MAX_HARTS" and as: "acts s h = AWake t # as" and w: "wakeup_task h t s = (r, s')"
  shows "sched_inv (set_acts h (case r of None \<Rightarrow> as | Some b \<Rightarrow> b # as) s')"
proof -
  note i = sched_invD [OF inv]
  let ?tk = "tasks s t"
  have ok: "act_ok s h (AWake t)" and x: "interruptible (harts s h)" using i(5) h as by (auto simp: acts_ok_def)
  then have kn: "t \<in> known s" by (simp add: act_ok_def)
  show ?thesis
  proof (cases "asleep (task_status ?tk) \<and> on_rq ?tk")
    case True
    then have e: "r = None" "s' = set_task t mark_task_woken s" using w by (auto simp: wakeup_task_def Let_def)
    have "sched_inv s'" unfolding e(2) by (rule woken_inv [OF inv kn]) (use True in simp)
    then show ?thesis using act_done_inv [OF inv h as, of s'] e by simp
  next
    case False
    have e: "s' = s" using w False by (auto simp: wakeup_task_def Let_def split: if_splits)
    have "act_ok s h b" if b: "r = Some b" for b
    proof (cases "asleep (task_status ?tk) \<and> on_cpu ?tk")
      case True
      then have b': "b = AResolve t (normalize_hart (last_cpu ?tk))" using w b False by (auto simp: wakeup_task_def Let_def)
      obtain g where g: "g < MAX_HARTS" "held (harts s g) = Some t" using on_cpu_held [OF i(1), of t] True by blast
      then have l: "last_cpu ?tk = g" using i(4) by (auto simp: harts_ok_def)
      have "harts s h = HRun t" if "g = h"
      proof -
        have "harts s h \<noteq> HExiting t" using i(4) h True by (auto simp: harts_ok_def)
        then show ?thesis using g(2) x that by (cases "harts s h") auto
      qed
      then show ?thesis using b' kn l g(1) by (simp add: act_ok_def)
    next
      case f: False
      then show ?thesis using w b False kn select_lt [OF i(8,9)] by (auto simp: wakeup_task_def Let_def act_ok_def split: if_splits)
    qed
    then show ?thesis unfolding e by (rule act_inv [OF inv h as]) auto
  qed
qed

lemma resolve_act_inv:
  assumes inv: "sched_inv s" and h: "h < MAX_HARTS" and as: "acts s h = AResolve t cpu # as" and w: "resolve_on_cpu_wake h t cpu s = (r, s')"
  shows "sched_inv (set_acts h (case r of None \<Rightarrow> as | Some b \<Rightarrow> b # as) s')"
proof -
  note i = sched_invD [OF inv]
  let ?tk = "tasks s t"
  have "act_ok s h (AResolve t cpu)" using i(5) h as by (auto simp: acts_ok_def)
  then have kn: "t \<in> known s" and cpu: "cpu < MAX_HARTS" and own: "cpu = h \<Longrightarrow> harts s h = HRun t" by (simp_all add: act_ok_def)
  consider (awake) "\<not> asleep (task_status ?tk)"
    | (queued) "asleep (task_status ?tk)" "on_rq ?tk"
    | (cur) "asleep (task_status ?tk)" "\<not> on_rq ?tk" "current (harts s cpu) = Some t"
    | (busy) "asleep (task_status ?tk)" "\<not> on_rq ?tk" "current (harts s cpu) \<noteq> Some t" "on_cpu ?tk"
    | (off) "asleep (task_status ?tk)" "\<not> on_rq ?tk" "current (harts s cpu) \<noteq> Some t" "\<not> on_cpu ?tk" by blast
  then show ?thesis
  proof cases
    case awake
    then show ?thesis using w act_done_inv [OF inv h as, of s] inv by (auto simp: resolve_on_cpu_wake_def Let_def)
  next
    case queued
    then have e: "r = None" "s' = set_task t mark_task_woken s" using w by (auto simp: resolve_on_cpu_wake_def Let_def)
    have "sched_inv s'" unfolding e(2) by (rule woken_inv [OF inv kn]) (use queued in simp)
    then show ?thesis using act_done_inv [OF inv h as, of s'] e by simp
  next
    case cur
    have o: "on_cpu ?tk" using held_on_cpu(1) [OF i(1) cpu current_held [OF cur(3)]] .
    let ?s = "set_task t mark_task_woken s"
    have e: "r = None" "s' = (if normalize_hart (last_cpu ?tk) = h then request_resched h Migration ?s else ?s)"
      using w cur by (auto simp: resolve_on_cpu_wake_def Let_def)
    have "sched_inv ?s" by (rule woken_inv [OF inv kn]) (use o in simp)
    then have "sched_inv s'" unfolding e(2) using request_resched_inv [OF _ h] by simp
    moreover have "acts s' = acts s" unfolding e(2) by (auto simp: request_resched_def split: option.splits)
    ultimately show ?thesis using act_done_inv [OF inv h as, of s'] e(1) by simp
  next
    case busy
    have "cpu \<noteq> h" using own busy(3) by auto
    then have "r = Some (ASpin t cpu (cpu_affinity_mask ?tk) (policy ?tk))" "s' = s"
      using w busy h by (auto simp: resolve_on_cpu_wake_def Let_def)
    then show ?thesis using act_inv [OF inv h as, of r] kn by (simp add: act_ok_def)
  next
    case off
    then have "r = Some (AWakeEnqueue t (select_target_hart h (last_cpu ?tk) (cpu_affinity_mask ?tk) (policy ?tk) s))" "s' = s"
      using w by (auto simp: resolve_on_cpu_wake_def Let_def)
    then show ?thesis using act_inv [OF inv h as, of r] kn select_lt [OF i(8,9)] by (simp add: act_ok_def)
  qed
qed

lemma act_top_inv:
  assumes inv: "sched_inv s" and h: "h < MAX_HARTS" and s': "act_top h hint s = Some s'"
  shows "sched_inv s'"
proof -
  note i = sched_invD [OF inv]
  obtain a as where as: "acts s h = a # as" using s' by (auto simp: act_top_def split: list.splits)
  obtain r s1 where st: "activity_step h hint a s = Some (r, s1)" and e: "s' = set_acts h (case r of None \<Rightarrow> as | Some b \<Rightarrow> b # as) s1"
    using s' as by (auto simp: act_top_def split: option.splits)
  have ok: "act_ok s h a" using i(5) h as by (auto simp: acts_ok_def)
  note sel = select_lt [OF i(8,9)]
  show ?thesis
  proof (cases a)
    case (AAdd t g)
    then have s1: "s1 = s" and r: "r = (if not_addable (tasks s t) then None
        else Some (AEnqueue t (select_target_hart h g (cpu_affinity_mask (tasks s t)) (policy (tasks s t)) s)))"
      using st by (auto split: if_splits)
    show ?thesis
      unfolding e s1
    proof (rule act_inv [OF inv h as])
      show "act_ok s h b" if "r = Some b" for b using that r ok AAdd sel by (auto simp: act_ok_def split: if_splits)
      show "settled (tasks s u) \<or> (\<exists>b. r = Some b \<and> adds b = Some u)" if "adds a = Some u" for u
        using that r AAdd by (auto simp: not_addable_def settled_def)
    qed
  next
    case (AEnqueue t g)
    then have "r = None" "addition_done t s s1" using st ok enqueue_commit_finished [OF inv, of t g hint] by (auto simp: act_ok_def)
    then show ?thesis unfolding e using finished_act_inv [OF inv h as, of t s1] AEnqueue by simp
  next
    case (AWake t)
    then show ?thesis unfolding e using wake_act_inv [OF inv h, of t as r s1] as st by simp
  next
    case (AResolve t cpu)
    then show ?thesis unfolding e using resolve_act_inv [OF inv h, of t cpu as r s1] as st by simp
  next
    case (ASpin t cpu m pol)
    then have "s1 = s" "r = Some (AWakeEnqueue t (select_target_hart h cpu m pol s))" using st by (auto split: if_splits)
    then show ?thesis unfolding e using act_inv [OF inv h as, of r] ok ASpin sel by (simp add: act_ok_def)
  next
    case (ARepair t cpu m pol)
    then have "s1 = s" "r = (if task_is_current_on_any_hart t s then None else Some (AWakeEnqueue t (select_target_hart h cpu m pol s)))"
      using st by (auto split: if_splits)
    then show ?thesis unfolding e using act_inv [OF inv h as, of r] ok ARepair sel
      by (cases "task_is_current_on_any_hart t s") (simp_all add: act_ok_def)
  next
    case (AWakeEnqueue t g)
    then have "r = None" "addition_done t s s1" using st ok wake_commit_finished [OF inv, of t g hint] by (auto simp: act_ok_def)
    then show ?thesis unfolding e using finished_act_inv [OF inv h as, of t s1] AWakeEnqueue by simp
  qed (use ok in \<open>simp_all add: act_ok_def\<close>)
qed

section \<open>Any run\<close>

text \<open>
  The events of an ordinary run: tasks are created with valid attributes, and no attribute is changed and no
  thread killed from outside.
\<close>

fun ordinary :: "event \<Rightarrow> bool" where
  "ordinary (Spawn _ _ a) = valid_attr (tcb_new a)"
| "ordinary (SetPriority _ _ _ _) = False"
| "ordinary (Kill _ _) = False"
| "ordinary _ = True"

lemma own_sections_inv:
  assumes "sched_inv s" and "h < MAX_HARTS" and "acts s h = []" and "hart_of e = h" and "\<not> nested e" and "section_of e s = Some s'"
  shows "sched_inv s'"
  using assms by (cases e; simp?) (rule sections; assumption)+

lemma exec_inv:
  assumes inv: "sched_inv s" and o: "ordinary e" and s': "exec e s = Some s'"
  shows "sched_inv s'"
proof -
  have h: "hart_of e < MAX_HARTS" and own: "\<not> nested e \<Longrightarrow> acts s (hart_of e) = []" and x: "section_of e s = Some s'"
    using s' by (auto simp: exec_def split: if_splits)
  show ?thesis
  proof (cases "nested e")
    case False
    show ?thesis using own_sections_inv [OF inv h own [OF False] refl False x] .
  next
    case True
    then show ?thesis
    proof (cases e)
      case (Spawn g t a)
      then show ?thesis using spawn_inv [OF inv, of g a t] x h o by simp
    next
      case (Wake g t)
      then show ?thesis using start_inv [OF inv, of g "AWake t"] x by (auto simp: act_ok_def split: if_splits)
    next
      case (Act g hint)
      then show ?thesis using act_top_inv [OF inv] x h by auto
    qed (use True x h o tick_inv [OF inv] snapshot_inv [OF inv] request_resched_inv [OF inv] preempt_inv [OF inv] in auto)
  qed
qed

lemma exec_all_inv: "sched_inv s \<Longrightarrow> list_all ordinary es \<Longrightarrow> exec_all es s = Some s' \<Longrightarrow> sched_inv s'"
  by (induction es arbitrary: s) (auto split: option.splits dest: exec_inv)

lemma init_inv:
  assumes "0 < onl" and "onl < 2 ^ MAX_HARTS"
  shows "sched_inv (sched_init onl)"
proof -
  have z: "queue_owners (\<lambda>_. run_queue_new) (\<lambda>_. HIdle) t = 0" "hart_owners (\<lambda>_. HIdle) t = 0" for t
    by (simp_all add: queue_owners_def hart_owners_def queued_in_def runnable_ptrs_def run_queue_new_def)
  have n: "\<not> on_rq (tcb_new a)" "\<not> on_cpu (tcb_new a)" "\<not> asleep (task_status (tcb_new a))" for a
    by (simp_all add: tcb_new_def asleep_def split: prod.splits)
  show ?thesis
    using assms rq_new_ok
    by (simp add: sched_inv_def sched_init_def owners_ok_def queues_ok_def tasks_ok_def harts_ok_def acts_ok_def none_lost_def z n)
qed

section \<open>What the kernel checks\<close>

lemma all_runnable_mset: "mset (map snd (all_runnable s)) = (\<Sum>h<MAX_HARTS. mset (runnable_ptrs (rqs s h)))"
proof -
  have "mset (map snd (concat (map (\<lambda>h. map (Pair h) (runnable_ptrs (rqs s h))) [0..<n]))) = (\<Sum>h<n. mset (runnable_ptrs (rqs s h)))" for n
    by (induction n) (simp_all add: comp_def)
  then show ?thesis by (simp add: all_runnable_def)
qed

lemma runnable_count: "owners_ok s \<Longrightarrow> count (mset (map snd (all_runnable s))) t \<le> of_bool (on_rq (tasks s t))"
proof -
  assume o: "owners_ok s"
  have "count (mset (map snd (all_runnable s))) t = (\<Sum>h<MAX_HARTS. queued_in (rqs s h) t)"
    unfolding all_runnable_mset count_sum queued_in_def ..
  also have "\<dots> \<le> queue_owners (rqs s) (harts s) t" unfolding queue_owners_def by (rule sum_mono) simp
  finally show ?thesis using owners_okD(1) [OF o, of t] by simp
qed

lemma distinct_count: "(\<And>t. count (mset xs) t \<le> 1) \<Longrightarrow> distinct xs"
  unfolding distinct_count_atmost_1 using count_greater_eq_one_iff [of "mset xs"] by (simp add: le_antisym count_eq_zero_iff)

lemma runnable_distinct: "owners_ok s \<Longrightarrow> distinct (map snd (all_runnable s))"
  by (rule distinct_count, rule order_trans [OF runnable_count]) simp_all

lemma inv_check: "sched_inv s \<Longrightarrow> check_sched_invariants s"
proof -
  assume inv: "sched_inv s"
  note i = sched_invD [OF inv]
  have one: "current (harts s b) \<noteq> Some p" if "a < MAX_HARTS" "b < MAX_HARTS" "a \<noteq> b" "current (harts s a) = Some p" for a b p
    using held_unique [OF i(1) that(1,2) current_held [OF that(4)]] current_held that(3) by metis
  have two: "snd e \<noteq> p" if "a < MAX_HARTS" "current (harts s a) = Some p" "e \<in> set (all_runnable s)" for a p e
  proof
    assume "snd e = p"
    then have "p \<in># mset (map snd (all_runnable s))" using that(3) by force
    then have "1 \<le> count (mset (map snd (all_runnable s))) p" unfolding count_greater_eq_one_iff .
    from order_trans [OF this runnable_count [OF i(1)]] have "on_rq (tasks s p)" by (cases "on_rq (tasks s p)") simp_all
    then show False using held_on_cpu(2) [OF i(1) that(1) current_held [OF that(2)]] by simp
  qed
  have three: "snd (all_runnable s ! x) \<noteq> snd (all_runnable s ! y)" if "x < y" "y < length (all_runnable s)" for x y
    using nth_eq_iff_index_eq [OF runnable_distinct [OF i(1)], of x y] that by simp
  show ?thesis
    unfolding check_sched_invariants_def Let_def
    using one two three by (auto simp: list_all_iff split: option.splits)
qed

end
