(* ===== verification/Scheduler_Races.thy ===== *)
theory Scheduler_Races
  imports Scheduler_Safe
begin

text \<open>
  The sections outside ordinary runs: \<open>sys_setpriority\<close> on a task that another hart is taking from its queue, and the end of a
  process with a thread that goes to sleep. The lemmas follow the sections from any state of an ordinary run.
\<close>

section \<open>Sections one after the other\<close>

lemma exec_all_append: "exec_all (es @ fs) s = (case exec_all es s of None \<Rightarrow> None | Some s' \<Rightarrow> exec_all fs s')"
  by (induction es arbitrary: s) (simp_all split: option.split)

lemma set_acts_twice [simp]: "set_acts g a (set_acts g b s) = set_acts g a s"
  by (simp add: set_acts_def)

lemma exec_own: "\<not> panicked s \<Longrightarrow> hart_of e < MAX_HARTS \<Longrightarrow> acts s (hart_of e) = [] \<Longrightarrow> exec e s = section_of e s"
  by (simp add: exec_def)

lemma exec_act:
  assumes "\<not> panicked s" and "g < MAX_HARTS" and "acts s g = [a]" and "activity_step g hint a s = Some (r, s')"
  shows "exec (Act g hint) s = Some (set_acts g (case r of None \<Rightarrow> [] | Some b \<Rightarrow> [b]) s')"
  using assms by (simp add: exec_def act_top_def)

section \<open>A task that no queue holds\<close>

lemma dequeue_key:
  assumes ok: "rq_ok rq T" and d: "dequeue_locked rq T = Some (Some t, rq', T')"
  shows "policy (T' t) = Other \<longrightarrow> cfs_rq_key (T' t) = None"
proof -
  obtain r rq1 where r: "dequeue_highest_rt rq = Some (r, rq1)" using d by (auto simp: dequeue_locked_def split: bind_splits)
  show ?thesis
  proof (cases r)
    case None
    then show ?thesis using d r by (auto simp: dequeue_locked_def dequeue_leftmost_cfs_def remove_cfs_by_key_def split: option.splits prod.splits)
  next
    case (Some x)
    then have x: "t = x" "T' = T" using d r by (simp_all add: dequeue_locked_def)
    obtain p q where "idx (rt_queues rq) p = Some (x # q)"
      using r Some by (auto simp: dequeue_highest_rt_def split: option.splits bind_splits list.splits)
    then have "x \<in> set (concat (rt_queues rq))" by (auto simp only: idx_def in_concat_nth split: if_splits intro!: exI [of _ p]) simp
    then have "is_rt (policy (T x))" by (rule rt_tasks_policy [OF ok])
    then show ?thesis using x by (auto simp: is_rt_def)
  qed
qed

lemma rq_remove_absent:
  assumes "rq_ok rq T" and "valid_attr (T t)" and "t \<notin> set (runnable_ptrs rq)" and "policy (T t) = Other \<longrightarrow> cfs_rq_key (T t) = None"
  shows "rq_remove_task t rq T = Some (False, rq, T)"
proof (cases "policy (T t) = Other")
  case True
  then have "find (\<lambda>(_, queued). queued = t) (cfs_tasks rq) = None" using assms(3) by (force simp: find_None_iff runnable_ptrs_def)
  then show ?thesis using True assms(4) by (simp add: rq_remove_task_def)
next
  case False
  then have "rt_priority (T t) < length (rt_queues rq)" "is_rt (policy (T t))"
    using assms(2) rq_okD(1) [OF assms(1)] by (auto simp: valid_attr_def is_rt_def RT_QUEUE_LEVELS_def split: sched_policy.splits)
  moreover from this have "t \<notin> set (rt_queues rq ! rt_priority (T t))" using assms(3) by (auto simp: runnable_ptrs_def)
  ultimately show ?thesis by (cases "policy (T t)") (auto simp: rq_remove_task_def is_rt_def)
qed

lemma scan_absent:
  "\<forall>k\<in>set ks. rq_remove_task t (rqs s k) (tasks s) = Some (False, rqs s k, tasks s) \<Longrightarrow> scan_queues t ks s = s"
proof (induction ks)
  case (Cons k ks)
  have e: "set_queue k (rqs s k) (tasks s) s = s" by (simp add: set_queue_def)
  show ?case using Cons by (simp add: e)
qed simp

text \<open>Adding a task that is in no queue.\<close>

lemma enqueue_any:
  assumes q: "queues_ok s" "tasks_ok s" "owners_ok s" and k: "k < MAX_HARTS" and out: "\<And>f. f < MAX_HARTS \<Longrightarrow> t \<notin> set (runnable_ptrs (rqs s f))"
    and a: "valid_attr tk"
  shows "\<exists>i rq T. enqueue_locked t hint (rqs s k) ((tasks s)(t := tk)) = Some (i, rq, T) \<and> t \<in> set (runnable_ptrs rq)
    \<and> task_status (T t) = task_status tk"
proof -
  have "rq_ok (rqs s k) ((tasks s)(t := tk))" using queues_ok_update [OF q(1) out] k by (simp add: queues_ok_def)
  from enqueue_ok [OF this _ out [OF k] cfs_length [OF q k], of hint] obtain i rq T where
    e: "enqueue_locked t hint (rqs s k) ((tasks s)(t := tk)) = Some (i, rq, T)" "kept t (rqs s k) ((tasks s)(t := tk)) rq T"
      "mset (runnable_ptrs rq) = add_mset t (mset (runnable_ptrs (rqs s k)))" using a by auto
  have "t \<in> set (runnable_ptrs rq)" using e(3) by (metis set_mset_mset union_single_eq_member)
  moreover have "task_status (T t) = task_status tk" using e(2) by (auto simp: kept_def touched_def)
  ultimately show ?thesis using e(1) by blast
qed

text \<open>The kernel's own check refuses a state in which a task runs and is queued.\<close>

lemma queued_current_refused:
  assumes "current (harts s h) = Some t" and "h < MAX_HARTS" and "k < MAX_HARTS" and "t \<in> set (runnable_ptrs (rqs s k))"
  shows "\<not> check_sched_invariants s"
proof -
  have "(k, t) \<in> set (all_runnable s)" using assms(3,4) by (auto simp: all_runnable_def)
  then have "\<not> list_all (\<lambda>e. snd e \<noteq> t) (all_runnable s)" by (force simp: list_all_iff)
  moreover have "map (\<lambda>h. current (harts s h)) [0..<MAX_HARTS] ! h = Some t" using assms(1,2) by simp
  ultimately show ?thesis using assms(2) unfolding check_sched_invariants_def Let_def list_all_iff [of _ "[0..<MAX_HARTS]"] by force
qed

section \<open>Changing the priority of a task that is being taken\<close>

definition priority_race :: "nat \<Rightarrow> nat \<Rightarrow> nat \<Rightarrow> int \<Rightarrow> nat \<Rightarrow> nat \<Rightarrow> event list" where
  "priority_race h g t n w now =
     [SetPriority g t n w, Act g None, Pop h, Act g None, Act g None, Act g None, Act g None, Act g None, Claim h, Run h now]"

lemma priority_race_steps:
  assumes inv: "sched_inv s" and hg: "h < MAX_HARTS" "g < MAX_HARTS" "g \<noteq> h" and w: "w \<le> 88761"
    and idle: "harts s h = HIdle" "interruptible (harts s g)" "acts s h = []" "acts s g = []"
    and d: "dequeue_locked (rqs s h) (tasks s) = Some (Some t, rq, T)" and r: "task_status (tasks s t) = Runnable"
  shows "\<exists>s' k. exec_all (priority_race h g t n w now) s = Some s' \<and> \<not> panicked s' \<and> current (harts s' h) = Some t
    \<and> k < MAX_HARTS \<and> t \<in> set (runnable_ptrs (rqs s' k))"
proof -
  note i = sched_invD [OF inv]
  define b where "b = set_hart h (HPopped t) (set_queue h rq T s)"
  have pop: "dequeue_pop h s = Some b" by (simp add: dequeue_pop_def idle(1) d b_def)
  have "sched_inv b" by (rule exec_inv [OF inv, of "Pop h"]) (use i(7) hg idle pop in \<open>simp_all add: exec_def\<close>)
  note j = sched_invD [OF this]
  have ph: "popped (harts b h) = Some t" by (simp add: b_def)
  note own = popped_on_rq [OF j(1) hg(1) ph]
  have ok: "rq_ok (rqs s h) (tasks s)" using i(2) hg(1) by (simp add: queues_ok_def)
  have tch: "touched t (tasks s) T" "mset (runnable_ptrs (rqs s h)) = add_mset t (mset (runnable_ptrs rq))"
    using dequeue_ok [OF ok] d by (auto simp: kept_def)
  then have same: "on_rq (T t) = on_rq (tasks s t)" "on_cpu (T t) = on_cpu (tasks s t)" "task_status (T t) = Runnable" using r by (auto simp: touched_def)
  have on: "on_rq (tasks s t)" "\<not> on_cpu (tasks s t)" using own(1,2) same by (simp_all add: b_def)
  have kn: "t \<in> known s" using owned_known [OF i(3)] on by blast
  have va: "valid_attr (T t)" using j(3) kn by (simp add: tasks_ok_def b_def)
  have key: "policy (T t) = Other \<longrightarrow> cfs_rq_key (T t) = None" by (rule dequeue_key [OF ok d])
  let ?tk = "(unlink_task (T t))\<lparr>nice := n, weight := w\<rparr>"
  have vk: "valid_attr ?tk" using va w by (auto simp: valid_attr_def unlink_task_def split: sched_policy.splits)
  define l where "l = last_cpu (tasks s t)"
  have scan: "scan_queues t [0..<MAX_HARTS] (set_acts g as b) = set_acts g as b" for as
  proof (rule scan_absent, intro ballI)
    fix f assume "f \<in> set [0..<MAX_HARTS]"
    then have "rq_ok (rqs b f) (tasks b)" "t \<notin> set (runnable_ptrs (rqs b f))" using j(2) own(3) [of f] by (auto simp: queues_ok_def)
    then have "rq_remove_task t (rqs b f) (tasks b) = Some (False, rqs b f, tasks b)" using va key by (intro rq_remove_absent) (simp_all add: b_def)
    then show "rq_remove_task t (rqs (set_acts g as b) f) (tasks (set_acts g as b)) = Some (False, rqs (set_acts g as b) f, tasks (set_acts g as b))" by simp
  qed
  define c where "c = set_task t (\<lambda>tk. tk\<lparr>nice := n, weight := w\<rparr>) (set_task t unlink_task b)"
  have ct: "tasks c = T(t := ?tk)" "rqs c = rqs b" "harts c = harts b" "acts c = acts s" "online c = online s" "\<not> panicked c"
    using i(7) by (simp_all add: c_def b_def)
  define k where "k = select_target_hart g l (cpu_affinity_mask ?tk) (policy ?tk) (set_acts g [AAdd t l] c)"
  have k: "k < MAX_HARTS" unfolding k_def using i(8,9) by (intro select_lt) (simp_all add: ct)
  have addable: "\<not> not_addable ?tk" using on same by (simp add: not_addable_def unlink_task_def)
  let ?tq = "?tk\<lparr>task_status := Runnable, has_wait_reason := False, last_cpu := k, on_rq := True\<rparr>"
  have "valid_attr ?tq" using same_attr_valid [of ?tk ?tq] vk by (simp add: same_attr_def)
  then obtain e rq' T' where e: "enqueue_locked t None (rqs b k) ((tasks b)(t := ?tq)) = Some (e, rq', T')" "t \<in> set (runnable_ptrs rq')"
      "task_status (T' t) = Runnable"
    using enqueue_any [OF j(2,3,1) k own(3), of ?tq None] by auto
  have enq: "enqueue_commit t k None (set_acts g [AEnqueue t k] c) = set_queue k rq' T' (set_acts g [AEnqueue t k] c)"
    using addable e(1) by (simp add: enqueue_commit_def ct b_def)
  have gh: "acts (set_acts g as c) h = []" for as using hg(3) idle(3) by (simp add: ct)
  have np: "\<not> panicked b" using i(7) by (simp add: b_def)
  have "exec_all [SetPriority g t n w, Act g None, Pop h] s = Some (set_acts g [APrioRemove t n w l] b)"
  proof -
    have "exec (SetPriority g t n w) s = Some (set_acts g [APrio t n w] s)" using i(7) hg(2) kn idle by (simp add: exec_def start_def)
    moreover have "exec (Act g None) (set_acts g [APrio t n w] s) = Some (set_acts g [APrioRemove t n w l] s)"
      using i(7) hg(2) on by (simp add: exec_act [where a = "APrio t n w"] l_def)
    moreover have "exec (Pop h) (set_acts g [APrioRemove t n w l] s) = Some (set_acts g [APrioRemove t n w l] b)"
      using i(7) hg idle d by (simp add: exec_def dequeue_pop_def b_def set_acts_def set_hart_def set_queue_def)
    ultimately show ?thesis by simp
  qed
  moreover have "exec_all [Act g None, Act g None, Act g None, Act g None, Act g None] (set_acts g [APrioRemove t n w l] b) = Some (set_acts g [] (set_queue k rq' T' c))"
  proof -
    have "exec (Act g None) (set_acts g [APrioRemove t n w l] b) = Some (set_acts g [APrioUnlink t n w l] b)"
      using np hg(2) by (simp add: exec_act [where a = "APrioRemove t n w l"] scan)
    moreover have "exec (Act g None) (set_acts g [APrioUnlink t n w l] b) = Some (set_acts g [APrioSet t n w (Some l)] (set_task t unlink_task b))"
      using np hg(2) by (simp add: exec_act [where a = "APrioUnlink t n w l"]; simp add: set_acts_def set_task_def)
    moreover have "exec (Act g None) (set_acts g [APrioSet t n w (Some l)] (set_task t unlink_task b)) = Some (set_acts g [AAdd t l] c)"
      using np hg(2) by (simp add: exec_act [where a = "APrioSet t n w (Some l)"] c_def; simp add: set_acts_def set_task_def)
    moreover have "exec (Act g None) (set_acts g [AAdd t l] c) = Some (set_acts g [AEnqueue t k] c)"
      using ct(6) hg(2) addable by (simp add: exec_act [where a = "AAdd t l"] ct(1); simp add: k_def)
    moreover have "exec (Act g None) (set_acts g [AEnqueue t k] c) = Some (set_acts g [] (set_queue k rq' T' c))"
      using ct(6) hg(2) enq by (simp add: exec_act [where a = "AEnqueue t k"]; simp add: set_acts_def set_queue_def)
    ultimately show ?thesis by simp
  qed
  moreover define z where "z = set_acts g [] (set_queue k rq' T' c)"
  have "exec_all [Claim h, Run h now] z = Some (set_hart h (HRun t) (set_task t (run_task h now) (set_hart h (HClaimed t) (set_task t (claim_task h) z))))"
  proof -
    have zh: "\<not> panicked z" "acts z h = []" "harts z h = HPopped t" "task_status (tasks z t) = Runnable"
      using ct(6) hg(3) idle(3) e(3) by (simp_all add: z_def ct(3,4)) (simp add: b_def)
    then show ?thesis using hg(1) by (simp add: exec_def dequeue_claim_def run_claimed_def)
  qed
  ultimately have "exec_all (priority_race h g t n w now) s
      = Some (set_hart h (HRun t) (set_task t (run_task h now) (set_hart h (HClaimed t) (set_task t (claim_task h) z))))"
    unfolding priority_race_def z_def
    using exec_all_append [of "[SetPriority g t n w, Act g None, Pop h]" "[Act g None, Act g None, Act g None, Act g None, Act g None] @ [Claim h, Run h now]" s]
      exec_all_append [of "[Act g None, Act g None, Act g None, Act g None, Act g None]" "[Claim h, Run h now]" "set_acts g [APrioRemove t n w l] b"]
    by (simp only: append.simps option.case)
  then show ?thesis using k e(2) ct(6) by (intro exI [of _ k] exI conjI) (assumption | simp add: z_def)+
qed

section \<open>A killed thread that goes to sleep\<close>

definition kill_race :: "nat \<Rightarrow> nat \<Rightarrow> nat \<Rightarrow> nat \<Rightarrow> nat \<Rightarrow> event list" where
  "kill_race h g t wq now =
     [Kill g t, Act g None, Prepare h wq, TakeBlock h, Block h now False, Park h, TakeRelease h, Release h, Wake g t, Act g None, Act g None]"

lemma kill_race_steps:
  assumes inv: "sched_inv s" and hg: "h < MAX_HARTS" "g < MAX_HARTS" "g \<noteq> h"
    and run: "harts s h = HRun t" "interruptible (harts s g)" "acts s h = []" "acts s g = []"
  shows "map_option (\<lambda>s'. task_status (tasks s' t)) (exec_all (take 2 (kill_race h g t wq now)) s) = Some Zombie"
    and "\<exists>s' k. exec_all (kill_race h g t wq now) s = Some s' \<and> \<not> panicked s' \<and> task_status (tasks s' t) = Runnable
      \<and> k < MAX_HARTS \<and> t \<in> set (runnable_ptrs (rqs s' k))"
proof -
  note i = sched_invD [OF inv]
  have hd: "held (harts s h) = Some t" by (simp add: run)
  note own = held_on_cpu [OF i(1) hg(1) hd]
  have out: "t \<notin> set (runnable_ptrs (rqs s f))" if "f < MAX_HARTS" for f by (rule not_on_rq_not_queued [OF i(1) own(2) that])
  have kn: "t \<in> known s" using owned_known [OF i(3)] own by blast
  have va: "valid_attr (tasks s t)" using i(3) kn by (simp add: tasks_ok_def)
  define s1 where "s1 = set_task t kill_task s"
  have e1: "exec_all [Kill g t, Act g None] s = Some (set_acts g [] s1)"
  proof -
    have "exec (Kill g t) s = Some (set_acts g [AKill t] s)" using i(7) hg(2) kn run by (simp add: exec_def start_def)
    moreover have "exec (Act g None) (set_acts g [AKill t] s) = Some (set_acts g [] s1)"
      using i(7) hg(2) own(1) by (simp add: exec_act [where a = "AKill t"] s1_def set_acts_def set_task_def)
    ultimately show ?thesis by simp
  qed
  have "set_acts g [] s1 = s1" using run(4) by (simp add: s1_def set_acts_def set_task_def fun_upd_idem)
  then have e1: "exec_all [Kill g t, Act g None] s = Some s1" using e1 by simp
  have z: "task_status (tasks s1 t) = Zombie" by (simp add: s1_def kill_task_def)
  show "map_option (\<lambda>s'. task_status (tasks s' t)) (exec_all (take 2 (kill_race h g t wq now)) s) = Some Zombie"
    using e1 z by (simp add: kill_race_def)
  define tk where "tk = release_task (snd (block_commit now False (prepare_to_wait wq (kill_task (tasks s t)))))"
  have tk: "task_status tk = Interruptible" "\<not> on_rq tk" "\<not> on_cpu tk" "same_attr (tasks s t) tk"
    by (simp_all add: tk_def release_task_def block_commit_def prepare_to_wait_def kill_task_def Let_def same_attr_def)
  define s2 where "s2 = s\<lparr>tasks := (tasks s)(t := tk), harts := (harts s)(h := HIdle)\<rparr>"
  have e2: "exec_all [Prepare h wq, TakeBlock h, Block h now False, Park h, TakeRelease h, Release h] s1 = Some s2"
  proof -
    obtain tb where b: "block_commit now False (prepare_to_wait wq (kill_task (tasks s t))) = ((True, False), tb)" "task_status tb = Interruptible"
      by (simp add: block_commit_def prepare_to_wait_def Let_def)
    then have "tk = release_task tb" by (simp add: tk_def)
    then show ?thesis using i(7) hg(1) run b
      by (simp add: exec_def prepare_current_def block_take_def block_current_def park_current_def release_take_def release_pending_def s1_def s2_def; simp add: set_task_def set_hart_def)
  qed
  define k where "k = select_target_hart g (last_cpu tk) (cpu_affinity_mask tk) (policy tk) (set_acts g [AWake t] s2)"
  have k: "k < MAX_HARTS" unfolding k_def using i(8,9) by (intro select_lt) (simp_all add: s2_def)
  let ?tq = "(mark_task_woken tk)\<lparr>last_cpu := k, on_rq := True\<rparr>"
  have "same_attr (tasks s t) ?tq" using tk(4) mark_task_woken_fields(5) [of tk] by (simp add: same_attr_def)
  then have vq: "valid_attr ?tq" using va same_attr_valid by blast
  obtain e rq T where e: "enqueue_locked t None (rqs s k) ((tasks s)(t := ?tq)) = Some (e, rq, T)" "t \<in> set (runnable_ptrs rq)" "task_status (T t) = Runnable"
    using enqueue_any [OF i(2,3,1) k out vq, of None] by auto
  have e3: "exec_all [Wake g t, Act g None, Act g None] s2 = Some (set_acts g [] (set_queue k rq T s2))"
  proof -
    have "exec (Wake g t) s2 = Some (set_acts g [AWake t] s2)" using i(7) hg kn run by (simp add: exec_def start_def s2_def)
    moreover have "exec (Act g None) (set_acts g [AWake t] s2) = Some (set_acts g [AWakeEnqueue t k] s2)"
      using i(7) hg(2) tk by (simp add: exec_act [where a = "AWake t"] s2_def wakeup_task_def asleep_def; simp add: k_def s2_def)
    moreover have "wake_commit t k None (set_acts g [AWakeEnqueue t k] s2) = set_queue k rq T (set_acts g [AWakeEnqueue t k] s2)"
      using tk e(1) by (simp add: wake_commit_def s2_def Let_def)
    then have "exec (Act g None) (set_acts g [AWakeEnqueue t k] s2) = Some (set_acts g [] (set_queue k rq T s2))"
      using i(7) hg(2) by (simp add: exec_act [where a = "AWakeEnqueue t k"] s2_def; simp add: set_acts_def set_queue_def)
    ultimately show ?thesis by simp
  qed
  have "exec_all (kill_race h g t wq now) s = Some (set_acts g [] (set_queue k rq T s2))"
    unfolding kill_race_def
    using exec_all_append [of "[Kill g t, Act g None]" "[Prepare h wq, TakeBlock h, Block h now False, Park h, TakeRelease h, Release h] @ [Wake g t, Act g None, Act g None]" s]
      exec_all_append [of "[Prepare h wq, TakeBlock h, Block h now False, Park h, TakeRelease h, Release h]" "[Wake g t, Act g None, Act g None]" s1] e1 e2 e3
    by (simp only: append.simps option.case)
  then show "\<exists>s' k. exec_all (kill_race h g t wq now) s = Some s' \<and> \<not> panicked s' \<and> task_status (tasks s' t) = Runnable
      \<and> k < MAX_HARTS \<and> t \<in> set (runnable_ptrs (rqs s' k))"
    using k e(2,3) i(7) by (intro exI [of _ k] exI conjI) (assumption | simp add: s2_def)+
qed

end
