(* ===== verification/Scheduler_Props.thy ===== *)
theory Scheduler_Props
  imports Scheduler_Races
begin

text \<open>
  The properties of the scheduler on several harts, and two ways to leave them: changing the priority of a
  task while another hart takes it, and killing a thread that is about to sleep.
\<close>

section \<open>Runs\<close>

definition fair_attr :: sched_attr where
  "fair_attr = (Other, 0, DEFAULT_TIME_SLICE_TICKS, 0, NICE_0_LOAD)"

text \<open>A fair task is created on hart 0, which takes it and runs it; it goes to sleep, and hart 1 wakes it up and steals it.\<close>

definition sleep_run :: "event list" where
  "sleep_run = [Spawn 0 7 fair_attr, Act 0 None, Act 0 None, Pop 0, Claim 0, Run 0 100, Prepare 0 64, TakeBlock 0,
     Wake 1 7, Act 1 None, Block 0 200 False, Park 0, Act 1 None, TakeRelease 0, Release 0,
     Act 1 None, Act 1 None, Steal 1 0, ClaimStolen 1, Run 1 300]"

text \<open>A fair task is created on hart 0; then hart 0 takes it and runs it.\<close>

definition spawn_run :: "event list" where
  "spawn_run = [Spawn 0 7 fair_attr, Act 0 None, Act 0 None]"

definition start_run :: "event list" where
  "start_run = spawn_run @ [Pop 0, Claim 0, Run 0 100]"

lemma sleep_run_current:
  "map_option (\<lambda>s. (current (harts s 0), current (harts s 1), last_cpu (tasks s 7))) (exec_all sleep_run (sched_init 3)) = Some (None, Some 7, 1)"
  by code_simp


lemma sleep_run_ordinary: "list_all ordinary sleep_run"
  by code_simp

lemma two_harts_online: "(0::nat) < 3" "(3::nat) < 2 ^ MAX_HARTS"
  by (simp_all add: MAX_HARTS_def)

section \<open>Properties\<close>

text \<open>
  C29. The scheduler is safe on any number of harts. Over any interleaving of the locked sections of the scheduler, in
  which tasks are created with valid attributes, woken, taken, stolen, run, blocked, suspended, released and exit, but none has
  its priority changed and none is killed by another thread (\<open>ordinary\<close>), the kernel's own
  invariant check passes in every state: no task is current on two harts, no current task is queued and no task is queued twice.
  No section panics; in particular a wakeup never waits on the hart that would have to let the task go. With the two kinds of
  sections that are left out the statement is false, as the last two properties of this theory show.
\<close>

theorem scheduler_safe:
  assumes "0 < onl" and "onl < 2 ^ MAX_HARTS" and "list_all ordinary es" and "exec_all es (sched_init onl) = Some s"
  shows "check_sched_invariants s \<and> \<not> panicked s"
  using exec_all_inv [OF init_inv [OF assms(1,2)] assms(3,4)] inv_check sched_invD(7) by blast

theorem scheduler_safe_witness:
  "\<exists>s. exec_all sleep_run (sched_init 3) = Some s \<and> current (harts s 1) = Some 7 \<and> check_sched_invariants s \<and> \<not> panicked s"
proof -
  obtain s where s: "exec_all sleep_run (sched_init 3) = Some s" "current (harts s 1) = Some 7" using sleep_run_current by auto
  then show ?thesis using scheduler_safe [OF two_harts_online sleep_run_ordinary s(1)] by blast
qed



text \<open>
  C33. Changing the priority of a queued task is not safe. Take any state of an ordinary run in which one hart is idle with a
  runnable task next in its queue and another hart is able to make a system call. Then \<open>sys_setpriority\<close> on the second hart and
  taking the task on the first can interleave so that the first hart runs the task while it is queued again, and the
  kernel's invariant check fails: the system call clears \<open>on_rq\<close> of a task that the other hart has taken from its queue but not
  yet claimed, and adds it a second time.
\<close>

theorem setpriority_requeues_running_task:
  assumes "0 < onl" and "onl < 2 ^ MAX_HARTS" and "list_all ordinary es" and "exec_all es (sched_init onl) = Some s"
    and "h < MAX_HARTS" and "g < MAX_HARTS" and "g \<noteq> h" and "harts s h = HIdle" and "interruptible (harts s g)"
    and "acts s h = []" and "acts s g = []" and "dequeue_locked (rqs s h) (tasks s) = Some (Some t, rq, T)"
    and "task_status (tasks s t) = Runnable" and "w \<le> 88761"
  shows "\<exists>s'. exec_all (es @ priority_race h g t n w now) (sched_init onl) = Some s' \<and> \<not> panicked s'
    \<and> current (harts s' h) = Some t \<and> (\<exists>k<MAX_HARTS. t \<in> set (runnable_ptrs (rqs s' k))) \<and> \<not> check_sched_invariants s'"
proof -
  have inv: "sched_inv s" by (rule exec_all_inv [OF init_inv [OF assms(1,2)] assms(3,4)])
  obtain s' k where s': "exec_all (priority_race h g t n w now) s = Some s'" "\<not> panicked s'" "current (harts s' h) = Some t"
      "k < MAX_HARTS" "t \<in> set (runnable_ptrs (rqs s' k))"
    using priority_race_steps [OF inv assms(5-7,14,8-13)] by blast
  then show ?thesis using queued_current_refused [OF s'(3) assms(5) s'(4,5)] assms(4) by (auto simp: exec_all_append)
qed

lemma spawn_run_state:
  "map_option (\<lambda>s. (harts s 0, harts s 1, acts s 0, acts s 1, map_option fst (dequeue_locked (rqs s 0) (tasks s)), task_status (tasks s 7)))
     (exec_all spawn_run (sched_init 3)) = Some (HIdle, HIdle, [], [], Some (Some 7), Runnable)"
  by code_simp

theorem setpriority_requeues_running_task_witness:
  "\<exists>s'. exec_all (spawn_run @ priority_race 0 1 7 5 335 100) (sched_init 3) = Some s' \<and> current (harts s' 0) = Some 7 \<and> \<not> check_sched_invariants s'"
proof -
  obtain s where s: "exec_all spawn_run (sched_init 3) = Some s" "harts s 0 = HIdle" "harts s 1 = HIdle" "acts s 0 = []" "acts s 1 = []"
      "map_option fst (dequeue_locked (rqs s 0) (tasks s)) = Some (Some 7)" "task_status (tasks s 7) = Runnable"
    using spawn_run_state by auto
  obtain rq T where d: "dequeue_locked (rqs s 0) (tasks s) = Some (Some 7, rq, T)" using s(6) by auto
  have o: "list_all ordinary spawn_run" by code_simp
  have "interruptible (harts s 1)" using s(3) by simp
  then show ?thesis
    using setpriority_requeues_running_task [OF two_harts_online o s(1), of 0 1 7 rq T 335 5 100] s(2,4,5,7) d by (auto simp: MAX_HARTS_def)
qed

text \<open>
  C34. A killed thread can run again. Take any state of an ordinary run in which a hart runs a task and another hart is able to make a
  system call. When the second hart ends the process, which marks the task a zombie, and the task, still in the kernel, then
  prepares to wait, the mark is overwritten: the task goes to sleep like any other, and the next wakeup puts it, runnable, into a queue.
\<close>

theorem killed_task_runs_again:
  assumes "0 < onl" and "onl < 2 ^ MAX_HARTS" and "list_all ordinary es" and "exec_all es (sched_init onl) = Some s"
    and "h < MAX_HARTS" and "g < MAX_HARTS" and "g \<noteq> h" and "harts s h = HRun t" and "interruptible (harts s g)"
    and "acts s h = []" and "acts s g = []"
  shows "map_option (\<lambda>s'. task_status (tasks s' t)) (exec_all (es @ take 2 (kill_race h g t wq now)) (sched_init onl)) = Some Zombie
    \<and> (\<exists>s'. exec_all (es @ kill_race h g t wq now) (sched_init onl) = Some s' \<and> \<not> panicked s' \<and> task_status (tasks s' t) = Runnable
         \<and> (\<exists>k<MAX_HARTS. t \<in> set (runnable_ptrs (rqs s' k))))"
proof -
  have inv: "sched_inv s" by (rule exec_all_inv [OF init_inv [OF assms(1,2)] assms(3,4)])
  show ?thesis using kill_race_steps [OF inv assms(5-11), of wq now] assms(4) by (auto simp: exec_all_append)
qed

lemma start_run_state:
  "map_option (\<lambda>s. (harts s 0, harts s 1, acts s 0, acts s 1)) (exec_all start_run (sched_init 3)) = Some (HRun 7, HIdle, [], [])"
  by code_simp

theorem killed_task_runs_again_witness:
  "\<exists>s'. exec_all (start_run @ kill_race 0 1 7 64 200) (sched_init 3) = Some s' \<and> task_status (tasks s' 7) = Runnable
     \<and> (\<exists>k<MAX_HARTS. 7 \<in> set (runnable_ptrs (rqs s' k)))"
proof -
  obtain s where s: "exec_all start_run (sched_init 3) = Some s" "harts s 0 = HRun 7" "harts s 1 = HIdle" "acts s 0 = []" "acts s 1 = []"
    using start_run_state by auto
  have o: "list_all ordinary start_run" by code_simp
  have "interruptible (harts s 1)" using s(3) by simp
  then show ?thesis
    using killed_task_runs_again [OF two_harts_online o s(1), of 0 1 7 64 200] s(2,4,5) by (auto simp: MAX_HARTS_def)
qed

end
