(* ===== verification/Boot_Info.thy ===== *)
theory Boot_Info
  imports Frames Sched_Policy
begin

text \<open>
  Boot information (\<open>os/src/bootinfo.rs\<close>): the fixed arrays of memory and reserved regions, and the usable regions
  that remain when the reserved ones are taken out. A region is a pair of its inclusive start and exclusive end address.
\<close>

section \<open>Regions\<close>

type_synonym region = "nat \<times> nat"

definition MAX_MEMORY_REGIONS :: nat where "MAX_MEMORY_REGIONS = 8"
definition MAX_RESERVED_REGIONS :: nat where "MAX_RESERVED_REGIONS = 16"

definition region_empty :: region where
  "region_empty = (0, 0)"

definition region_is_empty :: "region \<Rightarrow> bool" where
  "region_is_empty r \<longleftrightarrow> fst r \<ge> snd r"

record boot_info =
  bi_memory :: "region list"
  memory_region_count :: nat
  bi_reserved :: "region list"
  reserved_region_count :: nat
  hart_count :: nat
  fdt_ptr :: nat
  fdt_size :: nat

definition boot_info_empty :: boot_info where
  "boot_info_empty = \<lparr>bi_memory = replicate MAX_MEMORY_REGIONS region_empty, memory_region_count = 0,
     bi_reserved = replicate MAX_RESERVED_REGIONS region_empty, reserved_region_count = 0,
     hart_count = 0, fdt_ptr = 0, fdt_size = 0\<rparr>"

definition push_memory_region :: "nat \<Rightarrow> nat \<Rightarrow> boot_info \<Rightarrow> boot_info" where
  "push_memory_region start ende info =
     (if start \<ge> ende \<or> memory_region_count info \<ge> MAX_MEMORY_REGIONS then info
      else info\<lparr>bi_memory := (bi_memory info)[memory_region_count info := (start, ende)],
                memory_region_count := memory_region_count info + 1\<rparr>)"

definition push_reserved_region :: "nat \<Rightarrow> nat \<Rightarrow> boot_info \<Rightarrow> boot_info" where
  "push_reserved_region start ende info =
     (if start \<ge> ende \<or> reserved_region_count info \<ge> MAX_RESERVED_REGIONS then info
      else info\<lparr>bi_reserved := (bi_reserved info)[reserved_region_count info := (start, ende)],
                reserved_region_count := reserved_region_count info + 1\<rparr>)"

definition set_hart_count :: "nat \<Rightarrow> boot_info \<Rightarrow> boot_info" where
  "set_hart_count n info = info\<lparr>hart_count := min (max n 1) MAX_HARTS\<rparr>"

definition memory_regions :: "boot_info \<Rightarrow> region list" where
  "memory_regions info = take (memory_region_count info) (bi_memory info)"

definition reserved_regions :: "boot_info \<Rightarrow> region list" where
  "reserved_regions info = take (reserved_region_count info) (bi_reserved info)"

definition fdt_blob :: "boot_info \<Rightarrow> (nat \<times> nat) option" where
  "fdt_blob info = (if fdt_ptr info \<noteq> 0 \<and> fdt_size info \<noteq> 0 then Some (fdt_ptr info, fdt_size info) else None)"

section \<open>Usable regions\<close>

text \<open>The output array and its count.\<close>

type_synonym out = "region list \<times> nat"

definition push_temp_region :: "region \<Rightarrow> out \<Rightarrow> out" where
  "push_temp_region r o' = (case o' of (out, n) \<Rightarrow>
     if region_is_empty r \<or> n \<ge> length out then (out, n) else (out[n := r], n + 1))"

definition subtract_region :: "region \<Rightarrow> region \<Rightarrow> out \<Rightarrow> out" where
  "subtract_region r reserved o' =
     (let overlap_start = max (fst r) (fst reserved); overlap_end = min (snd r) (snd reserved)
      in if overlap_start \<ge> overlap_end then push_temp_region r o'
         else push_temp_region (overlap_end, snd r) (push_temp_region (fst r, overlap_start) o'))"

definition no_fragments :: "region list" where
  "no_fragments = replicate (MAX_RESERVED_REGIONS + 1) region_empty"

definition subtract_all :: "region \<Rightarrow> out \<Rightarrow> out" where
  "subtract_all reserved o' = (case o' of (fragments, n) \<Rightarrow>
     foldl (\<lambda>next fragment. subtract_region fragment reserved next) (no_fragments, 0) (take n fragments))"

definition usable_fragments :: "region list \<Rightarrow> region \<Rightarrow> region list" where
  "usable_fragments reserved r =
     (case foldl (\<lambda>o' x. subtract_all x o') (no_fragments[0 := r], 1) reserved of
        (fragments, n) \<Rightarrow> filter (\<lambda>f. \<not> region_is_empty f) (take n fragments))"

text \<open>The regions \<open>for_each_usable_memory_region\<close> calls its argument with, in order.\<close>

definition usable_memory_regions :: "boot_info \<Rightarrow> region list" where
  "usable_memory_regions info = concat (map (usable_fragments (reserved_regions info)) (memory_regions info))"

section \<open>Well-formed boot information\<close>

definition info_ok :: "boot_info \<Rightarrow> bool" where
  "info_ok info \<longleftrightarrow> length (bi_memory info) = MAX_MEMORY_REGIONS \<and> length (bi_reserved info) = MAX_RESERVED_REGIONS
     \<and> memory_region_count info \<le> MAX_MEMORY_REGIONS \<and> reserved_region_count info \<le> MAX_RESERVED_REGIONS
     \<and> (\<forall>r\<in>set (memory_regions info) \<union> set (reserved_regions info). fst r < snd r) \<and> hart_count info \<le> MAX_HARTS"

lemma empty_ok [simp]: "info_ok boot_info_empty"
  by (simp add: info_ok_def boot_info_empty_def memory_regions_def reserved_regions_def)

lemma push_memory_ok:
  assumes "info_ok info"
  shows "info_ok (push_memory_region a b info)"
    and "memory_regions (push_memory_region a b info) = take MAX_MEMORY_REGIONS (memory_regions info @ (if a < b then [(a, b)] else []))"
    and "reserved_regions (push_memory_region a b info) = reserved_regions info"
  using assms
  by (auto simp: info_ok_def push_memory_region_def memory_regions_def reserved_regions_def take_Suc_conv_app_nth min_def
      split: if_splits)

lemma push_reserved_ok:
  assumes "info_ok info"
  shows "info_ok (push_reserved_region a b info)"
    and "reserved_regions (push_reserved_region a b info) = take MAX_RESERVED_REGIONS (reserved_regions info @ (if a < b then [(a, b)] else []))"
    and "memory_regions (push_reserved_region a b info) = memory_regions info"
  using assms
  by (auto simp: info_ok_def push_reserved_region_def memory_regions_def reserved_regions_def take_Suc_conv_app_nth min_def
      split: if_splits)

lemma set_hart_count_ok: "info_ok info \<Longrightarrow> info_ok (set_hart_count n info)"
  by (auto simp: info_ok_def set_hart_count_def memory_regions_def reserved_regions_def)

section \<open>Cutting\<close>

text \<open>What one reserved region leaves of a list of fragments.\<close>

definition cut_out :: "region \<Rightarrow> region \<Rightarrow> region list" where
  "cut_out x r = filter (\<lambda>f. \<not> region_is_empty f)
     (if max (fst r) (fst x) \<ge> min (snd r) (snd x) then [r] else [(fst r, max (fst r) (fst x)), (min (snd r) (snd x), snd r)])"

definition bytes :: "region \<Rightarrow> nat set" where
  "bytes r = {fst r..<snd r}"

lemma bytes_filter: "\<Union>(bytes ` set (filter (\<lambda>f. \<not> region_is_empty f) xs)) = \<Union>(bytes ` set xs)"
  by (induction xs) (auto simp: bytes_def region_is_empty_def)

lemma cut_out_bytes: "\<Union>(bytes ` set (cut_out x r)) = bytes r - bytes x"
proof (cases "max (fst r) (fst x) \<ge> min (snd r) (snd x)")
  case True
  then have "bytes r \<inter> bytes x = {}" by (auto simp: bytes_def)
  then show ?thesis unfolding cut_out_def bytes_filter using True by auto
next
  case False
  have "bytes (fst r, max (fst r) (fst x)) \<union> bytes (min (snd r) (snd x), snd r) = bytes r - bytes x"
    using False by (auto simp: bytes_def)
  then show ?thesis unfolding cut_out_def bytes_filter using False by auto
qed

definition sep :: "region list \<Rightarrow> bool" where
  "sep xs \<longleftrightarrow> sorted_wrt (\<lambda>f g. snd f < fst g) xs \<and> (\<forall>f\<in>set xs. fst f < snd f)"

lemma cut_out_parts:
  assumes "fst x < snd x" and "f \<in> set (cut_out x r)"
  shows "fst r \<le> fst f \<and> snd f \<le> snd r \<and> fst f < snd f"
  using assms by (auto simp: cut_out_def region_is_empty_def split: if_splits)

lemma cut_out_sep: "fst x < snd x \<Longrightarrow> sep (cut_out x r)"
  by (auto simp: sep_def cut_out_def region_is_empty_def)

lemma cut_out_later: "snd x \<le> fst r \<Longrightarrow> fst r < snd r \<Longrightarrow> cut_out x r = [r]"
  by (auto simp: cut_out_def region_is_empty_def)

lemma cut_out_length:
  "length (cut_out x r) \<le> 1 \<or> length (cut_out x r) = 2 \<and> snd x < snd r"
  by (auto simp: cut_out_def region_is_empty_def)

definition cut_all :: "region \<Rightarrow> region list \<Rightarrow> region list" where
  "cut_all x xs = concat (map (cut_out x) xs)"

lemma cut_all_sep: "fst x < snd x \<Longrightarrow> sep xs \<Longrightarrow> sep (cut_all x xs)"
proof (induction xs)
  case (Cons r rs)
  have "snd f < fst g" if "f \<in> set (cut_out x r)" "r' \<in> set rs" "g \<in> set (cut_out x r')" for f g r'
  proof -
    have "snd r < fst r'" using Cons.prems(2) that(2) by (auto simp: sep_def)
    then show ?thesis using cut_out_parts [OF Cons.prems(1) that(1)] cut_out_parts [OF Cons.prems(1) that(3)] by linarith
  qed
  then show ?case using Cons cut_out_sep [OF Cons.prems(1), of r] by (auto simp: cut_all_def sep_def sorted_wrt_append)
qed (simp add: cut_all_def sep_def)

lemma cut_all_length: "fst x < snd x \<Longrightarrow> sep xs \<Longrightarrow> length (cut_all x xs) \<le> length xs + 1"
proof (induction xs)
  case (Cons r rs)
  have s: "sep rs" using Cons.prems(2) by (auto simp: sep_def)
  show ?case
  proof (cases "length (cut_out x r) \<le> 1")
    case True
    then show ?thesis using Cons.IH [OF Cons.prems(1) s] by (simp add: cut_all_def)
  next
    case False
    then have l: "length (cut_out x r) = 2" "snd x < snd r" using cut_out_length [of x r] by auto
    have "cut_out x r' = [r']" if "r' \<in> set rs" for r'
    proof (rule cut_out_later)
      show "snd x \<le> fst r'" "fst r' < snd r'" using l(2) Cons.prems(2) that by (force simp: sep_def)+
    qed
    then have "cut_all x rs = rs" by (induction rs) (auto simp: cut_all_def)
    then show ?thesis using l(1) by (simp add: cut_all_def)
  qed
qed (simp add: cut_all_def)

lemma cut_all_bytes: "\<Union>(bytes ` set (cut_all x xs)) = \<Union>(bytes ` set xs) - bytes x"
proof (induction xs)
  case (Cons r rs)
  have "\<Union>(bytes ` set (cut_all x (r # rs))) = \<Union>(bytes ` set (cut_out x r)) \<union> \<Union>(bytes ` set (cut_all x rs))"
    by (simp add: cut_all_def image_Un)
  then show ?case using Cons cut_out_bytes [of x r] by auto
qed (simp add: cut_all_def)

section \<open>The arrays\<close>

definition holds :: "out \<Rightarrow> region list \<Rightarrow> bool" where
  "holds o' xs \<longleftrightarrow> length (fst o') = MAX_RESERVED_REGIONS + 1 \<and> snd o' = length xs \<and> length xs \<le> MAX_RESERVED_REGIONS + 1 \<and> take (length xs) (fst o') = xs"

lemma holds_push:
  assumes "holds o' xs" and "length xs + length (filter (\<lambda>f. \<not> region_is_empty f) [r]) \<le> MAX_RESERVED_REGIONS + 1"
  shows "holds (push_temp_region r o') (xs @ filter (\<lambda>f. \<not> region_is_empty f) [r])"
proof (cases "region_is_empty r")
  case True
  then show ?thesis using assms(1) by (cases o') (simp add: push_temp_region_def)
next
  case False
  obtain out n where o: "o' = (out, n)" by force
  have h: "length out = MAX_RESERVED_REGIONS + 1" "n = length xs" "take (length xs) out = xs" using assms(1) o by (auto simp: holds_def)
  have l: "length xs < length out" using assms(2) False h(1) by simp
  have "take (Suc (length xs)) (out[length xs := r]) = xs @ [r]" using l h(3) by (simp add: take_Suc_conv_app_nth)
  then show ?thesis using o h l False by (simp add: push_temp_region_def holds_def)
qed

lemma holds_subtract:
  assumes "holds o' xs" and "length xs + length (cut_out x r) \<le> MAX_RESERVED_REGIONS + 1"
  shows "holds (subtract_region r x o') (xs @ cut_out x r)"
proof (cases "max (fst r) (fst x) \<ge> min (snd r) (snd x)")
  case True
  then show ?thesis using holds_push [OF assms(1), of r] assms(2) by (simp add: subtract_region_def cut_out_def Let_def)
next
  case False
  let ?a = "(fst r, max (fst r) (fst x))" and ?b = "(min (snd r) (snd x), snd r)"
  let ?f = "filter (\<lambda>f. \<not> region_is_empty f)"
  have c: "cut_out x r = ?f [?a] @ ?f [?b]" using False by (simp add: cut_out_def)
  have "holds (push_temp_region ?a o') (xs @ ?f [?a])" by (rule holds_push [OF assms(1)]) (use assms(2) c in simp)
  then have "holds (push_temp_region ?b (push_temp_region ?a o')) ((xs @ ?f [?a]) @ ?f [?b])"
    by (rule holds_push) (use assms(2) c in simp)
  then show ?thesis using False unfolding c by (simp add: subtract_region_def Let_def)
qed

lemma holds_subtract_list:
  "holds o' ys \<Longrightarrow> length ys + length (cut_all x xs) \<le> MAX_RESERVED_REGIONS + 1
   \<Longrightarrow> holds (foldl (\<lambda>nxt f. subtract_region f x nxt) o' xs) (ys @ cut_all x xs)"
proof (induction xs arbitrary: o' ys)
  case (Cons r rs)
  have "holds (subtract_region r x o') (ys @ cut_out x r)" by (rule holds_subtract [OF Cons.prems(1)]) (use Cons.prems(2) in \<open>simp add: cut_all_def\<close>)
  from Cons.IH [OF this] show ?case using Cons.prems(2) by (simp add: cut_all_def)
qed (simp add: cut_all_def)

lemma holds_subtract_all:
  assumes "holds o' xs" and "length (cut_all x xs) \<le> MAX_RESERVED_REGIONS + 1"
  shows "holds (subtract_all x o') (cut_all x xs)"
proof -
  have z: "holds (no_fragments, 0) []" by (simp add: holds_def no_fragments_def)
  have "take (snd o') (fst o') = xs" using assms(1) by (simp add: holds_def)
  then show ?thesis using holds_subtract_list [OF z, of x xs] assms(2) by (cases o') (simp add: subtract_all_def)
qed

lemma holds_reserved:
  assumes "holds o' xs" and "sep xs" and "\<forall>x\<in>set rs. fst x < snd x" and "length xs + length rs \<le> MAX_RESERVED_REGIONS + 1"
  shows "holds (foldl (\<lambda>o' x. subtract_all x o') o' rs) (foldl (\<lambda>xs x. cut_all x xs) xs rs) \<and> sep (foldl (\<lambda>xs x. cut_all x xs) xs rs)"
  using assms
proof (induction rs arbitrary: o' xs)
  case (Cons x rs)
  have x: "fst x < snd x" using Cons.prems(3) by simp
  have l: "length (cut_all x xs) \<le> length xs + 1" by (rule cut_all_length [OF x Cons.prems(2)])
  have "holds (subtract_all x o') (cut_all x xs)" by (rule holds_subtract_all [OF Cons.prems(1)]) (use l Cons.prems(4) in simp)
  from Cons.IH [OF this cut_all_sep [OF x Cons.prems(2)]] show ?case using Cons.prems(3,4) l by simp
qed simp

lemma fragments_eq:
  assumes "fst r < snd r" and "\<forall>x\<in>set rs. fst x < snd x" and "length rs \<le> MAX_RESERVED_REGIONS"
  shows "usable_fragments rs r = foldl (\<lambda>xs x. cut_all x xs) [r] rs" and "sep (usable_fragments rs r)"
proof -
  have z: "holds (no_fragments[0 := r], 1) [r]" by (simp add: holds_def no_fragments_def)
  have s: "sep [r]" using assms(1) by (simp add: sep_def)
  let ?o = "foldl (\<lambda>o' x. subtract_all x o') (no_fragments[0 := r], 1) rs" and ?xs = "foldl (\<lambda>xs x. cut_all x xs) [r] rs"
  have h: "holds ?o ?xs" "sep ?xs" using holds_reserved [OF z s assms(2)] assms(3) by simp_all
  have "take (snd ?o) (fst ?o) = ?xs" using h(1) by (simp add: holds_def)
  moreover have "filter (\<lambda>f. \<not> region_is_empty f) ?xs = ?xs" using h(2) by (auto simp: sep_def region_is_empty_def intro!: filter_True)
  ultimately show "usable_fragments rs r = ?xs" by (cases ?o) (simp add: usable_fragments_def)
  then show "sep (usable_fragments rs r)" using h(2) by simp
qed

lemma cut_foldl_bytes: "\<Union>(bytes ` set (foldl (\<lambda>xs x. cut_all x xs) xs rs)) = \<Union>(bytes ` set xs) - \<Union>(bytes ` set rs)"
proof (induction rs arbitrary: xs)
  case (Cons x rs)
  show ?case using Cons.IH [of "cut_all x xs"] cut_all_bytes [of x xs] by auto
qed simp

section \<open>Pages\<close>

text \<open>An interval without a reserved byte lies in one fragment.\<close>

lemma cut_out_interval:
  assumes "I = {a..<b}" and "a < b" and "I \<subseteq> bytes r" and "I \<inter> bytes x = {}"
  shows "\<exists>f\<in>set (cut_out x r). I \<subseteq> bytes f"
proof (cases "max (fst r) (fst x) \<ge> min (snd r) (snd x)")
  case True
  then show ?thesis using assms by (auto simp: cut_out_def bytes_def region_is_empty_def)
next
  case False
  have ab: "fst r \<le> a" "b \<le> snd r" using assms(1-3) by (auto simp: bytes_def)
  have "b \<le> fst x \<or> snd x \<le> a"
  proof (rule ccontr)
    assume "\<not> ?thesis"
    then have "max a (fst x) \<in> I \<inter> bytes x" using assms(1,2) False by (auto simp: bytes_def)
    then show False using assms(4) by blast
  qed
  then show ?thesis using ab assms(1,2) False by (auto simp: cut_out_def bytes_def region_is_empty_def)
qed

lemma cut_foldl_interval:
  assumes "I = {a..<b}" and "a < b" and "f \<in> set xs" and "I \<subseteq> bytes f" and "I \<inter> \<Union>(bytes ` set rs) = {}"
  shows "\<exists>f\<in>set (foldl (\<lambda>xs x. cut_all x xs) xs rs). I \<subseteq> bytes f"
  using assms(3-5)
proof (induction rs arbitrary: xs f)
  case (Cons x rs)
  obtain g where "g \<in> set (cut_out x f)" "I \<subseteq> bytes g" using cut_out_interval [OF assms(1,2) Cons.prems(2), of x] Cons.prems(3) by (auto simp: Int_Un_distrib)
  then have "g \<in> set (cut_all x xs)" using Cons.prems(1) by (auto simp: cut_all_def)
  from Cons.IH [OF this \<open>I \<subseteq> bytes g\<close>] show ?case using Cons.prems(3) by auto
qed auto

definition page_bytes :: "nat \<Rightarrow> nat set" where
  "page_bytes p = {p * 4096..<(p + 1) * 4096}"

lemma page_range_pages:
  assumes "fst r \<le> snd r" and "snd r + 4095 \<le> usize_max"
  shows "{fst (page_range r)..<snd (page_range r)} = {p. page_bytes p \<subseteq> bytes r}"
proof -
  have f: "fst (page_range r) \<le> p \<and> p < snd (page_range r) \<longleftrightarrow> fst r \<le> p * 4096 \<and> (p + 1) * 4096 \<le> snd r" for p
  proof -
    define A where "A = (fst r + 4095) div 4096"
    define B where "B = snd r div 4096"
    have "A < p + 1 \<longleftrightarrow> fst r + 4095 < (p + 1) * 4096" unfolding A_def by (rule div_less_iff_less_mult) simp
    then have a: "A \<le> p \<longleftrightarrow> fst r \<le> p * 4096" by auto
    have "p + 1 \<le> B \<longleftrightarrow> (p + 1) * 4096 \<le> snd r" unfolding B_def by (rule less_eq_div_iff_mult_less_eq) simp
    then have b: "p < B \<longleftrightarrow> (p + 1) * 4096 \<le> snd r" by auto
    have "min usize_max (fst r + 4095) = fst r + 4095" using assms by simp
    then have "page_range r = (A, B)" unfolding page_range_def phys_addr_ceil_ppn_def phys_addr_floor_ppn_def sat_add_def A_def B_def by (simp only:)
    then show ?thesis using a b by simp
  qed
  have g: "page_bytes p \<subseteq> bytes r \<longleftrightarrow> fst r \<le> p * 4096 \<and> (p + 1) * 4096 \<le> snd r" for p
    unfolding page_bytes_def bytes_def atLeastLessThan_subset_iff by auto
  show ?thesis unfolding set_eq_iff mem_Collect_eq atLeastLessThan_iff f g by (rule allI, rule refl)
qed

lemma fragment_pages:
  assumes "fst r < snd r" and "\<forall>x\<in>set rs. fst x < snd x" and "length rs \<le> MAX_RESERVED_REGIONS"
  shows "(\<exists>f\<in>set (usable_fragments rs r). page_bytes p \<subseteq> bytes f) \<longleftrightarrow> page_bytes p \<subseteq> bytes r \<and> page_bytes p \<inter> \<Union>(bytes ` set rs) = {}"
proof -
  note e = fragments_eq(1) [OF assms]
  have u: "\<Union>(bytes ` set (usable_fragments rs r)) = bytes r - \<Union>(bytes ` set rs)" unfolding e using cut_foldl_bytes [of "[r]" rs] by simp
  show ?thesis
  proof
    assume "\<exists>f\<in>set (usable_fragments rs r). page_bytes p \<subseteq> bytes f"
    then have "page_bytes p \<subseteq> bytes r - \<Union>(bytes ` set rs)" using u by blast
    then show "page_bytes p \<subseteq> bytes r \<and> page_bytes p \<inter> \<Union>(bytes ` set rs) = {}" by blast
  next
    assume "page_bytes p \<subseteq> bytes r \<and> page_bytes p \<inter> \<Union>(bytes ` set rs) = {}"
    then show "\<exists>f\<in>set (usable_fragments rs r). page_bytes p \<subseteq> bytes f"
      unfolding e using cut_foldl_interval [of "page_bytes p" "p * 4096" "(p + 1) * 4096" r "[r]" rs] by (simp add: page_bytes_def)
  qed
qed

lemma info_okD:
  assumes "info_ok info"
  shows "\<And>r. r \<in> set (memory_regions info) \<Longrightarrow> fst r < snd r" and "\<forall>x\<in>set (reserved_regions info). fst x < snd x"
    and "length (reserved_regions info) \<le> MAX_RESERVED_REGIONS"
  using assms by (auto simp: info_ok_def reserved_regions_def)

lemma usable_pages:
  assumes "info_ok info"
  shows "(\<exists>f\<in>set (usable_memory_regions info). page_bytes p \<subseteq> bytes f)
    \<longleftrightarrow> (\<exists>r\<in>set (memory_regions info). page_bytes p \<subseteq> bytes r) \<and> page_bytes p \<inter> \<Union>(bytes ` set (reserved_regions info)) = {}"
proof -
  note d = info_okD [OF assms]
  have "(\<exists>f\<in>set (usable_memory_regions info). page_bytes p \<subseteq> bytes f)
      \<longleftrightarrow> (\<exists>r\<in>set (memory_regions info). \<exists>f\<in>set (usable_fragments (reserved_regions info) r). page_bytes p \<subseteq> bytes f)"
    by (auto simp: usable_memory_regions_def)
  also have "\<dots> \<longleftrightarrow> (\<exists>r\<in>set (memory_regions info). page_bytes p \<subseteq> bytes r \<and> page_bytes p \<inter> \<Union>(bytes ` set (reserved_regions info)) = {})"
    using fragment_pages [OF d(1) d(2,3)] by auto
  finally show ?thesis by blast
qed

section \<open>Any boot information\<close>

datatype boot_op = PushMemory nat nat | PushReserved nat nat | AddHart

fun boot_step :: "boot_info \<Rightarrow> boot_op \<Rightarrow> boot_info" where
  "boot_step info (PushMemory a b) = push_memory_region a b info"
| "boot_step info (PushReserved a b) = push_reserved_region a b info"
| "boot_step info AddHart = set_hart_count (sat_add (hart_count info) 1) info"

fun pushed_memory :: "boot_op \<Rightarrow> region list" where
  "pushed_memory (PushMemory a b) = (if a < b then [(a, b)] else [])"
| "pushed_memory _ = []"

fun pushed_reserved :: "boot_op \<Rightarrow> region list" where
  "pushed_reserved (PushReserved a b) = (if a < b then [(a, b)] else [])"
| "pushed_reserved _ = []"

lemma boot_step_ok: "info_ok info \<Longrightarrow> info_ok (boot_step info e)"
  by (cases e) (simp_all add: push_memory_ok push_reserved_ok set_hart_count_ok)

lemma take_take_append: "take n (take n xs @ ys) = take n (xs @ ys)"
  by (cases "n \<le> length xs") auto

lemma info_take:
  assumes "info_ok info"
  shows "take MAX_MEMORY_REGIONS (memory_regions info) = memory_regions info" and "take MAX_RESERVED_REGIONS (reserved_regions info) = reserved_regions info"
  using assms by (simp_all add: info_ok_def memory_regions_def reserved_regions_def min_def)

lemma boot_steps_ok:
  "info_ok info \<Longrightarrow> info_ok (foldl boot_step info ops)
    \<and> memory_regions (foldl boot_step info ops) = take MAX_MEMORY_REGIONS (memory_regions info @ concat (map pushed_memory ops))
    \<and> reserved_regions (foldl boot_step info ops) = take MAX_RESERVED_REGIONS (reserved_regions info @ concat (map pushed_reserved ops))"
proof (induction ops arbitrary: info)
  case Nil
  then show ?case using info_take [OF Nil] by simp
next
  case (Cons e ops)
  have st: "memory_regions (boot_step info e) = take MAX_MEMORY_REGIONS (memory_regions info @ pushed_memory e)
      \<and> reserved_regions (boot_step info e) = take MAX_RESERVED_REGIONS (reserved_regions info @ pushed_reserved e)"
  proof (cases e)
    case (PushMemory a b)
    then show ?thesis using push_memory_ok(2,3) [OF Cons.prems, of a b] info_take [OF Cons.prems] by simp
  next
    case (PushReserved a b)
    then show ?thesis using push_reserved_ok(2,3) [OF Cons.prems, of a b] info_take [OF Cons.prems] by simp
  next
    case AddHart
    then show ?thesis using info_take [OF Cons.prems] by (simp add: set_hart_count_def memory_regions_def reserved_regions_def)
  qed
  note ih = Cons.IH [OF boot_step_ok [OF Cons.prems, of e], unfolded conjunct1 [OF st] conjunct2 [OF st] take_take_append]
  show ?case using ih by simp
qed

definition boot_of :: "boot_op list \<Rightarrow> boot_info" where
  "boot_of ops = foldl boot_step boot_info_empty ops"

section \<open>Property\<close>

text \<open>
  The usable regions are exactly the memory that is not reserved. For any sequence of memory and reserved regions
  recorded at boot, the first eight non-empty memory regions and the first sixteen non-empty reserved regions are kept; the regions handed to
  the allocators are not empty, together they cover every byte of the kept memory that is not in a kept reserved region and no
  other, and the fixed array of seventeen fragments never drops one; within one memory region they come in order with a gap between any two.
\<close>

lemma usable_regions_exact:
  "memory_regions (boot_of ops) = take MAX_MEMORY_REGIONS (concat (map pushed_memory ops))
    \<and> reserved_regions (boot_of ops) = take MAX_RESERVED_REGIONS (concat (map pushed_reserved ops))
    \<and> \<Union>(bytes ` set (usable_memory_regions (boot_of ops)))
        = \<Union>(bytes ` set (memory_regions (boot_of ops))) - \<Union>(bytes ` set (reserved_regions (boot_of ops)))
    \<and> list_all (\<lambda>m. sep (usable_fragments (reserved_regions (boot_of ops)) m)) (memory_regions (boot_of ops))"
proof -
  have z: "memory_regions boot_info_empty = []" "reserved_regions boot_info_empty = []"
    by (simp_all add: boot_info_empty_def memory_regions_def reserved_regions_def)
  note b = boot_steps_ok [OF empty_ok, of ops, unfolded z append_Nil, folded boot_of_def]
  note d = info_okD [OF conjunct1 [OF b]]
  have "\<Union>(bytes ` set (usable_fragments (reserved_regions (boot_of ops)) r)) = bytes r - \<Union>(bytes ` set (reserved_regions (boot_of ops)))"
    if "r \<in> set (memory_regions (boot_of ops))" for r
    unfolding fragments_eq(1) [OF d(1) [OF that] d(2,3)] using cut_foldl_bytes [of "[r]" "reserved_regions (boot_of ops)"] by simp
  then have "\<Union>(bytes ` set (usable_memory_regions (boot_of ops))) = \<Union>(bytes ` set (memory_regions (boot_of ops))) - \<Union>(bytes ` set (reserved_regions (boot_of ops)))"
    by (auto simp: usable_memory_regions_def)
  moreover have "list_all (\<lambda>m. sep (usable_fragments (reserved_regions (boot_of ops)) m)) (memory_regions (boot_of ops))"
    using fragments_eq(2) [OF d(1) d(2,3)] by (simp add: list_all_iff)
  ultimately show ?thesis using b by blast
qed

end
