(* ===== verification/Fdt.thy ===== *)
theory Fdt
  imports Boot_Info
begin

unbundle bit_operations_syntax

text \<open>
  The device tree parser of \<open>os/src/bootinfo.rs\<close>. It reads a flattened device tree from raw memory, which is a
  partial function from addresses to bytes: a header, a list of reserved ranges, a structure block of tokens and a block of
  strings. An address that no memory backs has no byte, and reading it is an access fault, which the kernel does not survive at
  this stage. Address arithmetic is that of \<open>usize\<close> and wraps; a loop is a partial function, so that a run that never
  ends has the value \<open>None\<close>.
\<close>

section \<open>Reading memory\<close>

type_synonym memory = "nat \<Rightarrow> u8 option"

text \<open>The result of code that reads memory: \<open>None\<close> is an access fault.\<close>

type_synonym 'a access = "'a option"

text \<open>The result of a whole run of the parser; a run that does not end has no outcome.\<close>

datatype 'a run_outcome = Faulted | Completed 'a

text \<open>A slice of raw memory. Making one reads nothing, so some of its bytes may have no memory behind them.\<close>

type_synonym raw_slice = "u8 option list"

fun read_slice :: "raw_slice \<Rightarrow> u8 list access" where
  "read_slice [] = Some []"
| "read_slice (b # bs) = do { x \<leftarrow> b; xs \<leftarrow> read_slice bs; Some (x # xs) }"

text \<open>Comparing a slice with a literal compares the lengths first.\<close>

definition slice_eq :: "raw_slice \<Rightarrow> u8 list \<Rightarrow> bool access" where
  "slice_eq v s = (if length v \<noteq> length s then Some False else map_option (\<lambda>bs. bs = s) (read_slice v))"

definition FDT_MAGIC :: nat where "FDT_MAGIC = 0xd00dfeed"
definition FDT_BEGIN_NODE :: nat where "FDT_BEGIN_NODE = 1"
definition FDT_END_NODE :: nat where "FDT_END_NODE = 2"
definition FDT_PROP :: nat where "FDT_PROP = 3"
definition FDT_NOP :: nat where "FDT_NOP = 4"
definition FDT_END :: nat where "FDT_END = 9"

text \<open>\<open>u32::from_be_bytes\<close> and \<open>u64::from_be_bytes\<close>.\<close>

definition be_value :: "u8 list \<Rightarrow> nat" where
  "be_value bs = foldl (\<lambda>v b. 256 * v + unat b) 0 bs"

definition read_u8_at :: "memory \<Rightarrow> nat \<Rightarrow> u8 option access" where
  "read_u8_at m addr = (if addr = 0 then Some None else map_option Some (m addr))"

fun read_all :: "memory \<Rightarrow> nat list \<Rightarrow> u8 list option access" where
  "read_all m [] = Some (Some [])"
| "read_all m (a # as) = do {
     b \<leftarrow> read_u8_at m a;
     case b of None \<Rightarrow> Some None | Some x \<Rightarrow> map_option (map_option ((#) x)) (read_all m as)
   }"

definition read_be_u32_at :: "memory \<Rightarrow> nat \<Rightarrow> nat option access" where
  "read_be_u32_at m addr =
     map_option (map_option be_value) (read_all m [addr, wrap_add addr 1, wrap_add addr 2, wrap_add addr 3])"

definition read_be_u64_at :: "memory \<Rightarrow> nat \<Rightarrow> nat option access" where
  "read_be_u64_at m addr =
     map_option (map_option be_value) (read_all m [addr, wrap_add addr 1, wrap_add addr 2, wrap_add addr 3,
       wrap_add addr 4, wrap_add addr 5, wrap_add addr 6, wrap_add addr 7])"

definition bytes_at :: "memory \<Rightarrow> nat \<Rightarrow> nat \<Rightarrow> raw_slice option" where
  "bytes_at m addr len = (if addr = 0 then None else Some (map m [addr..<addr + len]))"

definition read_be_u32 :: "raw_slice \<Rightarrow> nat option access" where
  "read_be_u32 bs = (if length bs = 4 then map_option (\<lambda>bs. Some (be_value bs)) (read_slice bs) else Some None)"

definition align4 :: "nat \<Rightarrow> nat" where
  "align4 v = wrap_add v 3 - wrap_add v 3 mod 4"

definition starts_with :: "u8 list \<Rightarrow> u8 list \<Rightarrow> bool" where
  "starts_with v prefix \<longleftrightarrow> length v \<ge> length prefix \<and> take (length prefix) v = prefix"

text \<open>Byte string literals.\<close>

definition bstr :: "string \<Rightarrow> u8 list" where
  "bstr s = map of_char s"

section \<open>Cells\<close>

text \<open>The loop of \<open>read_cells_usize\<close> over the cells that are left.\<close>

fun read_cells :: "raw_slice \<Rightarrow> nat \<Rightarrow> nat list \<Rightarrow> nat option access" where
  "read_cells v out [] = Some (Some out)"
| "read_cells v out (cell # cs) = do {
     x \<leftarrow> read_be_u32 (take 4 (drop (cell * 4) v));
     case x of None \<Rightarrow> Some None | Some x \<Rightarrow> read_cells v (out * 2 ^ 32 mod 2 ^ 64 OR x) cs
   }"

definition read_cells_usize :: "raw_slice \<Rightarrow> nat \<Rightarrow> nat option access" where
  "read_cells_usize v cells =
     (if cells = 0 \<or> cells > 2 \<or> length v < cells * 4 then Some None else read_cells v 0 [0..<cells])"

text \<open>The ranges \<open>parse_reg\<close> calls its argument with, in order.\<close>

function parse_reg :: "raw_slice \<Rightarrow> nat \<Rightarrow> nat \<Rightarrow> (nat \<times> nat) list access" where
  "parse_reg v address_cells size_cells =
     (let stride = (address_cells + size_cells) * 4 in
      if stride = 0 \<or> length v < stride then Some []
      else do {
        a \<leftarrow> read_cells_usize (take (address_cells * 4) v) address_cells;
        case a of
          None \<Rightarrow> Some []
        | Some start \<Rightarrow> do {
            z \<leftarrow> read_cells_usize (take (size_cells * 4) (drop (address_cells * 4) v)) size_cells;
            case z of
              None \<Rightarrow> Some []
            | Some sz \<Rightarrow> map_option (\<lambda>rs. (if sz \<noteq> 0 then [(start, sz)] else []) @ rs) (parse_reg (drop stride v) address_cells size_cells)
          }
      })"
  by pat_completeness auto
termination by (relation "measure (\<lambda>(v, _, _). length v)") auto

declare parse_reg.simps [simp del]

section \<open>Nodes\<close>

record node_state =
  parent_is_cpus :: bool
  is_cpus :: bool
  is_cpu :: bool
  is_memory :: bool
  is_reserved_memory :: bool
  address_cells :: nat
  size_cells :: nat
  child_address_cells :: nat
  child_size_cells :: nat
  status_ok :: bool

definition node_default :: node_state where
  "node_default = \<lparr>parent_is_cpus = False, is_cpus = False, is_cpu = False, is_memory = False, is_reserved_memory = False,
     address_cells = 0, size_cells = 0, child_address_cells = 0, child_size_cells = 0, status_ok = False\<rparr>"

definition for_child :: "node_state \<Rightarrow> u8 list \<Rightarrow> node_state" where
  "for_child parent name =
     \<lparr>parent_is_cpus = is_cpus parent, is_cpus = (name = bstr ''cpus''), is_cpu = (is_cpus parent \<and> starts_with name (bstr ''cpu@'')),
      is_memory = (name = bstr ''memory'' \<or> starts_with name (bstr ''memory@'')),
      is_reserved_memory = (is_reserved_memory parent \<or> name = bstr ''reserved-memory''),
      address_cells = max (child_address_cells parent) 1, size_cells = max (child_size_cells parent) 1,
      child_address_cells = 2, child_size_cells = 1, status_ok = True\<rparr>"

definition unwrap_or :: "'a \<Rightarrow> 'a option \<Rightarrow> 'a" where
  "unwrap_or d x = (case x of Some v \<Rightarrow> v | None \<Rightarrow> d)"

definition apply_property :: "u8 list \<Rightarrow> raw_slice \<Rightarrow> node_state \<times> boot_info \<Rightarrow> (node_state \<times> boot_info) access" where
  "apply_property name v si = (case si of (n, info) \<Rightarrow>
     if name = bstr ''#address-cells''
     then map_option (\<lambda>c. (n\<lparr>child_address_cells := unwrap_or 2 c\<rparr>, info)) (read_cells_usize v 1)
     else if name = bstr ''#size-cells''
     then map_option (\<lambda>c. (n\<lparr>child_size_cells := unwrap_or 1 c\<rparr>, info)) (read_cells_usize v 1)
     else if name = bstr ''status'' then do {
       okay \<leftarrow> slice_eq v (bstr ''okay'' @ [0]);
       ok \<leftarrow> (if okay then Some True else slice_eq v (bstr ''ok'' @ [0]));
       Some (n\<lparr>status_ok := (okay \<or> ok \<or> v = [])\<rparr>, info)
     }
     else if name = bstr ''device_type'' then do {
       cpu \<leftarrow> (if parent_is_cpus n then slice_eq v (bstr ''cpu'' @ [0]) else Some False);
       if cpu then Some (n\<lparr>is_cpu := True\<rparr>, info)
       else map_option (\<lambda>mem. (if mem then n\<lparr>is_memory := True\<rparr> else n, info)) (slice_eq v (bstr ''memory'' @ [0]))
     }
     else if name = bstr ''reg'' \<and> is_memory n \<and> status_ok n
     then map_option (\<lambda>rs. (n, foldl (\<lambda>info (start, sz). push_memory_region start (sat_add start sz) info) info rs))
            (parse_reg v (address_cells n) (size_cells n))
     else if name = bstr ''reg'' \<and> is_reserved_memory n \<and> \<not> is_memory n
     then map_option (\<lambda>rs. (n, foldl (\<lambda>info (start, sz). push_reserved_region start (sat_add start sz) info) info rs))
            (parse_reg v (address_cells n) (size_cells n))
     else Some (n, info))"

definition node_finish :: "node_state \<Rightarrow> boot_info \<Rightarrow> boot_info" where
  "node_finish n info = (if is_cpu n \<and> status_ok n then set_hart_count (sat_add (hart_count info) 1) info else info)"

section \<open>The parser\<close>

record fdt =
  fd_base :: nat
  total_size :: nat
  off_dt_struct :: nat
  off_dt_strings :: nat
  size_dt_strings :: nat

text \<open>The operator \<open>?\<close> on a read, in a function that returns an option.\<close>

definition and_then :: "'a option access \<Rightarrow> ('a \<Rightarrow> 'b option access) \<Rightarrow> 'b option access" where
  "and_then r f = (case r of None \<Rightarrow> None | Some None \<Rightarrow> Some None | Some (Some x) \<Rightarrow> f x)"

definition fdt_new :: "memory \<Rightarrow> nat \<Rightarrow> fdt option access" where
  "fdt_new m base =
     and_then (read_be_u32_at m base) (\<lambda>magic.
       if magic \<noteq> FDT_MAGIC then Some None else
       and_then (read_be_u32_at m (wrap_add base 4)) (\<lambda>total.
       and_then (read_be_u32_at m (wrap_add base 8)) (\<lambda>off_struct.
       and_then (read_be_u32_at m (wrap_add base 12)) (\<lambda>off_strings.
       and_then (read_be_u32_at m (wrap_add base 36)) (\<lambda>size_strings.
       if total < 40 \<or> off_struct \<ge> total \<or> off_strings \<ge> total \<or> sat_add off_strings size_strings > total then Some None
       else Some (Some \<lparr>fd_base = base, total_size = total, off_dt_struct = off_struct, off_dt_strings = off_strings,
                        size_dt_strings = size_strings\<rparr>))))))"

text \<open>The two loops that look for a zero byte below a limit.\<close>

function scan_zero :: "memory \<Rightarrow> nat \<Rightarrow> nat \<Rightarrow> nat access" where
  "scan_zero m limit cursor =
     (if cursor < limit
      then (case read_u8_at m cursor of
              None \<Rightarrow> None
            | Some b \<Rightarrow> if b \<noteq> Some 0 then scan_zero m limit (cursor + 1) else Some cursor)
      else Some cursor)"
  by pat_completeness auto
termination by (relation "measure (\<lambda>(m, limit, cursor). limit - cursor)") auto

declare scan_zero.simps [simp del]

text \<open>The bytes of a name are those the search has just read, so reading the slice again does not fault.\<close>

definition name_at :: "memory \<Rightarrow> nat \<Rightarrow> nat \<Rightarrow> u8 list option access" where
  "name_at m start ende =
     (case bytes_at m start (sat_sub ende start) of None \<Rightarrow> Some None | Some s \<Rightarrow> map_option Some (read_slice s))"

definition fdt_string :: "memory \<Rightarrow> fdt \<Rightarrow> nat \<Rightarrow> u8 list option access" where
  "fdt_string m d offset =
     (if offset \<ge> size_dt_strings d then Some None
      else let start = wrap_add (wrap_add (fd_base d) (off_dt_strings d)) offset;
               limit = wrap_add (wrap_add (fd_base d) (off_dt_strings d)) (size_dt_strings d)
           in do { ende \<leftarrow> scan_zero m limit start; name_at m start ende })"

record parse_state =
  cursor :: nat
  depth :: nat
  node :: node_state
  stack :: "node_state list"
  info :: boot_info

definition stack_get :: "node_state list \<Rightarrow> nat \<Rightarrow> node_state" where
  "stack_get st i = (if i < length st then st ! i else node_default)"

text \<open>One round of the loop of \<open>fill_boot_info\<close>: \<open>Inl\<close> leaves the loop.\<close>

definition begin_node :: "memory \<Rightarrow> nat \<Rightarrow> parse_state \<Rightarrow> parse_state access" where
  "begin_node m ende s =
     (let st = (if depth s < length (stack s) then (stack s)[depth s := node s] else stack s) in do {
        stop \<leftarrow> scan_zero m ende (cursor s);
        name \<leftarrow> name_at m (cursor s) stop;
        Some (s\<lparr>cursor := align4 (sat_add stop 1), depth := depth s + 1,
                node := for_child (stack_get st (depth s)) (unwrap_or [] name), stack := st\<rparr>)
      })"

definition end_node :: "parse_state \<Rightarrow> parse_state" where
  "end_node s = s\<lparr>info := node_finish (node s) (info s), depth := sat_sub (depth s) 1,
     node := stack_get (stack s) (sat_sub (depth s) 1)\<rparr>"

definition property :: "memory \<Rightarrow> fdt \<Rightarrow> parse_state \<Rightarrow> parse_state access" where
  "property m d s = do {
     len \<leftarrow> map_option (unwrap_or 0) (read_be_u32_at m (cursor s));
     nameoff \<leftarrow> map_option (unwrap_or (2 ^ 32 - 1)) (read_be_u32_at m (wrap_add (cursor s) 4));
     let c = wrap_add (cursor s) 8;
     name \<leftarrow> fdt_string m d nameoff;
     case name of
       None \<Rightarrow> Some (s\<lparr>cursor := align4 (sat_add c len)\<rparr>)
     | Some prop_name \<Rightarrow>
         map_option (\<lambda>(n, i). s\<lparr>cursor := align4 (sat_add c len), node := n, info := i\<rparr>)
           (apply_property prop_name (unwrap_or [] (bytes_at m c len)) (node s, info s))
   }"

definition fdt_round :: "memory \<Rightarrow> fdt \<Rightarrow> nat \<Rightarrow> parse_state \<Rightarrow> (boot_info + parse_state) access" where
  "fdt_round m d ende s =
     (if wrap_add (cursor s) 4 > ende then Some (Inl (info s))
      else case read_be_u32_at m (cursor s) of
             None \<Rightarrow> None
           | Some None \<Rightarrow> Some (Inl (info s))
           | Some (Some token) \<Rightarrow>
               (let s = s\<lparr>cursor := wrap_add (cursor s) 4\<rparr> in
                if token = FDT_BEGIN_NODE then map_option Inr (begin_node m ende s)
                else if token = FDT_END_NODE then Some (Inr (end_node s))
                else if token = FDT_PROP then (if wrap_add (cursor s) 8 > ende then Some (Inl (info s)) else map_option Inr (property m d s))
                else if token = FDT_NOP then Some (Inr s)
                else Some (Inl (info s))))"

partial_function (option) fdt_loop :: "memory \<Rightarrow> fdt \<Rightarrow> nat \<Rightarrow> parse_state \<Rightarrow> boot_info run_outcome option" where
  "fdt_loop m d ende s =
     (case fdt_round m d ende s of None \<Rightarrow> Some Faulted | Some (Inl i) \<Rightarrow> Some (Completed i) | Some (Inr s') \<Rightarrow> fdt_loop m d ende s')"

text \<open>One round of the loop of \<open>parse_mem_reserve\<close>.\<close>

definition reserve_round :: "memory \<Rightarrow> nat \<times> boot_info \<Rightarrow> (boot_info + nat \<times> boot_info) access" where
  "reserve_round m ci = (case ci of (c, i) \<Rightarrow>
     case read_be_u64_at m c of
       None \<Rightarrow> None
     | Some None \<Rightarrow> Some (Inl i)
     | Some (Some address) \<Rightarrow>
         (case read_be_u64_at m (wrap_add c 8) of
            None \<Rightarrow> None
          | Some None \<Rightarrow> Some (Inl i)
          | Some (Some sz) \<Rightarrow>
              if address = 0 \<and> sz = 0 then Some (Inl i)
              else Some (Inr (wrap_add c 16, push_reserved_region address (sat_add address sz) i))))"

partial_function (option) reserve_loop :: "memory \<Rightarrow> nat \<times> boot_info \<Rightarrow> boot_info run_outcome option" where
  "reserve_loop m ci =
     (case reserve_round m ci of None \<Rightarrow> Some Faulted | Some (Inl i) \<Rightarrow> Some (Completed i) | Some (Inr ci') \<Rightarrow> reserve_loop m ci')"

definition parse_mem_reserve :: "memory \<Rightarrow> fdt \<Rightarrow> boot_info \<Rightarrow> boot_info run_outcome option" where
  "parse_mem_reserve m d i = reserve_loop m (wrap_add (fd_base d) 40, i)"

definition fill_boot_info :: "memory \<Rightarrow> fdt \<Rightarrow> boot_info \<Rightarrow> boot_info run_outcome option" where
  "fill_boot_info m d i = do {
     r \<leftarrow> parse_mem_reserve m d i;
     case r of
       Faulted \<Rightarrow> Some Faulted
     | Completed i \<Rightarrow>
         fdt_loop m d (wrap_add (fd_base d) (total_size d))
           \<lparr>cursor = wrap_add (fd_base d) (off_dt_struct d), depth = 0, node = node_default, stack = replicate 16 node_default, info = i\<rparr>
   }"

end
