(* ===== verification/Fdt_Loops.thy ===== *)
theory Fdt_Loops
  imports Fdt
begin

text \<open>
  The loops of the device tree parser come to an end, whatever the memory holds: they return, having changed the boot
  information only by recording regions and harts, or they touch an address at or after the tree that no memory backs.
\<close>

section \<open>Numbers\<close>

lemma be_value_append: "be_value (xs @ ys) = be_value xs * 256 ^ length ys + be_value ys"
proof (induction ys rule: rev_induct)
  case (snoc y ys)
  then show ?case by (simp add: be_value_def algebra_simps)
qed (simp add: be_value_def)

lemma be_value_bound: "be_value bs < 256 ^ length bs"
proof (induction bs rule: rev_induct)
  case (snoc b bs)
  have b: "unat b < 256" using unsigned_less [of b, where ?'a = nat] by simp
  have "be_value (bs @ [b]) = 256 * be_value bs + unat b" by (simp add: be_value_def)
  also have "\<dots> < 256 * (be_value bs + 1)" using b by simp
  also have "\<dots> \<le> 256 * 256 ^ length bs" using snoc by (intro mult_le_mono2) simp
  finally show ?case by simp
qed (simp add: be_value_def)

lemma read_all_length: "read_all m as = Some (Some bs) \<Longrightarrow> length bs = length as"
  by (induction as arbitrary: bs) (auto split: bind_splits option.splits)

lemma read_u32_bound: "read_be_u32_at m a = Some (Some v) \<Longrightarrow> v < 2 ^ 32"
proof -
  assume "read_be_u32_at m a = Some (Some v)"
  then obtain bs where "read_all m [a, wrap_add a 1, wrap_add a 2, wrap_add a 3] = Some (Some bs)" "v = be_value bs"
    unfolding read_be_u32_at_def map_option_eq_Some by blast
  then show ?thesis using be_value_bound [of bs] read_all_length by fastforce
qed

lemma unwrap_u32_bound: "read_be_u32_at m a = Some r \<Longrightarrow> unwrap_or 0 r < 2 ^ 32 \<and> unwrap_or (2 ^ 32 - 1) r < 2 ^ 32"
  using read_u32_bound [of m a] by (cases r) (simp_all add: unwrap_or_def)

lemma align4_bounds: "v + 3 < 2 ^ 64 \<Longrightarrow> v \<le> align4 v \<and> align4 v \<le> v + 3 \<and> align4 v mod 4 = 0"
proof -
  assume v: "v + 3 < 2 ^ 64"
  have w: "wrap_add v 3 = v + 3" using v unfolding wrap_add_def by (rule mod_less)
  have "(v + 3) mod 4 < 4" by simp
  moreover have "(v + 3 - (v + 3) mod 4) mod 4 = 0" using minus_mod_eq_mult_div [of "v + 3" 4] by simp
  ultimately show ?thesis unfolding align4_def w by linarith
qed

lemma align4_exact: "v mod 4 = 0 \<Longrightarrow> v + 3 < 2 ^ 64 \<Longrightarrow> align4 v = v"
proof -
  assume v: "v mod 4 = 0" "v + 3 < 2 ^ 64"
  have w: "wrap_add v 3 = v + 3" using v(2) unfolding wrap_add_def by (rule mod_less)
  have "(v + 3) mod 4 = 3" using v(1) by presburger
  then show ?thesis unfolding align4_def w by simp
qed

lemma scan_zero_bounds: "scan_zero m limit c = Some z \<Longrightarrow> c \<le> z \<and> (c \<le> limit \<longrightarrow> z \<le> limit)"
proof (induction m limit c rule: scan_zero.induct)
  case (1 m limit c)
  show ?case
  proof (cases "c < limit \<and> read_u8_at m c \<noteq> Some (Some 0)")
    case True
    then obtain b where b: "read_u8_at m c = Some b" "b \<noteq> Some 0" using 1(2) by (cases "read_u8_at m c") (auto simp: scan_zero.simps [of m limit c])
    then have "scan_zero m limit (c + 1) = Some z" using 1(2) True by (simp add: scan_zero.simps [of m limit c])
    then show ?thesis using 1(1) [OF conjunct1 [OF True] b] True by simp
  next
    case False
    then have "z = c" using 1(2) by (auto simp: scan_zero.simps [of m limit c] split: if_splits)
    then show ?thesis by simp
  qed
qed

section \<open>Memory without holes\<close>

text \<open>Every address from \<open>lo\<close> on is backed.\<close>

definition backed :: "memory \<Rightarrow> nat \<Rightarrow> bool" where
  "backed m lo \<longleftrightarrow> (\<forall>a. lo \<le> a \<and> a < 2 ^ 64 \<longrightarrow> m a \<noteq> None)"

lemma backedD: "backed m lo \<Longrightarrow> lo \<le> a \<Longrightarrow> a < 2 ^ 64 \<Longrightarrow> \<exists>b. m a = Some b"
  by (auto simp: backed_def)

lemma read_slice_some [simp]: "read_slice (map Some bs) = Some bs"
  by (induction bs) simp_all

lemma slice_backed: "None \<notin> set v \<Longrightarrow> \<exists>bs. v = map Some bs"
  by (intro exI [of _ "map the v"] nth_equalityI) (auto simp: in_set_conv_nth)

lemma bytes_backed: "backed m lo \<Longrightarrow> lo \<le> a \<Longrightarrow> a + n \<le> 2 ^ 64 \<Longrightarrow> \<exists>bs. unwrap_or [] (bytes_at m a n) = map Some bs"
proof (cases "a = 0")
  case False
  assume m: "backed m lo" "lo \<le> a" "a + n \<le> 2 ^ 64"
  have "m x \<noteq> None" if "x \<in> set [a..<a + n]" for x using backedD [OF m(1), of x] m(2,3) that by auto
  then have "None \<notin> set (map m [a..<a + n])" by (metis imageE list.set_map)
  then show ?thesis using False slice_backed [of "map m [a..<a + n]"] by (simp add: bytes_at_def unwrap_or_def)
qed (simp add: bytes_at_def unwrap_or_def)

lemma name_backed:
  assumes "backed m lo" and "lo \<le> a" and "z \<le> 2 ^ 64"
  shows "name_at m a z \<noteq> None"
proof (cases "a = 0 \<or> z < a")
  case False
  then show ?thesis using bytes_backed [OF assms(1,2), of "z - a"] assms(3)
    by (auto simp: name_at_def bytes_at_def unwrap_or_def sat_sub_def)
qed (auto simp: name_at_def bytes_at_def sat_sub_def)

lemma read_all_backed: "\<forall>a\<in>set (takeWhile (\<lambda>a. a \<noteq> 0) as). m a \<noteq> None \<Longrightarrow> read_all m as \<noteq> None"
proof (induction as)
  case (Cons a as)
  show ?case
  proof (cases "a = 0")
    case False
    then obtain b where "m a = Some b" using Cons.prems by auto
    moreover have "read_all m as \<noteq> None" using Cons False by simp
    ultimately show ?thesis by (auto simp: read_u8_at_def)
  qed (simp add: read_u8_at_def)
qed simp

lemma wrap_ahead: "c < 2 ^ 64 \<Longrightarrow> lo \<le> c \<Longrightarrow> \<forall>a\<in>set (takeWhile (\<lambda>a. a \<noteq> 0) (map (wrap_add c) [0..<n])). lo \<le> a \<and> a < 2 ^ 64"
proof
  fix a assume c: "c < 2 ^ 64" "lo \<le> c" and a: "a \<in> set (takeWhile (\<lambda>a. a \<noteq> 0) (map (wrap_add c) [0..<n]))"
  let ?t = "takeWhile (\<lambda>a. a \<noteq> 0) (map (wrap_add c) [0..<n])"
  obtain k where k: "k < length ?t" "a = ?t ! k" using a by (auto simp: in_set_conv_nth)
  have kn: "k < n" using k(1) length_takeWhile_le [of "\<lambda>a. a \<noteq> 0" "map (wrap_add c) [0..<n]"] by simp
  have e: "a = wrap_add c k" using k kn by (simp add: takeWhile_nth)
  have "c + k < 2 ^ 64"
  proof (rule ccontr)
    assume "\<not> c + k < 2 ^ 64"
    then have j: "2 ^ 64 - c \<le> k" by simp
    then have "?t ! (2 ^ 64 - c) = wrap_add c (2 ^ 64 - c)" using k(1) kn by (simp add: takeWhile_nth)
    moreover have "wrap_add c (2 ^ 64 - c) = 0" using c(1) by (simp add: wrap_add_def)
    moreover have "?t ! (2 ^ 64 - c) \<noteq> 0" using nth_mem [OF le_less_trans [OF j k(1)]] by (blast dest: set_takeWhileD)
    ultimately show False by simp
  qed
  then show "lo \<le> a \<and> a < 2 ^ 64" using c(2) by (simp add: e wrap_add_def)
qed

lemma reads_backed:
  assumes "backed m lo" and "lo \<le> c" and "c < 2 ^ 64"
  shows "read_be_u32_at m c \<noteq> None" and "read_be_u64_at m c \<noteq> None"
proof -
  have z: "wrap_add c 0 = c" using assms(3) by (simp add: wrap_add_def)
  have w: "read_all m (map (wrap_add c) [0..<n]) \<noteq> None" for n
    using wrap_ahead [OF assms(3,2), of n] assms(1) by (intro read_all_backed) (auto simp: backed_def)
  have "map (wrap_add c) [0..<4] = [c, wrap_add c 1, wrap_add c 2, wrap_add c 3]" by (simp add: upt_conv_Cons z numeral_2_eq_2 numeral_3_eq_3)
  then show "read_be_u32_at m c \<noteq> None" using w [of 4] by (simp add: read_be_u32_at_def del: read_all.simps)
  have "map (wrap_add c) [0..<8] = [c, wrap_add c 1, wrap_add c 2, wrap_add c 3, wrap_add c 4, wrap_add c 5, wrap_add c 6, wrap_add c 7]"
    by (simp add: upt_conv_Cons z eval_nat_numeral)
  then show "read_be_u64_at m c \<noteq> None" using w [of 8] by (simp add: read_be_u64_at_def del: read_all.simps)
qed

lemma scan_backed: "backed m lo \<Longrightarrow> lo \<le> c \<Longrightarrow> limit \<le> 2 ^ 64 \<Longrightarrow> scan_zero m limit c \<noteq> None"
proof (induction m limit c rule: scan_zero.induct)
  case (1 m limit c)
  have "read_u8_at m c \<noteq> None" if "c < limit" using that 1(2-4) by (auto simp: read_u8_at_def backed_def)
  then show ?case using 1 by (subst scan_zero.simps) (auto split: option.splits)
qed

section \<open>What properties do\<close>

lemma read_u32_some: "length bs = 4 \<Longrightarrow> read_be_u32 (map Some bs) = Some (Some (be_value bs))"
  by (simp add: read_be_u32_def)

lemma read_cells_some: "\<forall>c\<in>set cs. c * 4 + 4 \<le> length bs \<Longrightarrow> read_cells (map Some bs) out cs \<noteq> None"
proof (induction cs arbitrary: out)
  case (Cons c cs)
  have "length (take 4 (drop (c * 4) bs)) = 4" using Cons.prems by auto
  then show ?case using Cons by (simp add: take_map drop_map read_u32_some)
qed simp

lemma cells_some: "read_cells_usize (map Some bs) n \<noteq> None"
  unfolding read_cells_usize_def using read_cells_some [of "[0..<n]" bs 0] by auto

lemma parse_reg_some: "parse_reg (map Some bs) a n \<noteq> None"
proof (induction "length bs" arbitrary: bs rule: less_induct)
  case less
  have c: "\<exists>r. read_cells_usize (take k (map Some bs)) j = Some r" "\<exists>r. read_cells_usize (take k (drop l (map Some bs))) j = Some r" for k l j
    using cells_some [of "take k bs" j] cells_some [of "take k (drop l bs)" j] by (simp_all add: take_map drop_map)
  have d: "parse_reg (drop ((a + n) * 4) (map Some bs)) a n \<noteq> None" if "(a + n) * 4 \<noteq> 0" "(a + n) * 4 \<le> length bs"
    unfolding drop_map by (rule less) (use that in auto)
  show ?case using c(1) [of "a * 4" a] c(2) [of "n * 4" "a * 4" n] d
    by (subst parse_reg.simps) (auto simp: Let_def split: option.splits)
qed

definition prop_state :: "u8 list \<Rightarrow> u8 list \<Rightarrow> node_state \<Rightarrow> node_state" where
  "prop_state name v n = fst (the (apply_property name (map Some v) (n, boot_info_empty)))"

definition prop_ops :: "u8 list \<Rightarrow> u8 list \<Rightarrow> node_state \<Rightarrow> boot_op list" where
  "prop_ops name v n =
     (if name \<noteq> bstr ''reg'' then []
      else let ranges = the (parse_reg (map Some v) (address_cells n) (size_cells n)) in
      if is_memory n \<and> status_ok n then map (\<lambda>(start, sz). PushMemory start (sat_add start sz)) ranges
      else if is_reserved_memory n \<and> \<not> is_memory n then map (\<lambda>(start, sz). PushReserved start (sat_add start sz)) ranges
      else [])"

lemma push_folds:
  "foldl (\<lambda>i (start, sz). push_memory_region start (sat_add start sz) i) i xs = foldl boot_step i (map (\<lambda>(start, sz). PushMemory start (sat_add start sz)) xs)"
  "foldl (\<lambda>i (start, sz). push_reserved_region start (sat_add start sz) i) i xs = foldl boot_step i (map (\<lambda>(start, sz). PushReserved start (sat_add start sz)) xs)"
  by (induction xs arbitrary: i) auto

lemma reg_name: "bstr ''reg'' \<noteq> bstr ''#address-cells''" "bstr ''reg'' \<noteq> bstr ''#size-cells''" "bstr ''reg'' \<noteq> bstr ''status''"
  "bstr ''reg'' \<noteq> bstr ''device_type''"
  by (auto simp: bstr_def)

text \<open>A property records regions, if it records anything.\<close>

lemma apply_reg:
  "apply_property (bstr ''reg'') v (n, i) = (if is_memory n \<and> status_ok n \<or> is_reserved_memory n \<and> \<not> is_memory n
      then map_option (\<lambda>rs. (n, foldl boot_step i (map (\<lambda>(start, sz). if is_memory n then PushMemory start (sat_add start sz) else PushReserved start (sat_add start sz)) rs)))
             (parse_reg v (address_cells n) (size_cells n)) else Some (n, i))"
  unfolding apply_property_def prod.case by (simp add: reg_name push_folds)

text \<open>Any other property changes the node only, in a way that does not depend on the boot information.\<close>

definition node_property :: "u8 list \<Rightarrow> raw_slice \<Rightarrow> node_state \<Rightarrow> node_state access" where
  "node_property name v n = map_option fst (apply_property name v (n, boot_info_empty))"

lemma apply_other:
  assumes "name \<noteq> bstr ''reg''"
  shows "apply_property name v (n, i) = map_option (\<lambda>n'. (n', i)) (node_property name v n)"
proof -
  consider "name = bstr ''#address-cells''" | "name \<noteq> bstr ''#address-cells''" "name = bstr ''#size-cells''"
    | "name \<noteq> bstr ''#address-cells''" "name \<noteq> bstr ''#size-cells''" "name = bstr ''status''"
    | "name \<noteq> bstr ''#address-cells''" "name \<noteq> bstr ''#size-cells''" "name \<noteq> bstr ''status''" by blast
  then show ?thesis
  proof cases
    case 3
    show ?thesis unfolding node_property_def apply_property_def prod.case using 3 assms
      by (simp only: if_False if_True simp_thms) (simp split: Option.bind_split)
  next
    case 4
    show ?thesis unfolding node_property_def apply_property_def prod.case using 4 assms
      by (simp only: if_False if_True simp_thms) (simp split: Option.bind_split add: option.map_comp comp_def)
  qed (simp_all add: apply_property_def node_property_def option.map_comp comp_def)
qed

lemma apply_property_steps:
  assumes "apply_property name v (n, i) = Some (n', i')"
  shows "\<exists>ops. i' = foldl boot_step i ops"
proof (cases "name = bstr ''reg''")
  case True
  then show ?thesis using assms by (cases "parse_reg v (address_cells n) (size_cells n)") (auto simp: apply_reg split: if_splits intro: exI [of _ "[]"])
next
  case False
  then show ?thesis using assms by (auto simp: apply_other intro: exI [of _ "[]"])
qed

lemma slice_eq_some [simp]: "slice_eq (map Some v) s = Some (v = s)"
  by (auto simp: slice_eq_def)

lemma node_property_some: "name \<noteq> bstr ''reg'' \<Longrightarrow> node_property name (map Some v) n \<noteq> None"
  using cells_some [of v 1] by (auto simp: node_property_def apply_property_def)

lemma apply_property_ops: "apply_property name (map Some v) (n, i) = Some (prop_state name v n, foldl boot_step i (prop_ops name v n))"
proof (cases "name = bstr ''reg''")
  case True
  obtain rs where "parse_reg (map Some v) (address_cells n) (size_cells n) = Some rs" using parse_reg_some by fastforce
  then show ?thesis by (simp add: True prop_state_def prop_ops_def apply_reg)
next
  case False
  then show ?thesis using node_property_some [OF False, of v n] by (auto simp: apply_other prop_state_def prop_ops_def)
qed

lemma node_finish_ops: "node_finish n i = foldl boot_step i (if is_cpu n \<and> status_ok n then [AddHart] else [])"
  by (simp add: node_finish_def)

section \<open>The structure block\<close>

text \<open>Every round moves forward by at least one token and only records regions and harts.\<close>

lemma begin_progress:
  assumes "begin_node m ende s = Some s'" and "cursor s \<le> ende" and "ende + 2 ^ 33 \<le> 2 ^ 64"
  shows "cursor s \<le> cursor s' \<and> cursor s' \<le> ende + 4 \<and> info s' = info s"
proof -
  obtain z nm where z: "scan_zero m ende (cursor s) = Some z" and s': "cursor s' = align4 (sat_add z 1)" "info s' = info s"
    using assms(1) by (auto simp: begin_node_def Let_def bind_eq_Some_conv)
  have b: "cursor s \<le> z" "z \<le> ende" using scan_zero_bounds [OF z] assms(2) by simp_all
  have "sat_add z 1 = z + 1" using b(2) assms(3) by (intro sat_add_exact) (simp add: usize_max_def)
  then show ?thesis using s' b align4_bounds [of "z + 1"] assms(3) by simp
qed

lemma property_progress:
  assumes "property m d s = Some s'" and "cursor s + 8 \<le> ende" and "ende + 2 ^ 33 \<le> 2 ^ 64"
  shows "cursor s \<le> cursor s' \<and> cursor s' \<le> ende + 2 ^ 32 + 3 \<and> (\<exists>ops. info s' = foldl boot_step (info s) ops)"
proof -
  have w8: "wrap_add (cursor s) 8 = cursor s + 8" using assms(2,3) by (intro wrap_add_exact) (simp add: usize_max_def)
  obtain r name where r: "read_be_u32_at m (cursor s) = Some r" and p: "cursor s' = align4 (sat_add (cursor s + 8) (unwrap_or 0 r))"
      "\<exists>ops. info s' = foldl boot_step (info s) ops"
  proof -
    obtain r r2 name where r: "read_be_u32_at m (cursor s) = Some r"
      and q: "(case name of None \<Rightarrow> Some (s\<lparr>cursor := align4 (sat_add (cursor s + 8) (unwrap_or 0 r))\<rparr>)
        | Some prop_name \<Rightarrow> map_option (\<lambda>(n, i). s\<lparr>cursor := align4 (sat_add (cursor s + 8) (unwrap_or 0 r)), node := n, info := i\<rparr>)
            (apply_property prop_name r2 (node s, info s))) = Some s'"
      using assms(1) unfolding property_def Let_def w8 by (auto simp: bind_eq_Some_conv)
    show thesis
    proof (rule that [OF r])
      show "cursor s' = align4 (sat_add (cursor s + 8) (unwrap_or 0 r))" using q by (auto split: option.splits)
      show "\<exists>ops. info s' = foldl boot_step (info s) ops"
        using q by (cases name) (auto intro: exI [of _ "[]"] dest: apply_property_steps)
    qed
  qed
  have len: "unwrap_or 0 r < 2 ^ 32" using unwrap_u32_bound [OF r] by simp
  have "sat_add (cursor s + 8) (unwrap_or 0 r) = cursor s + 8 + unwrap_or 0 r" using len assms(2,3) by (intro sat_add_exact) (simp add: usize_max_def)
  then show ?thesis using p len assms(2,3) align4_bounds [of "cursor s + 8 + unwrap_or 0 r"] by simp
qed

lemma round_progress:
  assumes e: "ende + 2 ^ 33 \<le> 2 ^ 64" and c: "cursor s \<le> ende + 2 ^ 32 + 16" and r: "fdt_round m d ende s = Some (Inr s')"
  shows "cursor s + 4 \<le> cursor s'" and "cursor s + 4 \<le> ende" and "cursor s' \<le> ende + 2 ^ 32 + 16"
    and "\<exists>ops. info s' = foldl boot_step (info s) ops"
proof -
  have w4: "wrap_add (cursor s) 4 = cursor s + 4" using c e by (intro wrap_add_exact) (simp add: usize_max_def)
  show l: "cursor s + 4 \<le> ende" using r w4 by (auto simp: fdt_round_def split: if_splits)
  obtain token where t: "read_be_u32_at m (cursor s) = Some (Some token)" using r by (auto simp: fdt_round_def split: if_splits option.splits)
  let ?s = "s\<lparr>cursor := cursor s + 4\<rparr>"
  have w8: "wrap_add (cursor s + 4) 8 = cursor s + 4 + 8" using l e by (intro wrap_add_exact) (simp add: usize_max_def)
  consider (b) "begin_node m ende ?s = Some s'" | (nd) "s' = end_node ?s" | (p) "property m d ?s = Some s'" "cursor s + 12 \<le> ende" | (n) "s' = ?s"
    using r t l that by (auto simp: fdt_round_def w4 w8 Let_def split: if_splits)
  then have "cursor s + 4 \<le> cursor s' \<and> cursor s' \<le> ende + 2 ^ 32 + 16 \<and> (\<exists>ops. info s' = foldl boot_step (info s) ops)"
  proof cases
    case b
    then show ?thesis using begin_progress [OF b] l e by (auto intro: exI [of _ "[]"])
  next
    case nd
    have "info s' = foldl boot_step (info s) (if is_cpu (node s) \<and> status_ok (node s) then [AddHart] else [])"
      using nd node_finish_ops [of "node s" "info s"] by (simp add: end_node_def)
    moreover have "cursor s' = cursor s + 4" using nd by (simp add: end_node_def)
    ultimately show ?thesis using l by (intro conjI exI) simp_all
  next
    case p
    show ?thesis using property_progress [OF p(1), of ende] p(2) e by auto
  next
    case n
    then show ?thesis using l by (auto intro: exI [of _ "[]"])
  qed
  then show "cursor s + 4 \<le> cursor s'" "cursor s' \<le> ende + 2 ^ 32 + 16" "\<exists>ops. info s' = foldl boot_step (info s) ops" by simp_all
qed

text \<open>A round faults only where memory is missing.\<close>

definition strings_within :: "nat \<Rightarrow> fdt \<Rightarrow> bool" where
  "strings_within lo d \<longleftrightarrow> lo \<le> fd_base d \<and> fd_base d + off_dt_strings d + size_dt_strings d < 2 ^ 64"

lemma string_backed: "backed m lo \<Longrightarrow> strings_within lo d \<Longrightarrow> fdt_string m d off \<noteq> None"
proof (cases "off < size_dt_strings d")
  case True
  assume m: "backed m lo" and d: "strings_within lo d"
  define st where "st = fd_base d + off_dt_strings d + off"
  define limit where "limit = fd_base d + off_dt_strings d + size_dt_strings d"
  have w: "wrap_add (wrap_add (fd_base d) (off_dt_strings d)) off = st" "wrap_add (wrap_add (fd_base d) (off_dt_strings d)) (size_dt_strings d) = limit"
    using d True by (simp_all add: wrap_add_exact usize_max_def st_def limit_def strings_within_def)
  have l: "lo \<le> st" "st \<le> limit" "limit \<le> 2 ^ 64" using d True by (auto simp: strings_within_def st_def limit_def)
  obtain z where z: "scan_zero m limit st = Some z" using scan_backed [OF m l(1,3)] by auto
  then have "z \<le> 2 ^ 64" using scan_zero_bounds [OF z] l by simp
  then show ?thesis using True z name_backed [OF m l(1)] by (simp add: fdt_string_def w)
qed (simp add: fdt_string_def)

lemma round_backed:
  assumes e: "ende + 2 ^ 33 \<le> 2 ^ 64" and c: "cursor s \<le> ende + 2 ^ 32 + 16"
    and m: "backed m lo" and lo: "lo \<le> cursor s" and d: "strings_within lo d"
  shows "fdt_round m d ende s \<noteq> None"
proof (cases "cursor s + 4 \<le> ende")
  case True
  have w: "wrap_add (cursor s) 4 = cursor s + 4" "wrap_add (cursor s + 4) 4 = cursor s + 8" "wrap_add (cursor s + 4) 8 = cursor s + 12"
    using True e by (simp_all add: wrap_add_exact usize_max_def)
  let ?s = "s\<lparr>cursor := cursor s + 4\<rparr>"
  have "begin_node m ende ?s \<noteq> None"
  proof -
    obtain z where z: "scan_zero m ende (cursor s + 4) = Some z" using scan_backed [OF m, of "cursor s + 4" ende] lo e by auto
    then have "z \<le> 2 ^ 64" using scan_zero_bounds [OF z] True e by simp
    then show ?thesis using z name_backed [OF m, of "cursor s + 4" z] lo by (auto simp: begin_node_def Let_def)
  qed
  moreover have "property m d ?s \<noteq> None" if "cursor s + 12 \<le> ende"
  proof -
    have "cursor s + 4 < 2 ^ 64" "cursor s + 8 < 2 ^ 64" using \<open>cursor s + 12 \<le> ende\<close> e by simp_all
    then obtain r r2 where r: "read_be_u32_at m (cursor s + 4) = Some r" "read_be_u32_at m (cursor s + 8) = Some r2"
      using reads_backed(1) [OF m, of "cursor s + 4"] reads_backed(1) [OF m, of "cursor s + 8"] lo by auto
    obtain name where name: "fdt_string m d (unwrap_or (2 ^ 32 - 1) r2) = Some name" using string_backed [OF m d] by fastforce
    have "unwrap_or 0 r < 2 ^ 32" using unwrap_u32_bound [OF r(1)] by simp
    then obtain bs where "unwrap_or [] (bytes_at m (cursor s + 12) (unwrap_or 0 r)) = map Some bs"
      using bytes_backed [OF m, of "cursor s + 12" "unwrap_or 0 r"] lo \<open>cursor s + 12 \<le> ende\<close> e by auto
    then show ?thesis using r name by (simp add: property_def w Let_def apply_property_ops split: option.split)
  qed
  moreover obtain r where "read_be_u32_at m (cursor s) = Some r" using reads_backed(1) [OF m lo] True e by auto
  ultimately show ?thesis by (cases r) (auto simp: fdt_round_def w Let_def)
next
  case False
  have "wrap_add (cursor s) 4 = cursor s + 4" using c e by (intro wrap_add_exact) (simp add: usize_max_def)
  then show ?thesis using False by (simp add: fdt_round_def)
qed

text \<open>How a run may end: with recorded regions and harts, or at a hole in the memory from \<open>lo\<close> on.\<close>

fun ends_well :: "memory \<Rightarrow> nat \<Rightarrow> boot_info \<Rightarrow> boot_info run_outcome \<Rightarrow> bool" where
  "ends_well m lo i Faulted \<longleftrightarrow> \<not> backed m lo"
| "ends_well m lo i (Completed j) \<longleftrightarrow> (\<exists>ops. j = foldl boot_step i ops)"

lemma ends_well_trans: "ends_well m lo (foldl boot_step i ops) r \<Longrightarrow> ends_well m lo i r"
  by (cases r) (auto simp flip: foldl_append)

lemma fdt_loop_ends:
  assumes e: "ende + 2 ^ 33 \<le> 2 ^ 64" and d: "strings_within lo d" and "cursor s \<le> ende + 2 ^ 32 + 16" and "lo \<le> cursor s"
  shows "\<exists>r. fdt_loop m d ende s = Some r \<and> ends_well m lo (info s) r"
  using assms(3,4)
proof (induction "ende - cursor s" arbitrary: s rule: less_induct)
  case less
  consider (f) "fdt_round m d ende s = None" | (l) i where "fdt_round m d ende s = Some (Inl i)" | (r) s' where "fdt_round m d ende s = Some (Inr s')"
    by (metis not_None_eq obj_sumE)
  then show ?case
  proof cases
    case f
    then show ?thesis using round_backed [OF e less.prems(1) _ less.prems(2) d, of m] by (auto simp: fdt_loop.simps)
  next
    case l
    then have "i = info s" by (auto simp: fdt_round_def Let_def split: if_splits option.splits)
    then show ?thesis using l by (auto simp: fdt_loop.simps intro: exI [of _ "[]"])
  next
    case r
    note p = round_progress [OF e less.prems(1) r]
    obtain ops where ops: "info s' = foldl boot_step (info s) ops" using p(4) by blast
    obtain r' where "fdt_loop m d ende s' = Some r'" "ends_well m lo (info s') r'" using less.hyps [of s'] p(1-3) less.prems(2) by force
    then show ?thesis using r ops ends_well_trans by (simp add: fdt_loop.simps [of m d ende s])
  qed
qed

section \<open>Reserved ranges\<close>

lemma read_all_nonzero: "read_all m as = Some (Some bs) \<Longrightarrow> 0 \<notin> set as"
  by (induction as arbitrary: bs) (auto simp: read_u8_at_def split: bind_splits if_splits option.splits)

text \<open>The list is not bounded by the size of the tree, but a read of address zero ends it.\<close>

lemma read_u64_nonzero:
  assumes "read_be_u64_at m c = Some (Some v)" and "k < 8" and "c < 2 ^ 64"
  shows "wrap_add c k \<noteq> 0"
proof -
  have "0 \<notin> set [c, wrap_add c 1, wrap_add c 2, wrap_add c 3, wrap_add c 4, wrap_add c 5, wrap_add c 6, wrap_add c 7]"
    using assms(1) read_all_nonzero unfolding read_be_u64_at_def map_option_eq_Some by blast
  moreover have "wrap_add c 0 = c" using assms(3) by (simp add: wrap_add_def)
  moreover have "k \<in> {0, 1, 2, 3, 4, 5, 6, 7}" using assms(2) by auto
  ultimately show ?thesis by auto
qed

lemma reserve_progress:
  assumes c: "c < 2 ^ 64" and r: "reserve_round m (c, i) = Some (Inr (c', i'))"
  shows "c \<noteq> 0" and "c + 16 \<le> 2 ^ 64" and "c' = (if c + 16 = 2 ^ 64 then 0 else c + 16)" and "\<exists>ops. i' = foldl boot_step i ops"
proof -
  obtain address where a: "read_be_u64_at m c = Some (Some address)" using r by (auto simp: reserve_round_def split: option.splits)
  then obtain sz where z: "read_be_u64_at m (wrap_add c 8) = Some (Some sz)" using r by (auto simp: reserve_round_def split: option.splits)
  have e: "c' = wrap_add c 16" "i' = boot_step i (PushReserved address (sat_add address sz))"
    using r a z by (auto simp: reserve_round_def split: if_splits)
  show "\<exists>ops. i' = foldl boot_step i ops" using e(2) by (intro exI [of _ "[PushReserved address (sat_add address sz)]"]) simp
  have w: "wrap_add (wrap_add c 8) k = wrap_add c (8 + k)" for k by (simp add: wrap_add_def mod_add_left_eq add.assoc)
  have n: "wrap_add c k \<noteq> 0" if "k < 16" for k
  proof (cases "k < 8")
    case False
    then have "8 + (k - 8) = k" "k - 8 < 8" using that by simp_all
    then show ?thesis using read_u64_nonzero [OF z, of "k - 8"] by (simp add: w) (simp add: wrap_add_def)
  qed (rule read_u64_nonzero [OF a _ c])
  show nz: "c \<noteq> 0" using n [of 0] c by (simp add: wrap_add_def)
  show le: "c + 16 \<le> 2 ^ 64"
  proof (rule ccontr)
    assume "\<not> c + 16 \<le> 2 ^ 64"
    then have "2 ^ 64 - c < 16" "wrap_add c (2 ^ 64 - c) = 0" using c by (auto simp: wrap_add_def)
    then show False using n by blast
  qed
  show "c' = (if c + 16 = 2 ^ 64 then 0 else c + 16)" using le by (simp add: e(1) wrap_add_def)
qed

lemma reserve_stops: "reserve_loop m (0, i) = Some (Completed i)"
  by (subst reserve_loop.simps) (simp add: reserve_round_def read_be_u64_at_def read_u8_at_def)

lemma reserve_fault:
  assumes "reserve_round m (c, i) = None" and "lo \<le> c" and "c < 2 ^ 64"
  shows "\<not> backed m lo"
proof
  assume m: "backed m lo"
  obtain r where r: "read_be_u64_at m c = Some r" using reads_backed(2) [OF m assms(2,3)] by blast
  then have f: "r \<noteq> None" "read_be_u64_at m (wrap_add c 8) = None" using assms(1) by (auto simp: reserve_round_def split: option.splits if_splits)
  have "wrap_add c 8 = 0 \<or> lo \<le> wrap_add c 8 \<and> wrap_add c 8 < 2 ^ 64"
  proof (cases "c + 8 < 2 ^ 64")
    case True
    then show ?thesis using assms(2) by (simp add: wrap_add_def)
  next
    case False
    obtain v where v: "read_be_u64_at m c = Some (Some v)" using r f(1) by auto
    have "c + 8 = 2 ^ 64 \<or> 2 ^ 64 - c < 8" using False assms(3) by linarith
    then show ?thesis using read_u64_nonzero [OF v, of "2 ^ 64 - c"] assms(3) by (auto simp: wrap_add_def)
  qed
  then show False using f(2) reads_backed(2) [OF m, of "wrap_add c 8"] by (auto simp: read_be_u64_at_def read_u8_at_def)
qed

lemma reserve_loop_ends: "c < 2 ^ 64 \<Longrightarrow> lo \<le> c \<or> c = 0 \<Longrightarrow> \<exists>r. reserve_loop m (c, i) = Some r \<and> ends_well m lo i r"
proof (induction "if c = 0 then 0 else 2 ^ 64 - c" arbitrary: c i rule: less_induct)
  case less
  show ?case
  proof (cases "c = 0")
    case True
    then show ?thesis by (auto simp: reserve_stops intro: exI [of _ "[]"])
  next
    case c0: False
    consider (f) "reserve_round m (c, i) = None" | (l) i' where "reserve_round m (c, i) = Some (Inl i')"
      | (r) c' i' where "reserve_round m (c, i) = Some (Inr (c', i'))"
      by (metis not_None_eq obj_sumE surj_pair)
    then show ?thesis
    proof cases
      case f
      then show ?thesis using reserve_fault [OF f] less.prems c0 by (auto simp: reserve_loop.simps)
    next
      case l
      then have "i' = i" by (auto simp: reserve_round_def split: if_splits option.splits)
      then show ?thesis using l by (auto simp: reserve_loop.simps intro: exI [of _ "[]"])
    next
      case r
      note p = reserve_progress [OF less.prems(1) r]
      obtain ops where ops: "i' = foldl boot_step i ops" using p(4) by blast
      have "(if c' = 0 then 0 else 2 ^ 64 - c') < (if c = 0 then 0 else 2 ^ 64 - c)" "c' < 2 ^ 64" "lo \<le> c' \<or> c' = 0"
        using p(1-3) less.prems c0 by (auto split: if_splits)
      from less.hyps [OF this] obtain q where "reserve_loop m (c', i') = Some q" "ends_well m lo i' q" by blast
      then show ?thesis using r ops ends_well_trans by (simp add: reserve_loop.simps [of m "(c, i)"])
    qed
  qed
qed

section \<open>The parser\<close>

lemma and_then_Some: "and_then r f = Some (Some y) \<longleftrightarrow> (\<exists>x. r = Some (Some x) \<and> f x = Some (Some y))"
  by (auto simp: and_then_def split: option.splits)

lemma fdt_newD:
  assumes "fdt_new m base = Some (Some d)"
  shows "fd_base d = base" and "total_size d < 2 ^ 32" and "off_dt_struct d < total_size d" and "off_dt_strings d + size_dt_strings d \<le> total_size d"
    and "40 \<le> total_size d"
proof -
  have "fd_base d = base \<and> off_dt_struct d < total_size d \<and> sat_add (off_dt_strings d) (size_dt_strings d) \<le> total_size d \<and> 40 \<le> total_size d
      \<and> read_be_u32_at m (wrap_add base 4) = Some (Some (total_size d))"
    using assms by (auto simp: fdt_new_def and_then_Some split: if_splits)
  moreover from this have t: "total_size d < 2 ^ 32" using read_u32_bound by blast
  moreover have "off_dt_strings d + size_dt_strings d \<le> total_size d" if "sat_add (off_dt_strings d) (size_dt_strings d) \<le> total_size d"
    using that t by (auto simp: sat_add_def usize_max_def min_def split: if_splits)
  ultimately show "fd_base d = base" "total_size d < 2 ^ 32" "off_dt_struct d < total_size d" "off_dt_strings d + size_dt_strings d \<le> total_size d" "40 \<le> total_size d"
    by blast+
qed

lemma fdt_new_fault:
  assumes "fdt_new m base = None" and "base + 2 ^ 34 \<le> 2 ^ 64"
  shows "\<not> backed m base"
proof
  assume m: "backed m base"
  have "read_be_u32_at m (wrap_add base k) \<noteq> None" if "k \<le> 36" for k
    using reads_backed(1) [OF m, of "base + k"] that assms(2) by (simp add: wrap_add_exact usize_max_def)
  from this [of 0] this [of 4] this [of 8] this [of 12] this [of 36] show False
    using assms by (auto simp: fdt_new_def and_then_def wrap_add_exact usize_max_def split: option.splits if_splits)
qed

lemma fill_ends:
  assumes "base + 2 ^ 34 \<le> 2 ^ 64" and "fdt_new m base = Some (Some d)"
  shows "\<exists>r. fill_boot_info m d i = Some r \<and> ends_well m base i r"
proof -
  note d = fdt_newD [OF assms(2)]
  have w: "wrap_add base (total_size d) = base + total_size d" "wrap_add base (off_dt_struct d) = base + off_dt_struct d" "wrap_add base 40 = base + 40"
    using assms(1) d by (auto intro!: wrap_add_exact simp: usize_max_def)
  obtain r where r: "reserve_loop m (base + 40, i) = Some r" "ends_well m base i r" using reserve_loop_ends [of "base + 40" base m i] assms(1) by auto
  show ?thesis
  proof (cases r)
    case Faulted
    then show ?thesis using r by (simp add: fill_boot_info_def parse_mem_reserve_def d(1) w)
  next
    case (Completed j)
    then obtain ops where ops: "j = foldl boot_step i ops" using r(2) by auto
    let ?s = "\<lparr>cursor = base + off_dt_struct d, depth = 0, node = node_default, stack = replicate 16 node_default, info = j\<rparr>"
    have "base + total_size d + 2 ^ 33 \<le> 2 ^ 64" "strings_within base d" using assms(1) d by (auto simp: strings_within_def)
    from fdt_loop_ends [OF this, of ?s m] obtain q where "fdt_loop m d (base + total_size d) ?s = Some q" "ends_well m base j q" using d(3) by auto
    then show ?thesis using r(1) Completed ops ends_well_trans by (simp add: fill_boot_info_def parse_mem_reserve_def d(1) w)
  qed
qed

end
