(* ===== verification/Fdt_Tree.thy ===== *)
theory Fdt_Tree
  imports Fdt_Loops
begin

text \<open>
  Device trees as trees, their flattened form, and what the parser makes of it: the same regions and harts, in the same order,
  as a walk over the tree.
\<close>

section \<open>Trees\<close>

datatype dt_node = Node "u8 list" "dt_item list"
     and dt_item = Nop | Prop nat "u8 list" | Child dt_node

text \<open>Big-endian numbers, and zero bytes up to a multiple of four.\<close>

definition be_bytes :: "nat \<Rightarrow> nat \<Rightarrow> u8 list" where
  "be_bytes n v = rev (le_bytes n v)"

definition pad4 :: "u8 list \<Rightarrow> u8 list" where
  "pad4 xs = xs @ replicate ((4 - length xs mod 4) mod 4) 0"

fun enc_node :: "dt_node \<Rightarrow> u8 list" and enc_items :: "dt_item list \<Rightarrow> u8 list" where
  "enc_node (Node name items) = be_bytes 4 FDT_BEGIN_NODE @ pad4 (name @ [0]) @ enc_items items"
| "enc_items [] = be_bytes 4 FDT_END_NODE"
| "enc_items (Nop # r) = be_bytes 4 FDT_NOP @ enc_items r"
| "enc_items (Prop off v # r) = be_bytes 4 FDT_PROP @ be_bytes 4 (length v) @ be_bytes 4 off @ pad4 v @ enc_items r"
| "enc_items (Child n # r) = enc_node n @ enc_items r"

text \<open>Names have no zero byte, lengths fit 32 bits, and names of properties start within the \<open>ns\<close> bytes of strings.\<close>

fun wf_node :: "nat \<Rightarrow> dt_node \<Rightarrow> bool" and wf_items :: "nat \<Rightarrow> dt_item list \<Rightarrow> bool" where
  "wf_node ns (Node name items) \<longleftrightarrow> 0 \<notin> set name \<and> wf_items ns items"
| "wf_items ns [] \<longleftrightarrow> True"
| "wf_items ns (Nop # r) \<longleftrightarrow> wf_items ns r"
| "wf_items ns (Prop off v # r) \<longleftrightarrow> off < ns \<and> length v < 2 ^ 32 \<and> wf_items ns r"
| "wf_items ns (Child n # r) \<longleftrightarrow> wf_node ns n \<and> wf_items ns r"

fun height_node :: "dt_node \<Rightarrow> nat" and height_items :: "dt_item list \<Rightarrow> nat" where
  "height_node (Node name items) = height_items items + 1"
| "height_items [] = 0"
| "height_items (Child n # r) = max (height_node n) (height_items r)"
| "height_items (_ # r) = height_items r"

text \<open>The walk: what a node records, given the block of strings and the state of its parent.\<close>

definition string_of :: "u8 list \<Rightarrow> nat \<Rightarrow> u8 list option" where
  "string_of strs off = (if off < length strs then Some (takeWhile (\<lambda>b. b \<noteq> 0) (drop off strs)) else None)"

fun node_ops :: "u8 list \<Rightarrow> node_state \<Rightarrow> dt_node \<Rightarrow> boot_op list" and items_ops :: "u8 list \<Rightarrow> node_state \<Rightarrow> dt_item list \<Rightarrow> boot_op list" where
  "node_ops strs parent (Node name items) = items_ops strs (for_child parent name) items"
| "items_ops strs n [] = (if is_cpu n \<and> status_ok n then [AddHart] else [])"
| "items_ops strs n (Nop # r) = items_ops strs n r"
| "items_ops strs n (Prop off v # r) =
     (case string_of strs off of None \<Rightarrow> items_ops strs n r
      | Some name \<Rightarrow> prop_ops name v n @ items_ops strs (prop_state name v n) r)"
| "items_ops strs n (Child c # r) = node_ops strs n c @ items_ops strs n r"

section \<open>Bytes in memory\<close>

definition mem_at :: "memory \<Rightarrow> nat \<Rightarrow> u8 list \<Rightarrow> bool" where
  "mem_at m a xs \<longleftrightarrow> map m [a..<a + length xs] = map Some xs"

lemma mem_at_nth: "mem_at m a xs \<longleftrightarrow> (\<forall>i<length xs. m (a + i) = Some (xs ! i))"
  unfolding mem_at_def list_eq_iff_nth_eq by simp

lemma mem_at_append [simp]: "mem_at m a (xs @ ys) \<longleftrightarrow> mem_at m a xs \<and> mem_at m (a + length xs) ys"
proof -
  have "[a..<a + length (xs @ ys)] = [a..<a + length xs] @ [a + length xs..<a + length xs + length ys]"
    using upt_add_eq_append [of a "a + length xs" "length ys"] by (simp add: add.assoc)
  then show ?thesis unfolding mem_at_def by simp
qed

lemma be_value_rev: "be_value (rev xs) = le_value xs"
  by (induction xs) (simp_all add: be_value_def)

lemma be_value_bytes [simp]: "be_value (be_bytes n v) = v mod 256 ^ n"
  by (simp add: be_bytes_def be_value_rev)

lemma length_be_bytes [simp]: "length (be_bytes n v) = n"
  by (simp add: be_bytes_def)

lemma read_all_mem: "0 \<notin> set as \<Longrightarrow> map m as = map Some bs \<Longrightarrow> read_all m as = Some (Some bs)"
  by (induction as arbitrary: bs) (auto simp: read_u8_at_def map_eq_Cons_conv)

lemma read_u32_mem:
  assumes "mem_at m c (be_bytes 4 v)" and "0 < c" and "c + 4 \<le> 2 ^ 64" and "v < 2 ^ 32"
  shows "read_be_u32_at m c = Some (Some v)"
proof -
  have w: "wrap_add c k = c + k" if "k < 4" for k using that assms(3) by (intro wrap_add_exact) (simp add: usize_max_def)
  have "[c, wrap_add c 1, wrap_add c 2, wrap_add c 3] = [c..<c + 4]" using w by (simp add: upt_conv_Cons)
  moreover have "map m [c..<c + 4] = map Some (be_bytes 4 v)" using assms(1) by (simp add: mem_at_def)
  then have "read_all m [c..<c + 4] = Some (Some (be_bytes 4 v))" by (rule read_all_mem [rotated]) (use assms(2) in auto)
  ultimately show ?thesis using assms(4) by (simp add: read_be_u32_at_def)
qed

lemma read_u64_mem:
  assumes "mem_at m c (be_bytes 8 v)" and "0 < c" and "c + 8 \<le> 2 ^ 64" and "v < 2 ^ 64"
  shows "read_be_u64_at m c = Some (Some v)"
proof -
  have w: "wrap_add c k = c + k" if "k < 8" for k using that assms(3) by (intro wrap_add_exact) (simp add: usize_max_def)
  have "[c, wrap_add c 1, wrap_add c 2, wrap_add c 3, wrap_add c 4, wrap_add c 5, wrap_add c 6, wrap_add c 7] = [c..<c + 8]"
    using w by (simp add: upt_conv_Cons)
  moreover have "map m [c..<c + 8] = map Some (be_bytes 8 v)" using assms(1) by (simp add: mem_at_def)
  then have "read_all m [c..<c + 8] = Some (Some (be_bytes 8 v))" by (rule read_all_mem [rotated]) (use assms(2) in auto)
  ultimately show ?thesis using assms(4) by (simp add: read_be_u64_at_def)
qed

lemma scan_zero_stop:
  assumes "\<forall>i<n. \<exists>b. m (c + i) = Some b \<and> b \<noteq> 0" and "0 < c" and "c + n = limit \<or> c + n < limit \<and> m (c + n) = Some 0"
  shows "scan_zero m limit c = Some (c + n)"
  using assms
proof (induction n arbitrary: c)
  case 0
  then show ?case by (subst scan_zero.simps) (auto simp: read_u8_at_def)
next
  case (Suc n)
  have "\<exists>b. m c = Some b \<and> b \<noteq> 0" using Suc.prems(1) by (auto dest: spec [of _ 0])
  moreover have "\<forall>i<n. \<exists>b. m (c + 1 + i) = Some b \<and> b \<noteq> 0" using Suc.prems(1) by (auto dest: spec [of _ "Suc _"])
  from Suc.IH [OF this] have "scan_zero m limit (c + 1) = Some (c + 1 + n)" using Suc.prems(2,3) by auto
  moreover have "c < limit" using Suc.prems(3) by auto
  ultimately show ?case using Suc.prems(2) by (subst scan_zero.simps) (auto simp: read_u8_at_def)
qed

lemma scan_zero_name:
  assumes "mem_at m c (name @ [0])" and "0 \<notin> set name" and "0 < c" and "c + length name < limit"
  shows "scan_zero m limit c = Some (c + length name)"
proof (rule scan_zero_stop)
  have n: "mem_at m c name" "mem_at m (c + length name) [0]" using assms(1) by simp_all
  show "\<forall>i<length name. \<exists>b. m (c + i) = Some b \<and> b \<noteq> 0" using n(1) assms(2) by (auto simp: mem_at_nth in_set_conv_nth)
  show "c + length name = limit \<or> c + length name < limit \<and> m (c + length name) = Some 0" using n(2) assms(4) by (simp add: mem_at_nth)
qed (rule assms(3))

lemma bytes_at_mem: "mem_at m c xs \<Longrightarrow> 0 < c \<Longrightarrow> bytes_at m c (length xs) = Some (map Some xs)"
  by (simp add: bytes_at_def mem_at_def)

lemma name_at_mem: "mem_at m c xs \<Longrightarrow> 0 < c \<Longrightarrow> name_at m c (c + length xs) = Some (Some xs)"
  by (simp add: name_at_def sat_sub_def bytes_at_mem)

lemma fdt_string_mem:
  assumes "mem_at m (fd_base d + off_dt_strings d) strs" and "size_dt_strings d = length strs"
    and "0 < fd_base d" and "fd_base d + off_dt_strings d + length strs < 2 ^ 64"
  shows "fdt_string m d off = Some (string_of strs off)"
proof (cases "off < length strs")
  case True
  define st where "st = fd_base d + off_dt_strings d + off"
  define r where "r = drop off strs"
  define t where "t = takeWhile (\<lambda>b. b \<noteq> 0) r"
  have lr: "length strs = off + length r" using True by (simp add: r_def)
  have w: "wrap_add (wrap_add (fd_base d) (off_dt_strings d)) off = st"
    "wrap_add (wrap_add (fd_base d) (off_dt_strings d)) (size_dt_strings d) = st + length r"
    using assms(2,4) by (simp_all add: wrap_add_exact usize_max_def st_def lr)
  have mr: "mem_at m st r" using assms(1) True unfolding mem_at_nth by (auto simp: st_def r_def add.assoc)
  have l: "length t \<le> length r" unfolding t_def by (rule length_takeWhile_le)
  have "\<exists>b. m (st + i) = Some b \<and> b \<noteq> 0" if "i < length t" for i
  proof -
    have "m (st + i) = Some (t ! i)" using mr that l by (simp add: mem_at_nth t_def takeWhile_nth)
    then show ?thesis using nth_mem [OF that] set_takeWhileD unfolding t_def by force
  qed
  moreover have "st + length t = st + length r \<or> st + length t < st + length r \<and> m (st + length t) = Some 0"
  proof (cases "length t < length r")
    case True
    then have "r ! length t = 0" using nth_length_takeWhile [of "\<lambda>b. b \<noteq> 0" r] by (simp add: t_def)
    then show ?thesis using mr True by (simp add: mem_at_nth)
  qed (use l in simp)
  ultimately have z: "scan_zero m (st + length r) st = Some (st + length t)" using assms(3) by (intro scan_zero_stop) (auto simp: st_def)
  have "mem_at m st t" using mr l unfolding mem_at_nth by (auto simp: t_def takeWhile_nth)
  then have "name_at m st (st + length t) = Some (Some t)" using assms(3) by (intro name_at_mem) (simp_all add: st_def)
  then have "fdt_string m d off = Some (Some t)" using True assms(2) z unfolding fdt_string_def Let_def w by simp
  then show ?thesis using True by (simp add: string_of_def t_def r_def)
next
  case False
  then show ?thesis using assms(2) by (simp add: fdt_string_def string_of_def)
qed

text \<open>A longer block of strings gives the same names for offsets into a block that ends with a zero byte.\<close>

lemma string_of_longer:
  assumes "0 \<in> set (drop off strs)" and "length strs \<le> k"
  shows "string_of (take k (strs @ pad)) off = string_of strs off"
proof -
  have l: "off < length strs" using assms(1) by (cases "off < length strs") auto
  have "take k (strs @ pad) = strs @ take (k - length strs) pad" using assms(2) by simp
  then have "drop off (take k (strs @ pad)) = drop off strs @ take (k - length strs) pad" using l by simp
  then show ?thesis using l assms by (simp add: string_of_def takeWhile_append1)
qed

section \<open>One token\<close>

lemma length_pad4: "length (pad4 xs) = length xs + (4 - length xs mod 4) mod 4"
  by (simp add: pad4_def)

lemma pad_mod: "(n + (4 - n mod 4) mod 4) mod 4 = (0::nat)"
proof -
  consider "n mod 4 = 0" | "n mod 4 = 1" | "n mod 4 = 2" | "n mod 4 = 3" by linarith
  then show ?thesis
  proof cases
    case 1 then show ?thesis by simp
  next
    case 2 then show ?thesis using mod_add_left_eq [of n 4 3] by simp
  next
    case 3 then show ?thesis using mod_add_left_eq [of n 4 2] by simp
  next
    case 4 then show ?thesis using mod_add_left_eq [of n 4 1] by simp
  qed
qed

lemma pad4_dvd [simp]: "4 dvd length (pad4 xs)"
  unfolding length_pad4 dvd_eq_mod_eq_0 by (rule pad_mod)

lemma align4_pad:
  assumes "c mod 4 = 0" and "c + n + 3 < 2 ^ 64"
  shows "align4 (c + n) = c + n + (4 - n mod 4) mod 4"
proof -
  define p where "p = (4 - n mod 4) mod 4"
  have p: "p \<le> 3" unfolding p_def using mod_less_divisor [of 4 "4 - n mod 4"] by linarith
  have "(c + (n + p)) mod 4 = 0" using assms(1) pad_mod [of n] unfolding p_def by (metis mod_add_left_eq add_0)
  then have q: "(c + n + p) mod 4 = 0" by (simp add: add.assoc)
  have e: "x mod 4 = 0 \<Longrightarrow> y mod 4 = 0 \<Longrightarrow> v \<le> x \<Longrightarrow> x \<le> v + 3 \<Longrightarrow> v \<le> y \<Longrightarrow> y \<le> v + 3 \<Longrightarrow> x = y" for x y v :: nat by presburger
  show ?thesis unfolding p_def [symmetric] using align4_bounds [OF assms(2)] p q e [of "align4 (c + n)" "c + n + p" "c + n"] by linarith
qed

lemma mem_pad4: "mem_at m c (pad4 xs) \<Longrightarrow> mem_at m c xs"
  by (simp add: pad4_def)

text \<open>What every round of a well-formed block relies on.\<close>

definition block_at :: "memory \<Rightarrow> nat \<Rightarrow> nat \<Rightarrow> u8 list \<Rightarrow> bool" where
  "block_at m ende c xs \<longleftrightarrow> mem_at m c xs \<and> c mod 4 = 0 \<and> 0 < c \<and> c + length xs \<le> ende \<and> ende + 2 ^ 33 \<le> 2 ^ 64"

lemma block_append:
  "block_at m ende c (xs @ ys) \<Longrightarrow> 4 dvd length xs \<Longrightarrow> block_at m ende c xs \<and> block_at m ende (c + length xs) ys"
  unfolding block_at_def dvd_eq_mod_eq_0 by auto

lemma round_token:
  assumes "block_at m ende (cursor s) (be_bytes 4 t)" and "t < 2 ^ 32"
  shows "fdt_round m d ende s = (let s = s\<lparr>cursor := cursor s + 4\<rparr> in
           if t = FDT_BEGIN_NODE then map_option Inr (begin_node m ende s) else if t = FDT_END_NODE then Some (Inr (end_node s))
           else if t = FDT_PROP then (if wrap_add (cursor s) 8 > ende then Some (Inl (info s)) else map_option Inr (property m d s))
           else if t = FDT_NOP then Some (Inr s) else Some (Inl (info s)))"
proof -
  have b: "mem_at m (cursor s) (be_bytes 4 t)" "0 < cursor s" "cursor s + 4 \<le> ende" "ende + 2 ^ 33 \<le> 2 ^ 64"
    using assms(1) by (simp_all add: block_at_def)
  have w: "wrap_add (cursor s) 4 = cursor s + 4" using b(3,4) by (intro wrap_add_exact) (simp add: usize_max_def)
  have "read_be_u32_at m (cursor s) = Some (Some t)" using b assms(2) by (intro read_u32_mem) simp_all
  then show ?thesis using b(3) by (simp add: fdt_round_def w)
qed

lemma loop_step: "fdt_round m d ende s = Some (Inr s') \<Longrightarrow> fdt_loop m d ende s = fdt_loop m d ende s'"
  by (subst fdt_loop.simps) simp

lemma loop_begin:
  assumes "block_at m ende (cursor s) (be_bytes 4 FDT_BEGIN_NODE @ pad4 (name @ [0]))" and "0 \<notin> set name"
    and "depth s < length (stack s)"
  shows "fdt_loop m d ende s = fdt_loop m d ende (s\<lparr>cursor := cursor s + 4 + length (pad4 (name @ [0])), depth := depth s + 1,
           node := for_child (node s) name, stack := (stack s)[depth s := node s]\<rparr>)"
proof (rule loop_step)
  define c where "c = cursor s + 4"
  have b: "block_at m ende (cursor s) (be_bytes 4 FDT_BEGIN_NODE)" "block_at m ende c (pad4 (name @ [0]))"
    using block_append [OF assms(1)] by (simp_all add: c_def)
  have n: "mem_at m c (name @ [0])" "c mod 4 = 0" "0 < c" "c + length (pad4 (name @ [0])) \<le> ende" "ende + 2 ^ 33 \<le> 2 ^ 64"
    using b(2) by (auto simp: block_at_def dest: mem_pad4)
  have l: "c + length name < ende" using n(4) unfolding length_pad4 by simp
  have z: "scan_zero m ende c = Some (c + length name)" using n(1) assms(2) n(3) l by (rule scan_zero_name)
  have "name_at m c (c + length name) = Some (Some name)" using n(1,3) by (intro name_at_mem) simp_all
  moreover have "align4 (sat_add (c + length name) 1) = c + length (pad4 (name @ [0]))"
  proof -
    have "sat_add (c + length name) 1 = c + length (name @ [0])" using l n(5) by (simp add: sat_add_exact usize_max_def)
    then show ?thesis using align4_pad [of c "length (name @ [0])"] n(2,5) l unfolding length_pad4 by simp
  qed
  ultimately have "begin_node m ende (s\<lparr>cursor := c\<rparr>) = Some (s\<lparr>cursor := c + length (pad4 (name @ [0])), depth := depth s + 1,
           node := for_child (node s) name, stack := (stack s)[depth s := node s]\<rparr>)"
    using assms(3) by (simp add: begin_node_def Let_def z unwrap_or_def stack_get_def)
  then show "fdt_round m d ende s = Some (Inr (s\<lparr>cursor := cursor s + 4 + length (pad4 (name @ [0])), depth := depth s + 1,
           node := for_child (node s) name, stack := (stack s)[depth s := node s]\<rparr>))"
    using round_token [OF b(1), of d] by (simp add: Let_def c_def FDT_BEGIN_NODE_def)
qed

lemma loop_end:
  assumes "block_at m ende (cursor s) (be_bytes 4 FDT_END_NODE)" and "depth s = Suc k" and "k < length (stack s)"
  shows "fdt_loop m d ende s = fdt_loop m d ende (s\<lparr>cursor := cursor s + 4, depth := k, node := stack s ! k,
           info := foldl boot_step (info s) (if is_cpu (node s) \<and> status_ok (node s) then [AddHart] else [])\<rparr>)"
  using round_token [OF assms(1), of d] assms(2,3)
  by (intro loop_step) (simp add: Let_def FDT_END_NODE_def FDT_BEGIN_NODE_def end_node_def sat_sub_def stack_get_def node_finish_ops)

lemma loop_nop:
  assumes "block_at m ende (cursor s) (be_bytes 4 FDT_NOP)"
  shows "fdt_loop m d ende s = fdt_loop m d ende (s\<lparr>cursor := cursor s + 4\<rparr>)"
  using round_token [OF assms, of d]
  by (intro loop_step) (simp add: Let_def FDT_NOP_def FDT_PROP_def FDT_END_NODE_def FDT_BEGIN_NODE_def)

lemma loop_prop:
  assumes "block_at m ende (cursor s) (be_bytes 4 FDT_PROP @ be_bytes 4 (length v) @ be_bytes 4 off @ pad4 v)"
    and "off < 2 ^ 32" and "length v < 2 ^ 32" and "fdt_string m d off = Some (string_of strs off)"
  shows "fdt_loop m d ende s = fdt_loop m d ende (case string_of strs off of
             None \<Rightarrow> s\<lparr>cursor := cursor s + 12 + length (pad4 v)\<rparr>
           | Some name \<Rightarrow> s\<lparr>cursor := cursor s + 12 + length (pad4 v), node := prop_state name v (node s),
               info := foldl boot_step (info s) (prop_ops name v (node s))\<rparr>)"
proof (rule loop_step)
  define c where "c = cursor s + 4"
  have b: "block_at m ende (cursor s) (be_bytes 4 FDT_PROP)" "block_at m ende c (be_bytes 4 (length v) @ be_bytes 4 off @ pad4 v)"
    using block_append [OF assms(1)] by (simp_all add: c_def)
  have n: "mem_at m c (be_bytes 4 (length v))" "mem_at m (c + 4) (be_bytes 4 off)" "mem_at m (c + 8) v" "c mod 4 = 0" "0 < c"
      "c + 8 + length (pad4 v) \<le> ende" "ende + 2 ^ 33 \<le> 2 ^ 64"
    using b(2) by (auto simp: block_at_def add.assoc dest: mem_pad4)
  have l: "c + 8 + length v \<le> ende" using n(6) unfolding length_pad4 by simp
  have w: "wrap_add c 4 = c + 4" "wrap_add c 8 = c + 8" using l n(7) by (auto intro!: wrap_add_exact simp: usize_max_def)
  have r: "read_be_u32_at m c = Some (Some (length v))" "read_be_u32_at m (c + 4) = Some (Some off)"
    using n l assms(2,3) by (auto intro!: read_u32_mem)
  have y: "bytes_at m (c + 8) (length v) = Some (map Some v)" using n(3) by (intro bytes_at_mem) simp_all
  have a: "align4 (sat_add (c + 8) (length v)) = c + 8 + length (pad4 v)"
  proof -
    have "sat_add (c + 8) (length v) = c + 8 + length v" using l n(7) by (simp add: sat_add_exact usize_max_def)
    moreover have "(c + 8) mod 4 = 0" using n(4) by presburger
    ultimately show ?thesis using align4_pad [of "c + 8" "length v"] n(7) l unfolding length_pad4 by simp
  qed
  have "fdt_round m d ende s = map_option Inr (property m d (s\<lparr>cursor := c\<rparr>))"
    using round_token [OF b(1), of d] l by (simp add: Let_def FDT_PROP_def FDT_END_NODE_def FDT_BEGIN_NODE_def c_def w(2) [unfolded c_def])
  moreover have "property m d (s\<lparr>cursor := c\<rparr>) = Some (case string_of strs off of
             None \<Rightarrow> s\<lparr>cursor := c + 8 + length (pad4 v)\<rparr>
           | Some name \<Rightarrow> s\<lparr>cursor := c + 8 + length (pad4 v), node := prop_state name v (node s),
               info := foldl boot_step (info s) (prop_ops name v (node s))\<rparr>)"
    by (simp add: property_def Let_def w r y a unwrap_or_def assms(4) apply_property_ops split: option.split)
  moreover have e: "c + 8 = cursor s + 12" by (simp add: c_def)
  ultimately show "fdt_round m d ende s = Some (Inr (case string_of strs off of
             None \<Rightarrow> s\<lparr>cursor := cursor s + 12 + length (pad4 v)\<rparr>
           | Some name \<Rightarrow> s\<lparr>cursor := cursor s + 12 + length (pad4 v), node := prop_state name v (node s),
               info := foldl boot_step (info s) (prop_ops name v (node s))\<rparr>))" unfolding e by (simp only: option.map)
qed

section \<open>A whole node\<close>

lemma enc_dvd [simp]: "4 dvd length (enc_node n)" "4 dvd length (enc_items is)"
  by (induction n and "is" rule: enc_node_enc_items.induct) simp_all

lemma loop_tree:
  assumes str: "\<And>off. off < ns \<Longrightarrow> fdt_string m d off = Some (string_of strs off)" and ns: "ns \<le> 2 ^ 32"
  shows "block_at m ende (cursor s) (enc_node n) \<Longrightarrow> wf_node ns n \<Longrightarrow> depth s + height_node n \<le> length (stack s) \<Longrightarrow>
      \<exists>st. fdt_loop m d ende s = fdt_loop m d ende (s\<lparr>cursor := cursor s + length (enc_node n), stack := st,
               info := foldl boot_step (info s) (node_ops strs (node s) n)\<rparr>)
           \<and> length st = length (stack s) \<and> take (depth s) st = take (depth s) (stack s)"
    and "block_at m ende (cursor s) (enc_items is) \<Longrightarrow> wf_items ns is \<Longrightarrow> depth s = Suc k \<Longrightarrow> depth s + height_items is \<le> length (stack s) \<Longrightarrow>
      \<exists>st. fdt_loop m d ende s = fdt_loop m d ende (s\<lparr>cursor := cursor s + length (enc_items is), depth := k, node := stack s ! k, stack := st,
               info := foldl boot_step (info s) (items_ops strs (node s) is)\<rparr>)
           \<and> length st = length (stack s) \<and> take (Suc k) st = take (Suc k) (stack s)"
proof (induction n and "is" arbitrary: s and s k rule: enc_node_enc_items.induct)
  case (1 name items)
  define s' where "s' = s\<lparr>cursor := cursor s + 4 + length (pad4 (name @ [0])), depth := depth s + 1,
           node := for_child (node s) name, stack := (stack s)[depth s := node s]\<rparr>"
  have b: "block_at m ende (cursor s) (be_bytes 4 FDT_BEGIN_NODE @ pad4 (name @ [0]))" "block_at m ende (cursor s') (enc_items items)"
    using block_append [of m ende "cursor s" "be_bytes 4 FDT_BEGIN_NODE @ pad4 (name @ [0])" "enc_items items"] 1(2)
    by (simp_all add: s'_def add.assoc)
  have l: "depth s < length (stack s)" using 1(4) by simp
  have "fdt_loop m d ende s = fdt_loop m d ende s'" unfolding s'_def using 1(3) l by (intro loop_begin [OF b(1)]) auto
  moreover have "\<exists>st. fdt_loop m d ende s' = fdt_loop m d ende (s'\<lparr>cursor := cursor s' + length (enc_items items), depth := depth s,
               node := stack s' ! depth s, stack := st, info := foldl boot_step (info s') (items_ops strs (node s') items)\<rparr>)
           \<and> length st = length (stack s') \<and> take (Suc (depth s)) st = take (Suc (depth s)) (stack s')"
    using 1(3,4) by (intro "1.IH" b(2)) (simp_all add: s'_def)
  then obtain st where st: "fdt_loop m d ende s' = fdt_loop m d ende (s'\<lparr>cursor := cursor s' + length (enc_items items), depth := depth s,
               node := stack s' ! depth s, stack := st, info := foldl boot_step (info s') (items_ops strs (node s') items)\<rparr>)"
    "length st = length (stack s')" "take (Suc (depth s)) st = take (Suc (depth s)) (stack s')" by blast
  moreover have "take (depth s) st = take (depth s) (stack s)"
    using arg_cong [OF st(3), of "take (depth s)"] by (simp add: s'_def)
  ultimately show ?case using l by (intro exI [of _ st]) (simp add: s'_def add.assoc)
next
  case 2
  then show ?case using loop_end [of m ende s k d] by (intro exI [of _ "stack s"]) simp
next
  case (3 r)
  have b: "block_at m ende (cursor s) (be_bytes 4 FDT_NOP)" "block_at m ende (cursor s + 4) (enc_items r)"
    using block_append [of m ende "cursor s" "be_bytes 4 FDT_NOP" "enc_items r"] 3(2) by simp_all
  from "3.IH" [of "s\<lparr>cursor := cursor s + 4\<rparr>" k] loop_nop [OF b(1), of d] show ?case using b(2) 3(3-5) by (simp add: add.assoc)
next
  case (4 off v r)
  define s' where "s' = (case string_of strs off of
             None \<Rightarrow> s\<lparr>cursor := cursor s + 12 + length (pad4 v)\<rparr>
           | Some name \<Rightarrow> s\<lparr>cursor := cursor s + 12 + length (pad4 v), node := prop_state name v (node s),
               info := foldl boot_step (info s) (prop_ops name v (node s))\<rparr>)"
  have "block_at m ende (cursor s) ((be_bytes 4 FDT_PROP @ be_bytes 4 (length v) @ be_bytes 4 off @ pad4 v) @ enc_items r)" using 4(2) by simp
  from block_append [OF this] have b: "block_at m ende (cursor s) (be_bytes 4 FDT_PROP @ be_bytes 4 (length v) @ be_bytes 4 off @ pad4 v)"
      "block_at m ende (cursor s + 12 + length (pad4 v)) (enc_items r)"
    by (simp_all add: add.assoc)
  have "fdt_loop m d ende s = fdt_loop m d ende s'" unfolding s'_def using 4(3) ns by (intro loop_prop [OF b(1)] str) simp_all
  with "4.IH" [of s' k] show ?case using b(2) 4(3-5) by (cases "string_of strs off") (simp_all add: s'_def add.assoc)
next
  case (5 n r)
  have b: "block_at m ende (cursor s) (enc_node n)" "block_at m ende (cursor s + length (enc_node n)) (enc_items r)"
    using block_append [of m ende "cursor s" "enc_node n" "enc_items r"] 5(3) by simp_all
  from "5.IH"(1) [OF b(1)] 5(4,6) obtain st where st: "fdt_loop m d ende s = fdt_loop m d ende (s\<lparr>cursor := cursor s + length (enc_node n), stack := st,
               info := foldl boot_step (info s) (node_ops strs (node s) n)\<rparr>)"
    "length st = length (stack s)" "take (Suc k) st = take (Suc k) (stack s)" using 5(5) by fastforce
  have "st ! k = stack s ! k" using st(3) by (metis lessI nth_take)
  with "5.IH"(2) [of "s\<lparr>cursor := cursor s + length (enc_node n), stack := st, info := foldl boot_step (info s) (node_ops strs (node s) n)\<rparr>" k]
  show ?case using b(2) 5(4-6) st by (simp add: add.assoc)
qed

end
