(* ===== verification/Fdt_Blob.thy ===== *)
theory Fdt_Blob
  imports Fdt_Tree
begin

text \<open>
  A whole flattened device tree: header, list of reserved ranges, structure block and strings, laid out one after the other.
  Parsing it gives what a walk over the tree gives, with no byte outside the tree read.
\<close>

section \<open>The list of reserved ranges\<close>

fun enc_rsv :: "(nat \<times> nat) list \<Rightarrow> u8 list" where
  "enc_rsv [] = be_bytes 8 0 @ be_bytes 8 0"
| "enc_rsv ((a, n) # r) = be_bytes 8 a @ be_bytes 8 n @ enc_rsv r"

definition wf_rsv :: "(nat \<times> nat) list \<Rightarrow> bool" where
  "wf_rsv r \<longleftrightarrow> list_all (\<lambda>(a, n). (a \<noteq> 0 \<or> n \<noteq> 0) \<and> a < 2 ^ 64 \<and> n < 2 ^ 64) r"

definition rsv_ops :: "(nat \<times> nat) list \<Rightarrow> boot_op list" where
  "rsv_ops r = map (\<lambda>(a, n). PushReserved a (sat_add a n)) r"

lemma length_enc_rsv [simp]: "length (enc_rsv r) = 16 * length r + 16"
  by (induction r rule: enc_rsv.induct) simp_all

lemma rsv_read:
  assumes "mem_at m c (be_bytes 8 a @ be_bytes 8 n @ r)" and "0 < c" and "c + 16 < 2 ^ 64" and "a < 2 ^ 64" and "n < 2 ^ 64"
  shows "read_be_u64_at m c = Some (Some a)" and "read_be_u64_at m (wrap_add c 8) = Some (Some n)" and "wrap_add c 16 = c + 16"
proof -
  have w: "wrap_add c 8 = c + 8" "wrap_add c 16 = c + 16" using assms(3) by (auto intro!: wrap_add_exact simp: usize_max_def)
  show "read_be_u64_at m c = Some (Some a)" using assms by (intro read_u64_mem) simp_all
  show "read_be_u64_at m (wrap_add c 8) = Some (Some n)" unfolding w(1) using assms by (intro read_u64_mem) simp_all
  show "wrap_add c 16 = c + 16" by (rule w(2))
qed

lemma reserve_loop_rsv:
  "mem_at m c (enc_rsv r) \<Longrightarrow> wf_rsv r \<Longrightarrow> 0 < c \<Longrightarrow> c + length (enc_rsv r) < 2 ^ 64 \<Longrightarrow>
     reserve_loop m (c, i) = Some (Completed (foldl boot_step i (rsv_ops r)))"
proof (induction r arbitrary: c i rule: enc_rsv.induct)
  case 1
  have "mem_at m c (be_bytes 8 0 @ be_bytes 8 0 @ [])" using "1.prems"(1) by simp
  from rsv_read [OF this] show ?case using "1.prems"(3,4)
    by (subst reserve_loop.simps) (simp add: reserve_round_def rsv_ops_def)
next
  case (2 a n r)
  have z: "mem_at m c (be_bytes 8 a @ be_bytes 8 n @ enc_rsv r)" "a \<noteq> 0 \<or> n \<noteq> 0" "a < 2 ^ 64" "n < 2 ^ 64" "wf_rsv r" "c + 16 < 2 ^ 64"
    using "2.prems" by (auto simp: wf_rsv_def)
  note r = rsv_read [OF z(1) "2.prems"(3) z(6,3,4)]
  have "reserve_loop m (c, i) = reserve_loop m (c + 16, push_reserved_region a (sat_add a n) i)"
    using r z(2) by (subst reserve_loop.simps) (auto simp: reserve_round_def)
  also have "\<dots> = Some (Completed (foldl boot_step (push_reserved_region a (sat_add a n) i) (rsv_ops r)))"
    using "2.prems" z(1,5) by (intro "2.IH") (simp_all add: add.assoc)
  finally show ?case by (simp add: rsv_ops_def)
qed

section \<open>The blob\<close>

definition fdt_struct :: "dt_node \<Rightarrow> u8 list" where
  "fdt_struct root = enc_node root @ be_bytes 4 FDT_END"

text \<open>
  The ten words of the header, in the order of the device tree specification: the size of the block of strings is the ninth word,
  at offset 32, the size of the structure block the tenth, at offset 36. Free space may follow the strings.
\<close>

definition fdt_header :: "(nat \<times> nat) list \<Rightarrow> dt_node \<Rightarrow> u8 list \<Rightarrow> u8 list \<Rightarrow> nat list" where
  "fdt_header rsv root strs pad =
     (let os = 40 + length (enc_rsv rsv); ot = os + length (fdt_struct root)
      in [FDT_MAGIC, ot + length strs + length pad, os, ot, 40, 17, 16, 0, length strs, length (fdt_struct root)])"

definition enc_fdt :: "(nat \<times> nat) list \<Rightarrow> dt_node \<Rightarrow> u8 list \<Rightarrow> u8 list \<Rightarrow> u8 list" where
  "enc_fdt rsv root strs pad =
     concat (map (be_bytes 4) (fdt_header rsv root strs pad)) @ enc_rsv rsv @ fdt_struct root @ strs @ pad"

definition wf_fdt :: "(nat \<times> nat) list \<Rightarrow> dt_node \<Rightarrow> u8 list \<Rightarrow> u8 list \<Rightarrow> bool" where
  "wf_fdt rsv root strs pad \<longleftrightarrow> wf_rsv rsv \<and> wf_node (length strs) root \<and> strs \<noteq> [] \<and> last strs = 0
     \<and> length (enc_fdt rsv root strs pad) < 2 ^ 32"

lemma length_enc_fdt:
  "length (enc_fdt rsv root strs pad) = 40 + length (enc_rsv rsv) + length (fdt_struct root) + length strs + length pad"
  by (simp add: enc_fdt_def fdt_header_def Let_def)

definition fdt_of :: "nat \<Rightarrow> (nat \<times> nat) list \<Rightarrow> dt_node \<Rightarrow> u8 list \<Rightarrow> u8 list \<Rightarrow> fdt" where
  "fdt_of base rsv root strs pad = \<lparr>fd_base = base, total_size = length (enc_fdt rsv root strs pad), off_dt_struct = 40 + length (enc_rsv rsv),
     off_dt_strings = 40 + length (enc_rsv rsv) + length (fdt_struct root), size_dt_strings = length (fdt_struct root)\<rparr>"

text \<open>The constructor takes the tenth word for the size of the strings.\<close>

lemma fdt_new_blob:
  assumes "mem_at m base (enc_fdt rsv root strs pad)" and "wf_fdt rsv root strs pad" and "0 < base" and "base + 2 ^ 34 \<le> 2 ^ 64"
  shows "fdt_new m base = (if length (fdt_struct root) \<le> length strs + length pad then Some (Some (fdt_of base rsv root strs pad)) else Some None)"
proof -
  define n where "n = length (enc_rsv rsv)"
  define t where "t = length (fdt_struct root)"
  define z where "z = length strs + length pad"
  have l: "40 + n + t + z < 2 ^ 32" "0 < z" using assms(2) by (simp_all add: wf_fdt_def length_enc_fdt n_def t_def z_def)
  have w: "wrap_add base k = base + k" if "k \<le> 36" for k using that assms(4) by (intro wrap_add_exact) (simp add: usize_max_def)
  have "mem_at m base (concat (map (be_bytes 4) [FDT_MAGIC, 40 + n + t + length strs + length pad, 40 + n, 40 + n + t, 40, 17, 16, 0, length strs, t]))"
    using assms(1) unfolding enc_fdt_def fdt_header_def Let_def n_def t_def mem_at_append by blast
  then have h: "mem_at m base (be_bytes 4 FDT_MAGIC)" "mem_at m (base + 4) (be_bytes 4 (40 + n + t + z))" "mem_at m (base + 8) (be_bytes 4 (40 + n))"
      "mem_at m (base + 12) (be_bytes 4 (40 + n + t))" "mem_at m (base + 36) (be_bytes 4 t)"
    by (simp_all add: z_def add.assoc)
  have r: "read_be_u32_at m base = Some (Some FDT_MAGIC)" "read_be_u32_at m (base + 4) = Some (Some (40 + n + t + z))"
    "read_be_u32_at m (base + 8) = Some (Some (40 + n))" "read_be_u32_at m (base + 12) = Some (Some (40 + n + t))"
    "read_be_u32_at m (base + 36) = Some (Some t)"
    using l assms(3,4) by (auto intro!: read_u32_mem h) (simp add: FDT_MAGIC_def)
  have "sat_add (40 + n + t) t = 40 + n + t + t" using l by (intro sat_add_exact) (simp add: usize_max_def)
  then have "fdt_new m base = (if t \<le> z then Some (Some \<lparr>fd_base = base, total_size = 40 + n + t + z, off_dt_struct = 40 + n,
      off_dt_strings = 40 + n + t, size_dt_strings = t\<rparr>) else Some None)"
    using l(2) by (simp add: fdt_new_def and_then_def w r)
  then show ?thesis by (simp add: fdt_of_def length_enc_fdt n_def t_def z_def add.assoc)
qed

lemma mem_at_take: "mem_at m a xs \<Longrightarrow> mem_at m a (take k xs)"
  by (simp add: mem_at_nth)

lemma blob_strings:
  assumes "mem_at m base (enc_fdt rsv root strs pad)" and "wf_fdt rsv root strs pad" and "0 < base" and "base + 2 ^ 34 \<le> 2 ^ 64"
    and "length strs \<le> length (fdt_struct root)" and "length (fdt_struct root) \<le> length strs + length pad" and "off < length strs"
  shows "fdt_string m (fdt_of base rsv root strs pad) off = Some (string_of strs off)"
proof -
  define d where "d = fdt_of base rsv root strs pad"
  define ss where "ss = take (length (fdt_struct root)) (strs @ pad)"
  have "mem_at m (base + (40 + length (enc_rsv rsv) + length (fdt_struct root))) (strs @ pad)"
    using assms(1) by (simp add: enc_fdt_def fdt_header_def Let_def add.assoc)
  then have "mem_at m (fd_base d + off_dt_strings d) ss" unfolding ss_def by (intro mem_at_take) (simp add: d_def fdt_of_def)
  moreover have ls: "length ss = length (fdt_struct root)" using assms(6) by (simp add: ss_def)
  moreover have "size_dt_strings d = length ss" by (simp add: d_def fdt_of_def ls)
  moreover have "fd_base d + off_dt_strings d + length ss < 2 ^ 64"
    using assms(2,4,6) by (simp add: d_def fdt_of_def ls wf_fdt_def length_enc_fdt)
  ultimately have "fdt_string m d off = Some (string_of ss off)" using assms(3) by (intro fdt_string_mem) (simp_all add: d_def fdt_of_def)
  also have "\<dots> = Some (string_of strs off)"
  proof -
    have "0 \<in> set (drop off strs)" using assms(2,7) last_in_set [of "drop off strs"] by (simp add: wf_fdt_def)
    then show ?thesis unfolding ss_def using assms(5) by (simp only: string_of_longer)
  qed
  finally show ?thesis by (simp add: d_def)
qed

section \<open>Parsing the blob\<close>

definition tree_ops :: "(nat \<times> nat) list \<Rightarrow> dt_node \<Rightarrow> u8 list \<Rightarrow> boot_op list" where
  "tree_ops rsv root strs = rsv_ops rsv @ node_ops strs node_default root"

lemma loop_stop:
  assumes "block_at m ende (cursor s) (be_bytes 4 FDT_END)"
  shows "fdt_loop m d ende s = Some (Completed (info s))"
  using round_token [OF assms, of d]
  by (subst fdt_loop.simps) (simp add: Let_def FDT_END_def FDT_NOP_def FDT_PROP_def FDT_END_NODE_def FDT_BEGIN_NODE_def)

lemma fill_blob:
  assumes m: "mem_at m base (enc_fdt rsv root strs pad)" and wf: "wf_fdt rsv root strs pad" and "0 < base" and "base mod 4 = 0"
    and e: "base + 2 ^ 34 \<le> 2 ^ 64"
    and "length strs \<le> length (fdt_struct root)" and "length (fdt_struct root) \<le> length strs + length pad" and "height_node root \<le> 16"
  shows "fill_boot_info m (fdt_of base rsv root strs pad) i = Some (Completed (foldl boot_step i (tree_ops rsv root strs)))"
proof -
  define d where "d = fdt_of base rsv root strs pad"
  define j where "j = foldl boot_step i (rsv_ops rsv)"
  define c where "c = base + 40 + length (enc_rsv rsv)"
  define ende where "ende = base + total_size d"
  have fb: "fd_base d = base" by (simp add: d_def fdt_of_def)
  have l: "40 + length (enc_rsv rsv) + length (fdt_struct root) + length strs + length pad < 2 ^ 32"
    using wf by (simp add: wf_fdt_def length_enc_fdt)
  have w: "wrap_add base 40 = base + 40" "wrap_add base (off_dt_struct d) = c" "wrap_add base (total_size d) = ende"
    using e l by (auto intro!: wrap_add_exact simp: usize_max_def d_def fdt_of_def length_enc_fdt c_def ende_def add.assoc)
  have mm: "mem_at m (base + 40) (enc_rsv rsv)" "mem_at m c (fdt_struct root)"
    using m by (simp_all add: enc_fdt_def fdt_header_def Let_def c_def add.assoc)
  have rs: "reserve_loop m (base + 40, i) = Some (Completed j)"
    unfolding j_def using mm(1) wf e l by (intro reserve_loop_rsv) (simp_all add: wf_fdt_def)
  define s where "s = \<lparr>cursor = c, depth = 0, node = node_default, stack = replicate 16 node_default, info = j\<rparr>"
  have "c mod 4 = 0" using assms(4) by (simp add: c_def) presburger
  then have "block_at m ende c (fdt_struct root)"
    using mm(2) assms(3) e l by (simp add: block_at_def ende_def c_def d_def fdt_of_def length_enc_fdt)
  then have b: "block_at m ende (cursor s) (enc_node root)" "block_at m ende (c + length (enc_node root)) (be_bytes 4 FDT_END)"
    using block_append [of m ende c "enc_node root" "be_bytes 4 FDT_END"] by (simp_all add: fdt_struct_def s_def)
  have "\<exists>st. fdt_loop m d ende s = fdt_loop m d ende (s\<lparr>cursor := cursor s + length (enc_node root), stack := st,
               info := foldl boot_step (info s) (node_ops strs (node s) root)\<rparr>)
           \<and> length st = length (stack s) \<and> take (depth s) st = take (depth s) (stack s)"
    using wf assms(8) l b(1) blob_strings [OF m wf assms(3) e assms(6,7)]
    by (intro loop_tree(1) [where ns = "length strs"]) (simp_all add: wf_fdt_def s_def d_def)
  then obtain st where "fdt_loop m d ende s = fdt_loop m d ende (s\<lparr>cursor := cursor s + length (enc_node root), stack := st,
               info := foldl boot_step (info s) (node_ops strs (node s) root)\<rparr>)" by blast
  then have "fdt_loop m d ende s = Some (Completed (foldl boot_step j (node_ops strs node_default root)))"
    using b(2) by (simp add: loop_stop s_def)
  then have "fill_boot_info m d i = Some (Completed (foldl boot_step j (node_ops strs node_default root)))"
    using rs by (simp add: fill_boot_info_def parse_mem_reserve_def fb w s_def)
  then show ?thesis by (simp add: d_def j_def tree_ops_def)
qed

end
