(* ===== verification/Boot_Init.thy ===== *)
theory Boot_Init
  imports Fdt_Blob
begin

text \<open>
  Finding the device tree and filling in the boot information: \<open>init\<close>, \<open>get\<close> and the two platforms of
  \<open>os/src/bootinfo.rs\<close>, with the direct map of the platform and the firmware configuration device of the LoongArch machine.
\<close>

section \<open>The platforms\<close>

record fdt_source =
  src_ptr :: nat
  reserve_physical_blob :: bool

record boot_platform =
  addr_offset :: nat
  phys_to_virt :: "nat \<Rightarrow> nat"
  virt_to_phys :: "nat \<Rightarrow> nat"
  platform_reserved :: "region list"
  platform_fdt_source :: "memory \<Rightarrow> fdt_source option \<times> memory"

definition RISCV_ADDR_OFFSET :: nat where "RISCV_ADDR_OFFSET = 0xffffffc000000000"
definition RISCV_MMIO_OFFSET :: nat where "RISCV_MMIO_OFFSET = 0xffffffe000000000"
definition RISCV_MMIO_SIZE :: nat where "RISCV_MMIO_SIZE = 0x40000000"
definition LOONGARCH_ADDR_OFFSET :: nat where "LOONGARCH_ADDR_OFFSET = 0x9000000000000000"
definition fallback_memory_start :: nat where "fallback_memory_start = 0x80000000"

definition riscv_phys_to_virt :: "nat \<Rightarrow> nat" where
  "riscv_phys_to_virt pa = wrap_add RISCV_ADDR_OFFSET pa"

definition riscv_virt_to_phys :: "nat \<Rightarrow> nat" where
  "riscv_virt_to_phys va =
     (if RISCV_MMIO_OFFSET \<le> va \<and> va < RISCV_MMIO_OFFSET + RISCV_MMIO_SIZE then wrap_sub va RISCV_MMIO_OFFSET
      else if va \<ge> RISCV_ADDR_OFFSET then wrap_sub va RISCV_ADDR_OFFSET
      else va)"

definition riscv_boot :: boot_platform where
  "riscv_boot = \<lparr>addr_offset = RISCV_ADDR_OFFSET, phys_to_virt = riscv_phys_to_virt, virt_to_phys = riscv_virt_to_phys,
     platform_reserved = [(0x80000000, 0x80200000)], platform_fdt_source = (\<lambda>m. (None, m))\<rparr>"

definition loongarch_phys_to_virt :: "nat \<Rightarrow> nat" where
  "loongarch_phys_to_virt pa = unat ((of_nat pa :: u64) OR of_nat LOONGARCH_ADDR_OFFSET)"

definition loongarch_virt_to_phys :: "nat \<Rightarrow> nat" where
  "loongarch_virt_to_phys va = unat ((of_nat va :: u64) AND NOT (of_nat LOONGARCH_ADDR_OFFSET))"

text \<open>
  The firmware configuration device: an item is selected by number, and reads of the data register return its bytes one after
  the other. The contents of the items are a parameter. The tree is copied into \<open>FDT_BUF\<close>, a static array of the kernel image.
\<close>

definition FW_CFG_FILE_DIR :: nat where "FW_CFG_FILE_DIR = 0x19"
definition FW_CFG_MAX_FILE :: nat where "FW_CFG_MAX_FILE = 2 * 1024 * 1024"
definition FW_CFG_FILE_NAME_LEN :: nat where "FW_CFG_FILE_NAME_LEN = 56"

type_synonym fw_items = "nat \<Rightarrow> nat \<Rightarrow> u8"
type_synonym fw_state = "nat \<times> nat"

definition fw_select :: "nat \<Rightarrow> fw_state" where
  "fw_select selector = (selector, 0)"

fun fw_read :: "fw_items \<Rightarrow> nat \<Rightarrow> fw_state \<Rightarrow> u8 list \<times> fw_state" where
  "fw_read dev n (sel, pos) = (map (dev sel) [pos..<pos + n], (sel, pos + n))"

definition is_name :: "u8 list \<Rightarrow> u8 list \<Rightarrow> bool" where
  "is_name name expected \<longleftrightarrow> takeWhile (\<lambda>b. b \<noteq> 0) name = expected"

definition write_buf :: "nat \<Rightarrow> u8 list \<Rightarrow> memory \<Rightarrow> memory" where
  "write_buf buf bs m = (\<lambda>a. if buf \<le> a \<and> a < buf + length bs then Some (bs ! (a - buf)) else m a)"

text \<open>An entry of the directory: size, number and name of an item.\<close>

definition dir_entry :: "fw_items \<Rightarrow> fw_state \<Rightarrow> (nat \<times> nat \<times> u8 list) \<times> fw_state" where
  "dir_entry dev s =
     (let (size_bytes, s) = fw_read dev 4 s;
          (select_bytes, s) = fw_read dev 2 s;
          (reserved, s) = fw_read dev 2 s;
          (name, s) = fw_read dev FW_CFG_FILE_NAME_LEN s
      in ((be_value size_bytes, be_value select_bytes, name), s))"

definition load_item :: "fw_items \<Rightarrow> nat \<Rightarrow> nat \<Rightarrow> nat \<Rightarrow> memory \<Rightarrow> fdt_source option \<times> memory" where
  "load_item dev buf sz select_id m =
     (if sz = 0 \<or> sz > FW_CFG_MAX_FILE then (None, m)
      else (Some \<lparr>src_ptr = buf, reserve_physical_blob = False\<rparr>, write_buf buf (fst (fw_read dev sz (fw_select select_id))) m))"

primrec scan_dir :: "fw_items \<Rightarrow> nat \<Rightarrow> nat \<Rightarrow> fw_state \<Rightarrow> memory \<Rightarrow> fdt_source option \<times> memory" where
  "scan_dir dev buf 0 s m = (None, m)"
| "scan_dir dev buf (Suc count) s m =
     (case dir_entry dev s of ((sz, select_id, name), s) \<Rightarrow>
        if is_name name (bstr ''etc/fdt'') then load_item dev buf sz select_id m else scan_dir dev buf count s m)"

definition load_fdt :: "fw_items \<Rightarrow> nat \<Rightarrow> memory \<Rightarrow> fdt_source option \<times> memory" where
  "load_fdt dev buf m =
     (case fw_read dev 4 (fw_select FW_CFG_FILE_DIR) of (count, s) \<Rightarrow> scan_dir dev buf (be_value count) s m)"

definition loongarch_boot :: "fw_items \<Rightarrow> nat \<Rightarrow> boot_platform" where
  "loongarch_boot dev buf = \<lparr>addr_offset = LOONGARCH_ADDR_OFFSET, phys_to_virt = loongarch_phys_to_virt,
     virt_to_phys = loongarch_virt_to_phys, platform_reserved = [], platform_fdt_source = load_fdt dev buf\<rparr>"

section \<open>Initialisation\<close>

definition from_ptr :: "boot_platform \<Rightarrow> nat \<Rightarrow> fdt_source option" where
  "from_ptr pf ptr =
     (if ptr = 0 then None
      else let ptr = (if ptr < addr_offset pf then phys_to_virt pf ptr else ptr)
           in if ptr \<noteq> 0 then Some \<lparr>src_ptr = ptr, reserve_physical_blob = True\<rparr> else None)"

definition fallback_memory_regions :: "boot_info \<Rightarrow> boot_info" where
  "fallback_memory_regions i = push_memory_region fallback_memory_start MEMORY_END i"

definition platform_reserved_regions :: "boot_platform \<Rightarrow> boot_info \<Rightarrow> boot_info" where
  "platform_reserved_regions pf i = foldl (\<lambda>i (a, b). push_reserved_region a b i) i (platform_reserved pf)"

text \<open>What the tree at the source records; no outcome when the parser never returns.\<close>

definition read_source :: "boot_platform \<Rightarrow> memory \<Rightarrow> fdt_source \<Rightarrow> boot_info \<Rightarrow> boot_info run_outcome option" where
  "read_source pf m src i =
     (case fdt_new m (src_ptr src) of
        None \<Rightarrow> Some Faulted
      | Some None \<Rightarrow> Some (Completed i)
      | Some (Some d) \<Rightarrow> do {
          r \<leftarrow> fill_boot_info m d i;
          Some (case r of
            Faulted \<Rightarrow> Faulted
          | Completed i \<Rightarrow>
              let i = i\<lparr>fdt_ptr := src_ptr src, fdt_size := total_size d\<rparr> in
              Completed (if reserve_physical_blob src
                        then let fdt_pa = virt_to_phys pf (src_ptr src) in push_reserved_region fdt_pa (sat_add fdt_pa (total_size d)) i
                        else i))
        })"

definition finish_info :: "boot_platform \<Rightarrow> boot_info \<Rightarrow> boot_info" where
  "finish_info pf i =
     (let i = (if memory_region_count i = 0 then fallback_memory_regions i else i);
          i = platform_reserved_regions pf i
      in if hart_count i = 0 then i\<lparr>hart_count := 1\<rparr> else i)"

definition boot_source :: "boot_platform \<Rightarrow> memory \<Rightarrow> nat \<Rightarrow> fdt_source option \<times> memory" where
  "boot_source pf m ptr = (case from_ptr pf ptr of Some src \<Rightarrow> (Some src, m) | None \<Rightarrow> platform_fdt_source pf m)"

definition bootinfo_init :: "boot_platform \<Rightarrow> memory \<Rightarrow> nat \<Rightarrow> boot_info run_outcome option" where
  "bootinfo_init pf m ptr =
     (case boot_source pf m ptr of
        (None, m) \<Rightarrow> Some (Completed (finish_info pf boot_info_empty))
      | (Some src, m) \<Rightarrow> map_option (map_run_outcome (finish_info pf)) (read_source pf m src boot_info_empty))"

definition fallback_boot_info :: "boot_platform \<Rightarrow> boot_info" where
  "fallback_boot_info pf = (platform_reserved_regions pf (fallback_memory_regions boot_info_empty))\<lparr>hart_count := 1\<rparr>"

text \<open>\<open>BOOT_INFO\<close> is \<open>None\<close> until \<open>READY\<close> is set.\<close>

definition bootinfo_get :: "boot_platform \<Rightarrow> boot_info option \<Rightarrow> boot_info" where
  "bootinfo_get pf ready = (case ready of None \<Rightarrow> fallback_boot_info pf | Some i \<Rightarrow> i)"

section \<open>What initialisation records\<close>

definition platform_ops :: "boot_platform \<Rightarrow> boot_op list" where
  "platform_ops pf = map (\<lambda>(a, b). PushReserved a b) (platform_reserved pf)"

definition harts_in :: "boot_op list \<Rightarrow> nat" where
  "harts_in ops = length (filter (\<lambda>e. e = AddHart) ops)"

lemma platform_reserved_ops: "platform_reserved_regions pf i = foldl boot_step i (platform_ops pf)"
  by (simp add: platform_reserved_regions_def platform_ops_def foldl_map) (simp add: case_prod_unfold)

lemma push_harts [simp]: "hart_count (push_memory_region a b i) = hart_count i" "hart_count (push_reserved_region a b i) = hart_count i"
  by (simp_all add: push_memory_region_def push_reserved_region_def)

lemma steps_harts: "hart_count i \<le> MAX_HARTS \<Longrightarrow> hart_count (foldl boot_step i ops) = min MAX_HARTS (hart_count i + harts_in ops)"
proof (induction ops arbitrary: i)
  case (Cons e ops)
  show ?case
  proof (cases e)
    case AddHart
    have "hart_count (boot_step i e) = min MAX_HARTS (hart_count i + 1)"
      using AddHart Cons.prems by (auto simp: set_hart_count_def MAX_HARTS_def sat_add_def usize_max_def min_def max_def)
    then show ?thesis using Cons.IH [of "boot_step i e"] AddHart by (auto simp: harts_in_def min_def)
  qed (use Cons in \<open>simp_all add: harts_in_def\<close>)
qed (simp add: harts_in_def)

lemma regions_count: "info_ok i \<Longrightarrow> memory_region_count i = 0 \<longleftrightarrow> memory_regions i = []"
  by (auto simp: info_ok_def memory_regions_def MAX_MEMORY_REGIONS_def)

lemma fdt_fields [simp]:
  "fdt_ptr (push_memory_region a b i) = fdt_ptr i" "fdt_size (push_memory_region a b i) = fdt_size i"
  "fdt_ptr (push_reserved_region a b i) = fdt_ptr i" "fdt_size (push_reserved_region a b i) = fdt_size i"
  "fdt_ptr (set_hart_count n i) = fdt_ptr i" "fdt_size (set_hart_count n i) = fdt_size i"
  by (simp_all add: push_memory_region_def push_reserved_region_def set_hart_count_def)

lemma steps_fdt [simp]: "fdt_ptr (foldl boot_step i ops) = fdt_ptr i" "fdt_size (foldl boot_step i ops) = fdt_size i"
proof -
  have "fdt_ptr (boot_step i e) = fdt_ptr i \<and> fdt_size (boot_step i e) = fdt_size i" for i e by (cases e) simp_all
  then have "fdt_ptr (foldl boot_step i ops) = fdt_ptr i \<and> fdt_size (foldl boot_step i ops) = fdt_size i"
    by (induction ops arbitrary: i) simp_all
  then show "fdt_ptr (foldl boot_step i ops) = fdt_ptr i" "fdt_size (foldl boot_step i ops) = fdt_size i" by simp_all
qed

lemma fdt_update_ok [simp]:
  "info_ok (i\<lparr>fdt_ptr := p, fdt_size := n\<rparr>) = info_ok i" "memory_regions (i\<lparr>fdt_ptr := p, fdt_size := n\<rparr>) = memory_regions i"
  "reserved_regions (i\<lparr>fdt_ptr := p, fdt_size := n\<rparr>) = reserved_regions i"
  by (simp_all add: info_ok_def memory_regions_def reserved_regions_def)

lemma hart_update_ok [simp]:
  "h \<le> MAX_HARTS \<Longrightarrow> info_ok i \<Longrightarrow> info_ok (i\<lparr>hart_count := h\<rparr>)" "memory_regions (i\<lparr>hart_count := h\<rparr>) = memory_regions i"
  "reserved_regions (i\<lparr>hart_count := h\<rparr>) = reserved_regions i"
  by (simp_all add: info_ok_def memory_regions_def reserved_regions_def)

definition fallback_ops :: "boot_info \<Rightarrow> boot_op list" where
  "fallback_ops i = (if memory_regions i = [] then [PushMemory fallback_memory_start MEMORY_END] else [])"

lemma finish_steps:
  assumes "info_ok i"
  shows "finish_info pf i = (let j = foldl boot_step i (fallback_ops i @ platform_ops pf) in j\<lparr>hart_count := max 1 (hart_count j)\<rparr>)"
  using regions_count [OF assms]
  by (auto simp: finish_info_def fallback_memory_regions_def platform_reserved_ops fallback_ops_def Let_def)

lemma platform_pushes [simp]: "concat (map pushed_memory (platform_ops pf)) = []" "harts_in (platform_ops pf) = 0"
  by (auto simp: platform_ops_def harts_in_def filter_empty_conv)

lemma finish_observed:
  assumes i: "info_ok i"
  shows "info_ok (finish_info pf i)"
    and "memory_regions (finish_info pf i) = (if memory_regions i = [] then [(fallback_memory_start, MEMORY_END)] else memory_regions i)"
    and "reserved_regions (finish_info pf i) = take MAX_RESERVED_REGIONS (reserved_regions i @ concat (map pushed_reserved (platform_ops pf)))"
    and "hart_count (finish_info pf i) = max 1 (hart_count i)"
    and "fdt_blob (finish_info pf i) = fdt_blob i"
proof -
  define ops where "ops = fallback_ops i @ platform_ops pf"
  define j where "j = foldl boot_step i ops"
  have f: "finish_info pf i = j\<lparr>hart_count := max 1 (hart_count j)\<rparr>" using finish_steps [OF i] by (simp add: j_def ops_def Let_def)
  note b = boot_steps_ok [OF i, of ops, folded j_def]
  have z: "concat (map pushed_memory ops) = (if memory_regions i = [] then [(fallback_memory_start, MEMORY_END)] else [])"
      "concat (map pushed_reserved ops) = concat (map pushed_reserved (platform_ops pf))" "harts_in ops = 0"
    by (auto simp: ops_def fallback_ops_def fallback_memory_start_def MEMORY_END_def harts_in_def filter_empty_conv platform_ops_def)
  have h: "hart_count i \<le> MAX_HARTS" "length (memory_regions i) \<le> MAX_MEMORY_REGIONS"
    using i by (auto simp: info_ok_def memory_regions_def)
  have hj: "hart_count j = hart_count i" using steps_harts [OF h(1), of ops] h(1) by (simp add: j_def z)
  show "info_ok (finish_info pf i)" unfolding f using b h hj by (intro hart_update_ok) (auto simp: MAX_HARTS_def)
  show "memory_regions (finish_info pf i) = (if memory_regions i = [] then [(fallback_memory_start, MEMORY_END)] else memory_regions i)"
    unfolding f using b h by (simp add: z MAX_MEMORY_REGIONS_def)
  show "reserved_regions (finish_info pf i) = take MAX_RESERVED_REGIONS (reserved_regions i @ concat (map pushed_reserved (platform_ops pf)))"
    unfolding f using b by (simp add: z)
  show "hart_count (finish_info pf i) = max 1 (hart_count i)" unfolding f by (simp add: hj)
  show "fdt_blob (finish_info pf i) = fdt_blob i" unfolding f by (simp add: fdt_blob_def j_def)
qed

end
