(* ===== verification/Boot_Props.thy ===== *)
theory Boot_Props
  imports Boot_Init
begin

text \<open>
  From the device tree to the frame allocator: initialisation comes to an end, records what the tree describes when it accepts
  the tree, and the frame allocator then owns exactly the pages of that memory.
\<close>

section \<open>Initialisation ends\<close>

lemma read_source_ends:
  assumes "src_ptr src + 2 ^ 34 \<le> 2 ^ 64"
  shows "\<exists>r. read_source pf m src boot_info_empty = Some r \<and> (case r of Faulted \<Rightarrow> \<not> backed m (src_ptr src) | Completed i \<Rightarrow> info_ok i)"
proof -
  consider (f) "fdt_new m (src_ptr src) = None" | (n) "fdt_new m (src_ptr src) = Some None" | (s) d where "fdt_new m (src_ptr src) = Some (Some d)"
    by (metis not_None_eq)
  then show ?thesis
  proof cases
    case f
    then show ?thesis using fdt_new_fault [OF f assms] by (simp add: read_source_def)
  next
    case n
    then show ?thesis using empty_ok by (simp add: read_source_def)
  next
    case s
    obtain r where r: "fill_boot_info m d boot_info_empty = Some r" "ends_well m (src_ptr src) boot_info_empty r" using fill_ends [OF assms s] by blast
    show ?thesis
    proof (cases r)
      case (Completed i)
      then obtain ops where "i = foldl boot_step boot_info_empty ops" using r(2) by auto
      then have "info_ok i" using boot_steps_ok [OF empty_ok, of ops] by simp
      then show ?thesis using r(1) s Completed push_reserved_ok by (simp add: read_source_def Let_def)
    qed (use r s in \<open>simp add: read_source_def\<close>)
  qed
qed

lemma init_ends:
  assumes "case fst (boot_source pf m ptr) of None \<Rightarrow> True | Some src \<Rightarrow> src_ptr src + 2 ^ 34 \<le> 2 ^ 64"
  shows "\<exists>r. bootinfo_init pf m ptr = Some r
    \<and> (case r of
         Faulted \<Rightarrow> \<exists>src m'. boot_source pf m ptr = (Some src, m') \<and> \<not> backed m' (src_ptr src)
       | Completed bi \<Rightarrow> info_ok bi \<and> 1 \<le> hart_count bi \<and> memory_regions bi \<noteq> [])"
proof -
  have fin: "info_ok i \<Longrightarrow> info_ok (finish_info pf i) \<and> 1 \<le> hart_count (finish_info pf i) \<and> memory_regions (finish_info pf i) \<noteq> []" for i
    using finish_observed [of i pf] by simp
  obtain so m' where s: "boot_source pf m ptr = (so, m')" by fastforce
  show ?thesis
  proof (cases so)
    case None
    then show ?thesis using s fin [OF empty_ok] by (simp add: bootinfo_init_def)
  next
    case (Some src)
    then obtain r where r: "read_source pf m' src boot_info_empty = Some r" "case r of Faulted \<Rightarrow> \<not> backed m' (src_ptr src) | Completed i \<Rightarrow> info_ok i"
      using read_source_ends [of src pf m'] assms s by auto
    then show ?thesis using s Some fin by (cases r) (simp_all add: bootinfo_init_def)
  qed
qed

text \<open>
  C37. Whatever the memory holds, initialisation of the boot information comes to an end, provided the tree does not lie in the
  last 16 GiB of the address space: the loops of the device tree parser end on every input, well formed or not. It returns at
  least one region of memory and between one and \<open>MAX_HARTS\<close> harts, unless the parser reads an address at or after the
  start of the tree that no memory backs, which is an access fault.
\<close>

theorem boot_info_ends:
  assumes "case fst (boot_source pf m ptr) of None \<Rightarrow> True | Some src \<Rightarrow> src_ptr src + 2 ^ 34 \<le> 2 ^ 64"
  shows "\<exists>r. bootinfo_init pf m ptr = Some r
    \<and> (case r of
         Faulted \<Rightarrow> \<exists>src m' a. boot_source pf m ptr = (Some src, m') \<and> src_ptr src \<le> a \<and> a < 2 ^ 64 \<and> m' a = None
       | Completed bi \<Rightarrow> info_ok bi \<and> memory_regions bi \<noteq> [] \<and> 1 \<le> hart_count bi \<and> hart_count bi \<le> MAX_HARTS)"
proof -
  obtain r where "bootinfo_init pf m ptr = Some r" "case r of
         Faulted \<Rightarrow> \<exists>src m'. boot_source pf m ptr = (Some src, m') \<and> \<not> backed m' (src_ptr src)
       | Completed bi \<Rightarrow> info_ok bi \<and> 1 \<le> hart_count bi \<and> memory_regions bi \<noteq> []"
    using init_ends [OF assms] by blast
  then show ?thesis by (cases r) (auto simp: backed_def info_ok_def)
qed

section \<open>What the tree describes is recorded\<close>


lemma from_ptr_source: "from_ptr pf ptr = Some src \<Longrightarrow> boot_source pf m ptr = (Some src, m) \<and> reserve_physical_blob src \<and> 0 < src_ptr src"
  by (auto simp: boot_source_def from_ptr_def Let_def split: if_splits)



text \<open>
  C38. The constructor of the parser reads the size of the strings where the header has the size of the structure block. A well-formed
  tree whose structure block is longer than everything from its strings on is therefore refused, and initialisation goes on as if
  the firmware had passed no tree: with the default region of memory, whatever memory the tree describes, and a single hart.
\<close>

theorem packed_tree_ignored:
  assumes src: "from_ptr pf ptr = Some src" and m: "mem_at m (src_ptr src) (enc_fdt rsv root strs pad)" and wf: "wf_fdt rsv root strs pad"
    and e: "src_ptr src + 2 ^ 34 \<le> 2 ^ 64" and s: "length strs + length pad < length (fdt_struct root)"
  shows "\<exists>info. bootinfo_init pf m ptr = Some (Completed info) \<and> memory_regions info = [(fallback_memory_start, MEMORY_END)]
    \<and> hart_count info = 1 \<and> fdt_blob info = None"
proof -
  note p = from_ptr_source [OF src, of m]
  have "fdt_new m (src_ptr src) = Some None" using fdt_new_blob [OF m wf _ e] p s by simp
  then have "bootinfo_init pf m ptr = Some (Completed (finish_info pf boot_info_empty))" using p by (simp add: bootinfo_init_def read_source_def)
  moreover have "memory_regions boot_info_empty = []" "hart_count boot_info_empty = 0" "fdt_blob boot_info_empty = None"
    by (simp_all add: boot_info_empty_def memory_regions_def fdt_blob_def)
  ultimately show ?thesis using finish_observed [OF empty_ok, of pf] by simp
qed

section \<open>The frames the kernel owns\<close>

lemma sep_concat:
  "(\<And>r. r \<in> set rs \<Longrightarrow> sep (g r) \<and> (\<forall>f\<in>set (g r). fst r \<le> fst f \<and> snd f \<le> snd r)) \<Longrightarrow> sep rs \<Longrightarrow> sep (concat (map g rs))"
proof (induction rs)
  case (Cons r rs)
  have "sep (g r)" "\<forall>f\<in>set (g r). fst r \<le> fst f \<and> snd f \<le> snd r" using Cons.prems(1) by auto
  moreover have "sep (concat (map g rs))" using Cons by (auto simp: sep_def)
  moreover have "snd f < fst h" if "f \<in> set (g r)" "r' \<in> set rs" "h \<in> set (g r')" for f h r'
  proof -
    have "snd f \<le> snd r" "fst r' \<le> fst h" using Cons.prems(1) that by auto
    moreover have "snd r < fst r'" using Cons.prems(2) that(2) by (auto simp: sep_def)
    ultimately show ?thesis by linarith
  qed
  ultimately show ?case by (auto simp: sep_def sorted_wrt_append)
qed (simp add: sep_def)

lemma fragment_within:
  assumes "info_ok bi" and "r \<in> set (memory_regions bi)"
  shows "sep (usable_fragments (reserved_regions bi) r)"
    and "\<forall>f\<in>set (usable_fragments (reserved_regions bi) r). fst r \<le> fst f \<and> snd f \<le> snd r"
proof -
  note d = info_okD [OF assms(1)]
  note q = fragments_eq [OF d(1) [OF assms(2)] d(2,3)]
  show s: "sep (usable_fragments (reserved_regions bi) r)" by (rule q(2))
  show "\<forall>f\<in>set (usable_fragments (reserved_regions bi) r). fst r \<le> fst f \<and> snd f \<le> snd r"
  proof
    fix f assume f: "f \<in> set (usable_fragments (reserved_regions bi) r)"
    have "bytes f \<subseteq> bytes r" using f cut_foldl_bytes [of "[r]" "reserved_regions bi"] unfolding q(1) by auto
    moreover have "fst f < snd f" using s f by (simp add: sep_def)
    ultimately show "fst r \<le> fst f \<and> snd f \<le> snd r" by (auto simp: bytes_def)
  qed
qed

lemma page_gap:
  assumes "snd f < fst g" and "fst g + 4095 \<le> usize_max"
  shows "snd (page_range f) < fst (page_range g)"
proof -
  have "snd f div 4096 + 1 = (snd f + 4096) div 4096" by simp
  also have "\<dots> \<le> (fst g + 4095) div 4096" using assms(1) by (intro div_le_mono) linarith
  finally have "snd f div 4096 < (fst g + 4095) div 4096" by linarith
  then show ?thesis using assms(2) by (simp add: page_range_def phys_addr_ceil_ppn_def phys_addr_floor_ppn_def sat_add_exact)
qed

lemma kernel_pages:
  assumes "skernel < ekernel" and "ekernel + 4095 \<le> usize_max"
  shows "p \<in> {phys_addr_floor_ppn skernel..<phys_addr_ceil_ppn ekernel} \<longleftrightarrow> page_bytes p \<inter> {skernel..<ekernel} \<noteq> {}"
proof -
  have "skernel div 4096 \<le> p \<longleftrightarrow> skernel < (p + 1) * 4096" using div_less_iff_less_mult [of 4096 skernel "p + 1"] by auto
  moreover have "p + 1 \<le> (ekernel + 4095) div 4096 \<longleftrightarrow> (p + 1) * 4096 \<le> ekernel + 4095" by (rule less_eq_div_iff_mult_less_eq) simp
  moreover have "page_bytes p \<inter> {skernel..<ekernel} \<noteq> {} \<longleftrightarrow> skernel < (p + 1) * 4096 \<and> p * 4096 < ekernel"
    unfolding page_bytes_def using assms(1) by (auto simp: disjoint_iff intro: exI [of _ "max skernel (p * 4096)"])
  ultimately show ?thesis using assms(2) by (auto simp: phys_addr_ceil_ppn_def phys_addr_floor_ppn_def sat_add_exact)
qed

definition close_regions :: "region list \<Rightarrow> bool" where
  "close_regions rs \<longleftrightarrow> list_all (\<lambda>r. snd r \<le> 2 ^ 63 \<and> list_all (\<lambda>r'. snd r \<le> fst r' + 2 ^ 32) rs) rs"

lemma usable_boot_ok:
  assumes ok: "info_ok bi" and s: "sep (memory_regions bi)" and b: "close_regions (memory_regions bi)"
    and n: "2 * length (usable_memory_regions bi) \<le> MAX_MANAGED_REGIONS"
  shows "boot_ok (usable_memory_regions bi)"
    and "\<forall>f\<in>set (usable_memory_regions bi). fst f \<le> snd f \<and> snd f + 4095 \<le> usize_max"
proof -
  let ?u = "usable_memory_regions bi"
  have u: "sep ?u" unfolding usable_memory_regions_def using fragment_within [OF ok] s by (intro sep_concat) simp_all
  have o: "\<exists>r\<in>set (memory_regions bi). fst r \<le> fst f \<and> snd f \<le> snd r" if "f \<in> set ?u" for f
  proof -
    obtain r where r: "r \<in> set (memory_regions bi)" "f \<in> set (usable_fragments (reserved_regions bi) r)"
      using \<open>f \<in> set ?u\<close> by (auto simp: usable_memory_regions_def)
    then show ?thesis using fragment_within(2) [OF ok r(1)] by blast
  qed
  have b1: "snd r \<le> 2 ^ 63" and b2: "r' \<in> set (memory_regions bi) \<Longrightarrow> snd r \<le> fst r' + 2 ^ 32" if "r \<in> set (memory_regions bi)" for r r'
    using b that unfolding close_regions_def list_all_iff by auto
  have l1: "snd f \<le> 2 ^ 63" if "f \<in> set ?u" for f using o [OF that] b1 le_trans by blast
  have l2: "snd f \<le> fst g + 2 ^ 32" if f: "f \<in> set ?u" and g: "g \<in> set ?u" for f g
  proof -
    obtain r r' where r: "r \<in> set (memory_regions bi)" "snd f \<le> snd r" "r' \<in> set (memory_regions bi)" "fst r' \<le> fst g"
      using o [OF f] o [OF g] by blast
    then show ?thesis using b2 [OF r(1,3)] by linarith
  qed
  show p: "\<forall>f\<in>set ?u. fst f \<le> snd f \<and> snd f + 4095 \<le> usize_max"
    using u l1 by (fastforce simp: sep_def usize_max_def)
  have sa: "sat_add (fst f) 4095 = fst f + 4095" if "f \<in> set ?u" for f using bspec [OF p that] by (intro sat_add_exact) linarith
  have "sorted_wrt (\<lambda>r r'. snd (page_range r) < fst (page_range r')) ?u"
  proof (rule sorted_wrt_mono_rel [rotated])
    show "sorted_wrt (\<lambda>f g. snd f < fst g) ?u" using u by (simp add: sep_def)
  next
    fix f g :: region assume "g \<in> set ?u" and "snd f < fst g"
    then show "snd (page_range f) < fst (page_range g)" using p by (intro page_gap) fastforce+
  qed
  moreover have "snd (page_range f) \<le> 2 ^ 52 \<and> fst (page_range f) \<le> usize_max" if f: "f \<in> set ?u" for f
  proof -
    have "snd f div 4096 \<le> 2 ^ 52" using div_le_mono [OF l1 [OF f], of 4096] by simp
    moreover have "(fst f + 4095) div 4096 \<le> usize_max" using p f by (intro div_le_dividend [THEN le_trans]) fastforce
    ultimately show ?thesis by (simp add: page_range_def phys_addr_ceil_ppn_def phys_addr_floor_ppn_def sa [OF f])
  qed
  moreover have "snd (page_range f) \<le> fst (page_range g) + 2 ^ 20" if f: "f \<in> set ?u" and g: "g \<in> set ?u" for f g
  proof -
    have "snd f div 4096 \<le> (fst g + 4095 + 2 ^ 20 * 4096) div 4096" using l2 [OF f g] by (intro div_le_mono) simp
    also have "\<dots> = (fst g + 4095) div 4096 + 2 ^ 20" using div_mult_self1 [of 4096 "fst g + 4095" "2 ^ 20"] by linarith
    finally show ?thesis by (simp add: page_range_def phys_addr_ceil_ppn_def phys_addr_floor_ppn_def sa [OF g])
  qed
  ultimately show "boot_ok ?u" using n by (simp add: boot_ok_def list_all_iff)
qed

text \<open>
  C35. From the firmware to the frame allocator: when the regions of memory are separate, within 4 GiB of each other and few enough for the
  table of the allocator, the frame allocator starts, and its free frames are exactly the pages that lie in a region of memory, touch no
  reserved range and touch no byte of the kernel image.
\<close>

theorem boot_frames_exact:
  assumes src: "case fst (boot_source pf m ptr) of None \<Rightarrow> True | Some src \<Rightarrow> src_ptr src + 2 ^ 34 \<le> 2 ^ 64"
    and i: "bootinfo_init pf m ptr = Some (Completed bi)"
    and s: "sep (memory_regions bi)" and b: "close_regions (memory_regions bi)"
    and n: "2 * length (usable_memory_regions bi) \<le> MAX_MANAGED_REGIONS"
    and k: "skernel < ekernel" "ekernel \<le> 2 ^ 63"
  shows "\<exists>fa. init_frame_allocator fa0 (usable_memory_regions bi) skernel ekernel = Some fa \<and> frames_ok fa
    \<and> free_frames fa = {p. (\<exists>r\<in>set (memory_regions bi). page_bytes p \<subseteq> bytes r)
        \<and> page_bytes p \<inter> \<Union>(bytes ` set (reserved_regions bi)) = {} \<and> page_bytes p \<inter> {skernel..<ekernel} = {}}"
proof -
  have ok: "info_ok bi" using init_ends [OF src] i by auto
  note u = usable_boot_ok [OF ok s b n]
  let ?ks = "phys_addr_floor_ppn skernel" and ?ke = "phys_addr_ceil_ppn ekernel"
  from init_from_bootinfo_ok [OF u(1), where s = fa0 and ks = ?ks and ke = ?ke]
  obtain fa where fa: "init_from_bootinfo fa0 (usable_memory_regions bi) ?ks ?ke = Some fa" "frames_ok fa" "free_frames fa = managed fa"
    "managed fa = (\<Union>r\<in>set (usable_memory_regions bi). {fst (page_range r)..<snd (page_range r)}) - {?ks..<?ke}" by blast
  have "(\<Union>r\<in>set (usable_memory_regions bi). {fst (page_range r)..<snd (page_range r)})
      = (\<Union>r\<in>set (usable_memory_regions bi). {p. page_bytes p \<subseteq> bytes r})"
    using u(2) by (intro SUP_cong refl page_range_pages) auto
  then have ff: "p \<in> free_frames fa \<longleftrightarrow> (\<exists>f\<in>set (usable_memory_regions bi). page_bytes p \<subseteq> bytes f) \<and> p \<notin> {?ks..<?ke}" for p
    using fa(3,4) by auto
  have kp: "p \<notin> {?ks..<?ke} \<longleftrightarrow> page_bytes p \<inter> {skernel..<ekernel} = {}" for p
    using kernel_pages [OF k(1), of p] k(2) by (simp add: usize_max_def)
  have "free_frames fa = {p. (\<exists>r\<in>set (memory_regions bi). page_bytes p \<subseteq> bytes r)
        \<and> page_bytes p \<inter> \<Union>(bytes ` set (reserved_regions bi)) = {} \<and> page_bytes p \<inter> {skernel..<ekernel} = {}}"
    by (intro set_eqI) (simp only: ff kp usable_pages [OF ok] mem_Collect_eq conj_assoc)
  then show ?thesis using fa(1,2) by (intro exI [of _ "fa\<lparr>frame_alloc_oom_count := 0\<rparr>"]) (simp add: init_frame_allocator_def frames_ok_def)
qed

section \<open>Concrete inputs\<close>

text \<open>A machine with 128 MiB of memory and two harts, its tree at physical address 0x82200000.\<close>

definition example_strs :: "u8 list" where
  "example_strs = bstr ''reg'' @ [0]"

definition example_root :: dt_node where
  "example_root = Node [] [
     Child (Node (bstr ''memory@8'') [Prop 0 [0, 0, 0, 0, 0x80, 0, 0, 0, 0x08, 0, 0, 0]]),
     Child (Node (bstr ''cpus'') [Child (Node (bstr ''cpu@0'') []), Nop, Child (Node (bstr ''cpu@1'') [])])]"

definition example_pad :: "u8 list" where "example_pad = replicate 128 0"

definition example_memory :: "u8 list \<Rightarrow> memory" where
  "example_memory pad = write_buf 0xffffffc082200000 (enc_fdt [(0x80000000, 0x1000)] example_root example_strs pad) Map.empty"

lemma mem_at_write_buf: "mem_at (write_buf a xs m) a xs"
  by (simp add: mem_at_nth write_buf_def)

lemma example_source: "from_ptr riscv_boot 0x82200000 = Some \<lparr>src_ptr = 0xffffffc082200000, reserve_physical_blob = True\<rparr>"
  by (simp add: from_ptr_def riscv_boot_def riscv_phys_to_virt_def RISCV_ADDR_OFFSET_def wrap_add_def)

lemma example_lengths: "length example_strs = 4" "length (fdt_struct example_root) = 112" "length example_pad = 128"
  by code_simp+

lemma example_wf: "length pad \<le> 128 \<Longrightarrow> wf_fdt [(0x80000000, 0x1000)] example_root example_strs pad"
proof -
  have "wf_rsv [(0x80000000, 0x1000)]" by code_simp
  moreover have "wf_node 4 example_root" by code_simp
  moreover have "last example_strs = 0" "example_strs \<noteq> []" by code_simp+
  ultimately show "length pad \<le> 128 \<Longrightarrow> ?thesis" by (auto simp: wf_fdt_def length_enc_fdt example_lengths)
qed

text \<open>The tree within memory full of other bytes, so that every loop of the parser runs and no read faults.\<close>

definition crowded_memory :: memory where
  "crowded_memory = write_buf 0xffffffc082200000 (enc_fdt [(0x80000000, 0x1000)] example_root example_strs example_pad) (\<lambda>_. Some 0x2a)"

theorem boot_info_ends_witness:
  "fdt_new crowded_memory 0xffffffc082200000 = Some (Some (fdt_of 0xffffffc082200000 [(0x80000000, 0x1000)] example_root example_strs example_pad))
   \<and> (\<exists>bi. bootinfo_init riscv_boot crowded_memory 0x82200000 = Some (Completed bi) \<and> memory_regions bi \<noteq> [] \<and> 1 \<le> hart_count bi)"
proof
  show "fdt_new crowded_memory 0xffffffc082200000 = Some (Some (fdt_of 0xffffffc082200000 [(0x80000000, 0x1000)] example_root example_strs example_pad))"
    using fdt_new_blob [of crowded_memory "0xffffffc082200000" "[(0x80000000, 0x1000)]" example_root example_strs example_pad] example_wf [of example_pad]
    by (simp add: crowded_memory_def mem_at_write_buf example_lengths)
  have full: "crowded_memory a \<noteq> None" for a by (simp add: crowded_memory_def write_buf_def)
  have src: "boot_source riscv_boot crowded_memory 0x82200000 = (Some \<lparr>src_ptr = 0xffffffc082200000, reserve_physical_blob = True\<rparr>, crowded_memory)"
    by (simp add: boot_source_def example_source)
  obtain r where r: "bootinfo_init riscv_boot crowded_memory 0x82200000 = Some r"
    and c: "case r of
         Faulted \<Rightarrow> \<exists>src m' a. boot_source riscv_boot crowded_memory 0x82200000 = (Some src, m') \<and> src_ptr src \<le> a \<and> a < 2 ^ 64 \<and> m' a = None
       | Completed bi \<Rightarrow> info_ok bi \<and> memory_regions bi \<noteq> [] \<and> 1 \<le> hart_count bi \<and> hart_count bi \<le> MAX_HARTS"
    using boot_info_ends [of riscv_boot crowded_memory "0x82200000"] src by auto
  show "\<exists>bi. bootinfo_init riscv_boot crowded_memory 0x82200000 = Some (Completed bi) \<and> memory_regions bi \<noteq> [] \<and> 1 \<le> hart_count bi"
    using r c src full by (cases r) auto
qed


theorem packed_tree_ignored_witness:
  "\<exists>bi. bootinfo_init riscv_boot (example_memory []) 0x82200000 = Some (Completed bi) \<and> memory_regions bi = [(0x80000000, 0x180000000)] \<and> hart_count bi = 1"
  using packed_tree_ignored [OF example_source, of "example_memory []" "[(0x80000000, 0x1000)]" example_root example_strs "[]"] example_wf [of "[]"]
  by (auto simp: example_memory_def mem_at_write_buf example_lengths fallback_memory_start_def MEMORY_END_def)

theorem boot_frames_exact_witness:
  "\<exists>bi fa. bootinfo_init riscv_boot Map.empty 0 = Some (Completed bi) \<and> init_frame_allocator buddy_new (usable_memory_regions bi) 0x80200000 0x80a00000 = Some fa
     \<and> 0x80200 \<notin> free_frames fa \<and> 0x80a00 \<in> free_frames fa"
proof -
  define bi where "bi = finish_info riscv_boot boot_info_empty"
  have i: "bootinfo_init riscv_boot Map.empty 0 = Some (Completed bi)"
    by (simp add: bi_def bootinfo_init_def boot_source_def from_ptr_def riscv_boot_def)
  have m: "memory_regions bi = [(0x80000000, 0x180000000)]" "reserved_regions bi = [(0x80000000, 0x80200000)]"
    "usable_memory_regions bi = [(0x80200000, 0x180000000)]"
    unfolding bi_def by code_simp+
  have pb: "page_bytes 0x80200 = {0x80200000..<0x80201000}" "page_bytes 0x80a00 = {0x80a00000..<0x80a01000}" by (simp_all add: page_bytes_def)
  have "case fst (boot_source riscv_boot Map.empty 0) of None \<Rightarrow> True | Some src \<Rightarrow> src_ptr src + 2 ^ 34 \<le> 2 ^ 64"
    by (simp add: boot_source_def from_ptr_def riscv_boot_def)
  from boot_frames_exact [OF this i, of "0x80200000" "0x80a00000" buddy_new]
  obtain fa where fa: "init_frame_allocator buddy_new (usable_memory_regions bi) 0x80200000 0x80a00000 = Some fa"
    "free_frames fa = {p. (\<exists>r\<in>set (memory_regions bi). page_bytes p \<subseteq> bytes r)
        \<and> page_bytes p \<inter> \<Union>(bytes ` set (reserved_regions bi)) = {} \<and> page_bytes p \<inter> {0x80200000..<0x80a00000} = {}}"
    by (auto simp: m sep_def close_regions_def MAX_MANAGED_REGIONS_def)
  then show ?thesis using i m pb by (intro exI [of _ bi] exI [of _ fa]) (auto simp: bytes_def disjoint_iff)
qed

end
