(* ===== verification/Vma.thy ===== *)
theory Vma
  imports Ordered_Map Paging_Arch Kernel_Stacks
begin

unbundle bit_operations_syntax

text \<open>
  Virtual memory areas of \<open>os/src/mm/memory_set.rs\<close>: their descriptors, how they are split and merged, and the table that
  holds them by start page. A page object (\<open>Arc<PrivatePage>\<close>, \<open>Arc<CachePage>\<close>) is known by a number, a file by a number; the
  read-ahead state of a file mapping is a performance hint and left out.
\<close>

section \<open>Ranges in an ordered map\<close>

text \<open>\<open>range(..=k).next_back()\<close>, \<open>range(..k).next_back()\<close> and \<open>range(k..).next()\<close>.\<close>

definition om_last_le :: "'k::linorder \<Rightarrow> ('k \<times> 'v) list \<Rightarrow> ('k \<times> 'v) option" where
  "om_last_le k m = (case filter (\<lambda>e. fst e \<le> k) m of [] \<Rightarrow> None | e # es \<Rightarrow> Some (last (e # es)))"

definition om_last_less :: "'k::linorder \<Rightarrow> ('k \<times> 'v) list \<Rightarrow> ('k \<times> 'v) option" where
  "om_last_less k m = (case filter (\<lambda>e. fst e < k) m of [] \<Rightarrow> None | e # es \<Rightarrow> Some (last (e # es)))"

definition om_first_ge :: "'k::linorder \<Rightarrow> ('k \<times> 'v) list \<Rightarrow> ('k \<times> 'v) option" where
  "om_first_ge k m = find (\<lambda>e. k \<le> fst e) m"

text \<open>\<open>split_off(&k)\<close> and \<open>extend\<close>.\<close>

definition om_split :: "'k::linorder \<Rightarrow> ('k \<times> 'v) list \<Rightarrow> ('k \<times> 'v) list \<times> ('k \<times> 'v) list" where
  "om_split k m = (filter (\<lambda>e. fst e < k) m, filter (\<lambda>e. k \<le> fst e) m)"

definition om_extend :: "('k::linorder \<times> 'v) list \<Rightarrow> ('k \<times> 'v) list \<Rightarrow> ('k \<times> 'v) list" where
  "om_extend m es = foldl (\<lambda>m (k, v). om_insert k v m) m es"

section \<open>Areas\<close>

datatype map_kind = Identical | Direct | Framed

datatype vma_role = Kernel | Elf | Heap | UserStack nat | TrapContext nat | Anonymous | SharedAnonymous | File | Vdso

datatype fault_access = Read | Write | Exec

definition MAP_R :: u8 where "MAP_R = 2"
definition MAP_W :: u8 where "MAP_W = 4"
definition MAP_X :: u8 where "MAP_X = 8"
definition MAP_U :: u8 where "MAP_U = 16"

definition perm_has :: "u8 \<Rightarrow> u8 \<Rightarrow> bool" where "perm_has p f \<longleftrightarrow> p AND f = f"

record file_vma =
  fv_file :: nat
  pgoff :: nat
  fv_shared :: bool

record vma =
  start_vpn :: nat
  end_vpn :: nat
  data_frames :: "(nat \<times> nat) list"
  map_type :: map_kind
  map_perm :: u8
  kind :: vma_role
  vma_file :: "file_vma option"
  shared_anon :: bool
  direct_cache_pages :: "(nat \<times> nat) list"

definition contains_vpn :: "vma \<Rightarrow> nat \<Rightarrow> bool" where
  "contains_vpn v vpn \<longleftrightarrow> start_vpn v \<le> vpn \<and> vpn < end_vpn v"

definition is_heap :: "vma \<Rightarrow> bool" where "is_heap v \<longleftrightarrow> kind v = Heap"

definition supports_mremap :: "vma \<Rightarrow> bool" where
  "supports_mremap v \<longleftrightarrow> kind v = Anonymous \<or> kind v = SharedAnonymous \<or> kind v = File"

definition byte_len :: "vma \<Rightarrow> nat" where
  "byte_len v = sat_sub (end_vpn v) (start_vpn v) * 4096 mod 2 ^ 64"

definition is_user_accessible :: "vma \<Rightarrow> bool" where
  "is_user_accessible v \<longleftrightarrow> perm_has (map_perm v) MAP_U"

definition can_merge_with :: "vma \<Rightarrow> vma \<Rightarrow> bool" where
  "can_merge_with a b \<longleftrightarrow> end_vpn a = start_vpn b \<and> map_type a = map_type b \<and> map_perm a = map_perm b \<and> kind a = kind b
     \<and> shared_anon a = shared_anon b \<and> vma_file a = None \<and> vma_file b = None"

text \<open>The range of the result is ordered, because both ranges are and they touch.\<close>

definition absorb :: "vma \<Rightarrow> vma \<Rightarrow> vma" where
  "absorb a b = a\<lparr>end_vpn := end_vpn b, data_frames := om_extend (data_frames a) (data_frames b)\<rparr>"

definition supports_private_page_sharing :: "vma \<Rightarrow> bool" where
  "supports_private_page_sharing v \<longleftrightarrow>
     map_type v = Framed \<and> (case kind v of TrapContext _ \<Rightarrow> False | _ \<Rightarrow> True) \<and> \<not> shared_anon v
     \<and> (case vma_file v of Some f \<Rightarrow> \<not> fv_shared f | None \<Rightarrow> True)"

definition is_shared_anonymous :: "vma \<Rightarrow> bool" where "is_shared_anonymous v \<longleftrightarrow> kind v = SharedAnonymous"

fun access_perm :: "fault_access \<Rightarrow> u8" where
  "access_perm Read = MAP_R"
| "access_perm Write = MAP_W"
| "access_perm Exec = MAP_X"

definition allows_fault_access :: "vma \<Rightarrow> fault_access \<Rightarrow> bool" where
  "allows_fault_access v a \<longleftrightarrow> perm_has (map_perm v) (access_perm a)"

definition supports_lazy_user_fault :: "vma \<Rightarrow> bool" where
  "supports_lazy_user_fault v \<longleftrightarrow> map_type v = Framed \<and> is_user_accessible v \<and> \<not> shared_anon v
     \<and> (case kind v of Anonymous \<Rightarrow> True | SharedAnonymous \<Rightarrow> True | Heap \<Rightarrow> True | UserStack _ \<Rightarrow> True | _ \<Rightarrow> False)"

definition should_eager_map :: "vma \<Rightarrow> bool" where
  "should_eager_map v \<longleftrightarrow> vma_file v = None \<and> \<not> supports_lazy_user_fault v"

definition file_page_index :: "vma \<Rightarrow> nat \<Rightarrow> nat option" where
  "file_page_index v vpn = do {
     f \<leftarrow> vma_file v;
     if vpn < start_vpn v then None else Some (wrap_add (pgoff f) (vpn - start_vpn v))
   }"

text \<open>\<open>split_off\<close> leaves the left part and answers the right one.\<close>

definition split_off :: "vma \<Rightarrow> nat \<Rightarrow> (vma \<times> vma) option" where
  "split_off v k =
     (if k \<le> start_vpn v \<or> k \<ge> end_vpn v then None
      else let (df, rdf) = om_split k (data_frames v);
               (dc, rdc) = om_split k (direct_cache_pages v);
               rf = map_option (\<lambda>f. f\<lparr>pgoff := wrap_add (pgoff f) (k - start_vpn v)\<rparr>) (vma_file v)
           in Some (v\<lparr>end_vpn := k, data_frames := df, direct_cache_pages := dc\<rparr>,
                    v\<lparr>start_vpn := k, data_frames := rdf, direct_cache_pages := rdc, vma_file := rf\<rparr>))"

definition clone_metadata :: "vma \<Rightarrow> vma" where
  "clone_metadata v = v\<lparr>data_frames := [], direct_cache_pages := []\<rparr>"

text \<open>\<open>VirtAddr::floor\<close>, \<open>VirtAddr::ceil\<close> with its wrapping subtraction, and the address of a page.\<close>

definition va_floor :: "nat \<Rightarrow> nat" where "va_floor va = va div 4096"
definition va_ceil :: "nat \<Rightarrow> nat" where "va_ceil va = wrap_add (wrap_sub va 1) 4096 div 4096"
definition vpn_addr :: "nat \<Rightarrow> nat" where "vpn_addr vpn = vpn * 4096 mod 2 ^ 64"

text \<open>The constructors; \<open>None\<close> is the failed assertion of \<open>VPNRange::new\<close>.\<close>

definition vma_new :: "nat \<Rightarrow> nat \<Rightarrow> map_kind \<Rightarrow> u8 \<Rightarrow> vma_role \<Rightarrow> vma option" where
  "vma_new start_va end_va mt mp k =
     (if va_floor start_va \<le> va_ceil end_va
      then Some \<lparr>start_vpn = va_floor start_va, end_vpn = va_ceil end_va, data_frames = [], map_type = mt, map_perm = mp, kind = k,
                 vma_file = None, shared_anon = False, direct_cache_pages = []\<rparr>
      else None)"

definition new_heap :: "nat \<Rightarrow> nat \<Rightarrow> u8 \<Rightarrow> vma option" where
  "new_heap start_va end_va mp = vma_new start_va end_va Framed mp Heap"

definition new_anonymous :: "nat \<Rightarrow> nat \<Rightarrow> u8 \<Rightarrow> bool \<Rightarrow> vma option" where
  "new_anonymous start_va end_va mp shared = map_option (\<lambda>v. v\<lparr>shared_anon := shared\<rparr>) (vma_new start_va end_va Framed mp Anonymous)"

definition new_shared_anonymous :: "nat \<Rightarrow> nat \<Rightarrow> u8 \<Rightarrow> vma option" where
  "new_shared_anonymous start_va end_va mp =
     map_option (\<lambda>v. v\<lparr>shared_anon := True\<rparr>) (vma_new start_va end_va Framed mp SharedAnonymous)"

definition new_file :: "nat \<Rightarrow> nat \<Rightarrow> u8 \<Rightarrow> nat \<Rightarrow> nat \<Rightarrow> bool \<Rightarrow> vma option" where
  "new_file start_va end_va mp f off shared =
     map_option (\<lambda>v. v\<lparr>vma_file := Some \<lparr>fv_file = f, pgoff = off, fv_shared = shared\<rparr>\<rparr>) (vma_new start_va end_va Framed mp File)"

definition new_user_stack :: "nat \<Rightarrow> nat \<Rightarrow> nat \<Rightarrow> vma option" where
  "new_user_stack start_va end_va tid = vma_new start_va end_va Framed (MAP_R OR MAP_W OR MAP_U) (UserStack tid)"

definition new_elf :: "nat \<Rightarrow> nat \<Rightarrow> u8 \<Rightarrow> vma option" where
  "new_elf start_va end_va mp = vma_new start_va end_va Framed mp Elf"

definition new_vdso :: "nat \<Rightarrow> nat \<Rightarrow> vma option" where
  "new_vdso start_va end_va = vma_new start_va end_va Framed (MAP_R OR MAP_X OR MAP_U) Vdso"

section \<open>The table\<close>

type_synonym vma_table = "(nat \<times> vma) list"

definition find_vma_containing :: "vma_table \<Rightarrow> nat \<Rightarrow> vma option" where
  "find_vma_containing vmas vpn =
     (case om_last_le vpn vmas of
        Some (_, v) \<Rightarrow> if contains_vpn v vpn then Some v else None
      | None \<Rightarrow> None)"

definition overlaps_vma_range :: "vma_table \<Rightarrow> nat \<Rightarrow> nat \<Rightarrow> bool" where
  "overlaps_vma_range vmas s e \<longleftrightarrow>
     s \<ge> e
     \<or> (case om_last_le s vmas of Some (_, prev) \<Rightarrow> end_vpn prev > s | None \<Rightarrow> False)
     \<or> (case om_first_ge s vmas of Some (next_start, _) \<Rightarrow> next_start < e | None \<Rightarrow> False)"

definition insert_vma_unchecked :: "vma \<Rightarrow> vma_table \<Rightarrow> vma_table" where
  "insert_vma_unchecked v vmas = om_insert (start_vpn v) v vmas"

definition register_vma_metadata :: "vma \<Rightarrow> vma_table \<Rightarrow> mm_error + vma_table" where
  "register_vma_metadata v vmas =
     (if overlaps_vma_range vmas (start_vpn v) (end_vpn v) then Err Conflict else Ok (insert_vma_unchecked v vmas))"

text \<open>\<open>merge_vma_around\<close>: the left neighbour, then the right one.\<close>

definition merge_left :: "vma \<Rightarrow> vma_table \<Rightarrow> vma \<times> vma_table" where
  "merge_left area vmas =
     (case om_last_less (start_vpn area) vmas of
        None \<Rightarrow> (area, vmas)
      | Some (left_key, left) \<Rightarrow>
          if can_merge_with left area then (absorb left area, snd (om_remove left_key vmas)) else (area, vmas))"

definition merge_right :: "vma \<Rightarrow> vma_table \<Rightarrow> vma \<times> vma_table" where
  "merge_right area vmas =
     (case om_first_ge (end_vpn area) vmas of
        None \<Rightarrow> (area, vmas)
      | Some (right_key, right) \<Rightarrow>
          if can_merge_with area right then (absorb area right, snd (om_remove right_key vmas)) else (area, vmas))"

definition merge_vma_around :: "nat \<Rightarrow> vma_table \<Rightarrow> vma_table" where
  "merge_vma_around key vmas =
     (case om_remove key vmas of
        (None, _) \<Rightarrow> vmas
      | (Some area, vmas) \<Rightarrow>
          let (area, vmas) = merge_left area vmas; (area, vmas) = merge_right area vmas
          in insert_vma_unchecked area vmas)"

text \<open>\<open>merge_adjacent_vmas\<close>: one pass over the areas in order, with the last area of the result at hand.\<close>

fun merge_pass :: "vma list \<Rightarrow> vma list \<Rightarrow> vma list" where
  "merge_pass done [] = rev done"
| "merge_pass [] (a # as) = merge_pass [a] as"
| "merge_pass (l # done) (a # as) =
     (if can_merge_with l a then merge_pass (absorb l a # done) as else merge_pass (a # l # done) as)"

definition rebuild_vmas_from_vec :: "vma list \<Rightarrow> vma_table" where
  "rebuild_vmas_from_vec areas = foldl (\<lambda>m a. insert_vma_unchecked a m) [] areas"

definition merge_adjacent_vmas :: "vma_table \<Rightarrow> vma_table" where
  "merge_adjacent_vmas vmas = rebuild_vmas_from_vec (merge_pass [] (map snd vmas))"

definition user_vma_bytes :: "vma_table \<Rightarrow> nat" where
  "user_vma_bytes vmas = sum_list (map byte_len (filter is_user_accessible (map snd vmas))) mod 2 ^ 64"

end
