(* ===== verification/Vma_Table.thy ===== *)
theory Vma_Table
  imports Vma
begin

text \<open>
  The table of areas as a function from pages to what is known of them: the areas are disjoint and nonempty, lookups find the one
  area that covers a page, and splitting and merging areas does not change what is known of any page.
\<close>

section \<open>Ranges in an ordered map\<close>

lemma om_ok_filter: "om_ok m \<Longrightarrow> om_ok (filter P m)"
  by (induction m) (auto simp: om_ok_def)

lemma om_ok_last: "om_ok m \<Longrightarrow> e \<in> set m \<Longrightarrow> fst e \<le> fst (last m)"
  by (induction m) (auto simp: om_ok_def less_imp_le)

lemma om_ok_key: "om_ok m \<Longrightarrow> e \<in> set m \<Longrightarrow> e' \<in> set m \<Longrightarrow> fst e = fst e' \<Longrightarrow> e = e'"
  by (induction m) (auto simp: om_ok_def)

lemma last_filter_spec:
  fixes m :: "('k::linorder \<times> 'v) list"
  assumes "om_ok m" and "r = (case filter P m of [] \<Rightarrow> None | e # es \<Rightarrow> Some (last (e # es)))"
  shows "r = Some e \<longleftrightarrow> e \<in> set m \<and> P e \<and> (\<forall>e'\<in>set m. P e' \<longrightarrow> fst e' \<le> fst e)" and "r = None \<longleftrightarrow> (\<forall>e\<in>set m. \<not> P e)"
proof -
  let ?f = "filter P m"
  have e: "r = (if ?f = [] then None else Some (last ?f))" using assms(2) by (cases ?f) auto
  show "r = None \<longleftrightarrow> (\<forall>e\<in>set m. \<not> P e)" unfolding e by (simp add: filter_empty_conv)
  show "r = Some e \<longleftrightarrow> e \<in> set m \<and> P e \<and> (\<forall>e'\<in>set m. P e' \<longrightarrow> fst e' \<le> fst e)"
  proof (cases "?f = []")
    case True
    then show ?thesis using e by (auto simp: filter_empty_conv)
  next
    case False
    then have l: "last ?f \<in> set m" "P (last ?f)" using last_in_set [of ?f] by auto
    have b: "\<forall>e'\<in>set m. P e' \<longrightarrow> fst e' \<le> fst (last ?f)" using om_ok_last [OF om_ok_filter [OF assms(1)]] by auto
    show ?thesis
    proof
      assume "r = Some e"
      then show "e \<in> set m \<and> P e \<and> (\<forall>e'\<in>set m. P e' \<longrightarrow> fst e' \<le> fst e)" using e False l b by auto
    next
      assume a: "e \<in> set m \<and> P e \<and> (\<forall>e'\<in>set m. P e' \<longrightarrow> fst e' \<le> fst e)"
      then have "fst e = fst (last ?f)" using l b by (simp add: order.antisym)
      then have "e = last ?f" using om_ok_key [OF assms(1) _ l(1)] a by blast
      then show "r = Some e" using e False by simp
    qed
  qed
qed

lemmas om_last_le_spec = last_filter_spec [OF _ om_last_le_def]
lemmas om_last_less_spec = last_filter_spec [OF _ om_last_less_def]

lemma om_first_ge_spec:
  fixes m :: "('k::linorder \<times> 'v) list"
  shows "om_ok m \<Longrightarrow> om_first_ge k m = Some e \<longleftrightarrow> e \<in> set m \<and> k \<le> fst e \<and> (\<forall>e'\<in>set m. k \<le> fst e' \<longrightarrow> fst e \<le> fst e')"
    and "om_first_ge k m = None \<longleftrightarrow> (\<forall>e\<in>set m. fst e < k)"
proof -
  show "om_first_ge k m = None \<longleftrightarrow> (\<forall>e\<in>set m. fst e < k)" by (auto simp: om_first_ge_def find_None_iff not_le)
  show "om_ok m \<Longrightarrow> om_first_ge k m = Some e \<longleftrightarrow> e \<in> set m \<and> k \<le> fst e \<and> (\<forall>e'\<in>set m. k \<le> fst e' \<longrightarrow> fst e \<le> fst e')"
  proof (induction m)
    case (Cons x m)
    have s: "om_ok m" "\<forall>e\<in>set m. fst x < fst e" using Cons.prems by (auto simp: om_ok_def)
    show ?case
    proof (cases "k \<le> fst x")
      case True
      then have "om_first_ge k (x # m) = Some x" by (simp add: om_first_ge_def)
      then show ?thesis using True s(2) by force
    next
      case False
      then have "om_first_ge k (x # m) = om_first_ge k m" by (simp add: om_first_ge_def)
      then show ?thesis using Cons.IH [OF s(1)] False by auto
    qed
  qed (simp add: om_first_ge_def)
qed

lemma om_extend_spec:
  assumes "om_ok m"
  shows "om_ok (om_extend m es) \<and> map_of (om_extend m es) = map_of m ++ map_of (rev es)
    \<and> fst ` set (om_extend m es) = fst ` set m \<union> fst ` set es"
  using assms
proof (induction es arbitrary: m)
  case (Cons x es)
  obtain k v where x: "x = (k, v)" by force
  have s: "om_ok (om_insert k v m)" "map_of (om_insert k v m) = (map_of m)(k \<mapsto> v)"
    using Cons.prems by (rule om.ok_ins, rule om.lookup_ins)
  have f: "fst ` set (om_insert k v m) = insert k (fst ` set m)"
    unfolding om.set_ins [OF Cons.prems, of k v] by (auto simp: image_iff)
  have "om_extend m (x # es) = om_extend (om_insert k v m) es" by (simp add: om_extend_def x)
  moreover have "map_of m ++ map_of (rev (x # es)) = map_of (om_insert k v m) ++ map_of (rev es)"
    unfolding s(2) by (simp add: x map_add_assoc map_of_append)
  ultimately show ?case using Cons.IH [OF s(1)] f by (simp add: x)
qed (simp add: om_extend_def)

section \<open>Well-formed tables\<close>

definition vma_ok :: "vma \<Rightarrow> bool" where
  "vma_ok v \<longleftrightarrow> start_vpn v < end_vpn v \<and> om_ok (data_frames v) \<and> om_ok (direct_cache_pages v)
     \<and> (\<forall>k\<in>fst ` set (data_frames v) \<union> fst ` set (direct_cache_pages v). start_vpn v \<le> k \<and> k < end_vpn v)
     \<and> (vma_file v = None \<longrightarrow> direct_cache_pages v = [])"

definition apart :: "vma \<Rightarrow> vma \<Rightarrow> bool" where
  "apart v w \<longleftrightarrow> end_vpn v \<le> start_vpn w \<or> end_vpn w \<le> start_vpn v"

definition areas_ok :: "vma set \<Rightarrow> bool" where
  "areas_ok S \<longleftrightarrow> (\<forall>v\<in>S. vma_ok v) \<and> (\<forall>v\<in>S. \<forall>w\<in>S. v \<noteq> w \<longrightarrow> apart v w)"

definition areas :: "vma_table \<Rightarrow> vma set" where "areas m = snd ` set m"

definition vmas_ok :: "vma_table \<Rightarrow> bool" where
  "vmas_ok m \<longleftrightarrow> om_ok m \<and> (\<forall>e\<in>set m. fst e = start_vpn (snd e)) \<and> areas_ok (areas m)"

lemma areas_mem: "vmas_ok m \<Longrightarrow> v \<in> areas m \<longleftrightarrow> (start_vpn v, v) \<in> set m"
  by (force simp: vmas_ok_def areas_def)

lemma vmas_okD: "vmas_ok m \<Longrightarrow> v \<in> areas m \<Longrightarrow> vma_ok v" "vmas_ok m \<Longrightarrow> v \<in> areas m \<Longrightarrow> w \<in> areas m \<Longrightarrow> v \<noteq> w \<Longrightarrow> apart v w"
  by (auto simp: vmas_ok_def areas_ok_def)

lemma empty_vmas_ok [simp]: "vmas_ok []" "areas [] = {}"
  by (simp_all add: vmas_ok_def areas_ok_def areas_def om_ok_def)

lemma apart_swap: "apart v w = apart w v" by (auto simp: apart_def)

lemma areas_ok_insert: "areas_ok S \<Longrightarrow> vma_ok v \<Longrightarrow> \<forall>w\<in>S. apart v w \<Longrightarrow> areas_ok (insert v S)"
  by (auto simp: areas_ok_def apart_swap)

lemma areas_ok_subset: "areas_ok S \<Longrightarrow> T \<subseteq> S \<Longrightarrow> areas_ok T"
  by (auto simp: areas_ok_def)

lemma insert_unchecked_ok:
  assumes "vmas_ok m" and "vma_ok v" and "\<forall>w\<in>areas m. apart v w"
  shows "vmas_ok (insert_vma_unchecked v m)" and "areas (insert_vma_unchecked v m) = insert v (areas m)"
proof -
  have o: "om_ok m" "\<forall>e\<in>set m. fst e = start_vpn (snd e)" using assms(1) by (auto simp: vmas_ok_def)
  have "start_vpn w \<noteq> start_vpn v" if "w \<in> areas m" for w
    using assms that vmas_okD(1) [OF assms(1) that] by (auto simp: vma_ok_def apart_def)
  then have "{e \<in> set m. fst e \<noteq> start_vpn v} = set m" using o(2) by (force simp: areas_def)
  then have s: "set (insert_vma_unchecked v m) = insert (start_vpn v, v) (set m)"
    using om.set_ins [OF o(1)] by (simp add: insert_vma_unchecked_def)
  then show a: "areas (insert_vma_unchecked v m) = insert v (areas m)" by (simp add: areas_def)
  show "vmas_ok (insert_vma_unchecked v m)"
    unfolding vmas_ok_def a using s o om.ok_ins [OF o(1)] areas_ok_insert [OF _ assms(2,3)] assms(1)
    by (auto simp: vmas_ok_def insert_vma_unchecked_def)
qed

lemma remove_ok:
  assumes "vmas_ok m" and "om_remove k m = (r, m')"
  shows "vmas_ok m'" and "areas m' = {v \<in> areas m. start_vpn v \<noteq> k}"
    and "r = Some v \<longleftrightarrow> v \<in> areas m \<and> start_vpn v = k"
proof -
  have o: "om_ok m" "\<forall>e\<in>set m. fst e = start_vpn (snd e)" using assms(1) by (auto simp: vmas_ok_def)
  have s: "set m' = {e \<in> set m. fst e \<noteq> k}" "om_ok m'" "r = map_of m k" using om_remove_spec [OF o(1), of k] assms(2) by auto
  show a: "areas m' = {v \<in> areas m. start_vpn v \<noteq> k}" using s(1) o(2) by (force simp: areas_def)
  show "vmas_ok m'" unfolding vmas_ok_def a using s o(2) assms(1) areas_ok_subset [of "areas m"] by (auto simp: vmas_ok_def)
  show "r = Some v \<longleftrightarrow> v \<in> areas m \<and> start_vpn v = k"
    unfolding s(3) om.lookup_iff [OF o(1)] using o(2) by (force simp: areas_def)
qed

text \<open>Lookups.\<close>

lemma find_containing_iff:
  assumes "vmas_ok m"
  shows "find_vma_containing m vpn = Some v \<longleftrightarrow> v \<in> areas m \<and> contains_vpn v vpn"
proof -
  have o: "om_ok m" "\<forall>e\<in>set m. fst e = start_vpn (snd e)" using assms by (auto simp: vmas_ok_def)
  have "om_last_le vpn m = Some (start_vpn v, v)" if v: "v \<in> areas m" "contains_vpn v vpn"
  proof -
    have "start_vpn w \<le> start_vpn v" if w: "w \<in> areas m" "start_vpn w \<le> vpn" for w
      using vmas_okD(1) [OF assms w(1)] vmas_okD(2) [OF assms v(1) w(1)] v(2) w(2) by (cases "v = w") (auto simp: vma_ok_def apart_def contains_vpn_def)
    then have "\<forall>e\<in>set m. fst e \<le> vpn \<longrightarrow> fst e \<le> start_vpn v" using o(2) by (auto simp: areas_def)
    then show ?thesis using om_last_le_spec(1) [OF o(1)] v areas_mem [OF assms] by (simp add: contains_vpn_def)
  qed
  moreover have "w \<in> areas m" if "om_last_le vpn m = Some (k, w)" for k w
    using that om_last_le_spec(1) [OF o(1)] by (force simp: areas_def)
  ultimately show ?thesis by (auto simp: find_vma_containing_def split: option.splits if_splits)
qed

lemma overlaps_iff:
  assumes "vmas_ok m" and "s < e"
  shows "overlaps_vma_range m s e \<longleftrightarrow> (\<exists>v\<in>areas m. start_vpn v < e \<and> s < end_vpn v)"
proof -
  have o: "om_ok m" "\<forall>e\<in>set m. fst e = start_vpn (snd e)" using assms(1) by (auto simp: vmas_ok_def)
  show ?thesis
  proof
    assume "overlaps_vma_range m s e"
    then consider k v where "om_last_le s m = Some (k, v)" "end_vpn v > s" | k v where "om_first_ge s m = Some (k, v)" "k < e"
      using assms(2) by (auto simp: overlaps_vma_range_def split: option.splits)
    then show "\<exists>v\<in>areas m. start_vpn v < e \<and> s < end_vpn v"
    proof cases
      case 1
      then have "(k, v) \<in> set m" "k \<le> s" using om_last_le_spec(1) [OF o(1)] by auto
      then show ?thesis using o(2) 1(2) assms(2) by (force simp: areas_def)
    next
      case 2
      then have k: "(k, v) \<in> set m" "s \<le> k" using om_first_ge_spec(1) [OF o(1)] by auto
      moreover have "v \<in> areas m" using k(1) by (force simp: areas_def)
      ultimately show ?thesis using vmas_okD(1) [OF assms(1), of v] o(2) 2(2) by (intro bexI [of _ v]) (auto simp: vma_ok_def)
    qed
  next
    assume "\<exists>v\<in>areas m. start_vpn v < e \<and> s < end_vpn v"
    then obtain v where v: "v \<in> areas m" "start_vpn v < e" "s < end_vpn v" by blast
    have mem: "(start_vpn v, v) \<in> set m" using areas_mem [OF assms(1)] v(1) by simp
    show "overlaps_vma_range m s e"
    proof (cases "start_vpn v \<le> s")
      case True
      then have "find_vma_containing m s = Some v" using find_containing_iff [OF assms(1)] v by (simp add: contains_vpn_def)
      then show ?thesis using v(3) by (auto simp: find_vma_containing_def overlaps_vma_range_def split: option.splits if_splits)
    next
      case False
      then obtain x where x: "om_first_ge s m = Some x" using om_first_ge_spec(2) [of s m] mem by (cases "om_first_ge s m") force+
      then have "fst x \<le> start_vpn v" using om_first_ge_spec(1) [OF o(1)] mem False by fastforce
      then show ?thesis using x v(2) by (cases x) (auto simp: overlaps_vma_range_def)
    qed
  qed
qed

section \<open>What is known of a page\<close>

record page_info =
  pi_type :: map_kind
  pi_perm :: u8
  pi_kind :: vma_role
  pi_anon :: bool
  pi_file :: "(nat \<times> nat \<times> bool) option"
  pi_frame :: "nat option"
  pi_cache :: "nat option"

definition page_view :: "vma \<Rightarrow> nat \<Rightarrow> page_info" where
  "page_view v vpn = \<lparr>pi_type = map_type v, pi_perm = map_perm v, pi_kind = kind v, pi_anon = shared_anon v,
     pi_file = map_option (\<lambda>f. (fv_file f, wrap_add (pgoff f) (vpn - start_vpn v), fv_shared f)) (vma_file v),
     pi_frame = map_of (data_frames v) vpn, pi_cache = map_of (direct_cache_pages v) vpn\<rparr>"

definition view :: "vma_table \<Rightarrow> nat \<Rightarrow> page_info option" where
  "view m vpn = map_option (\<lambda>v. page_view v vpn) (find_vma_containing m vpn)"

definition covers :: "vma set \<Rightarrow> nat \<Rightarrow> page_info \<Rightarrow> bool" where
  "covers S vpn i \<longleftrightarrow> (\<exists>v\<in>S. contains_vpn v vpn \<and> i = page_view v vpn)"

lemma view_iff: "vmas_ok m \<Longrightarrow> view m vpn = Some i \<longleftrightarrow> covers (areas m) vpn i"
  using find_containing_iff by (auto simp: view_def covers_def)

lemma view_eqI:
  assumes "vmas_ok m" and "\<And>i. covers (areas m) vpn i \<longleftrightarrow> x = Some i"
  shows "view m vpn = x"
  using view_iff [OF assms(1), of vpn] assms(2) by (metis option.exhaust)

lemma view_None: "vmas_ok m \<Longrightarrow> view m vpn = None \<longleftrightarrow> (\<forall>v\<in>areas m. \<not> contains_vpn v vpn)"
  using find_containing_iff [of m vpn] by (cases "find_vma_containing m vpn") (auto simp: view_def)

lemma covers_Un [simp]: "covers (S \<union> T) vpn i \<longleftrightarrow> covers S vpn i \<or> covers T vpn i"
  and covers_insert [simp]: "covers (insert v S) vpn i \<longleftrightarrow> contains_vpn v vpn \<and> i = page_view v vpn \<or> covers S vpn i"
  and covers_empty [simp]: "\<not> covers {} vpn i"
  by (auto simp: covers_def)

text \<open>Splitting an area.\<close>

lemma wrap_add_assoc: "wrap_add (wrap_add a b) c = wrap_add a (b + c)"
  by (simp add: wrap_add_def mod_simps add.assoc)

lemma map_of_filter_key: "map_of (filter (\<lambda>e. P (fst e)) m) k = (if P k then map_of m k else None)"
  by (induction m) auto

lemma split_off_spec:
  assumes "vma_ok v" and "split_off v k = Some (l, r)"
  shows "vma_ok l" and "vma_ok r" and "start_vpn l = start_vpn v" and "end_vpn l = k" and "start_vpn r = k" and "end_vpn r = end_vpn v"
    and "\<And>vpn. contains_vpn l vpn \<Longrightarrow> page_view l vpn = page_view v vpn"
    and "\<And>vpn. contains_vpn r vpn \<Longrightarrow> page_view r vpn = page_view v vpn"
    and "is_user_accessible l = is_user_accessible v" and "is_user_accessible r = is_user_accessible v"
proof -
  have k: "start_vpn v < k" "k < end_vpn v" using assms(2) by (auto simp: split_off_def split: if_splits)
  have l: "l = v\<lparr>end_vpn := k, data_frames := filter (\<lambda>e. fst e < k) (data_frames v), direct_cache_pages := filter (\<lambda>e. fst e < k) (direct_cache_pages v)\<rparr>"
    and r: "r = v\<lparr>start_vpn := k, data_frames := filter (\<lambda>e. k \<le> fst e) (data_frames v), direct_cache_pages := filter (\<lambda>e. k \<le> fst e) (direct_cache_pages v),
      vma_file := map_option (\<lambda>f. f\<lparr>pgoff := wrap_add (pgoff f) (k - start_vpn v)\<rparr>) (vma_file v)\<rparr>"
    using assms(2) k by (auto simp: split_off_def om_split_def Let_def)
  show "vma_ok l" "vma_ok r" using assms(1) k unfolding l r by (auto simp: vma_ok_def om_ok_filter)
  show "start_vpn l = start_vpn v" "end_vpn l = k" "start_vpn r = k" "end_vpn r = end_vpn v" by (simp_all add: l r)
  show "is_user_accessible l = is_user_accessible v" "is_user_accessible r = is_user_accessible v" by (simp_all add: l r is_user_accessible_def)
  show "page_view l vpn = page_view v vpn" if "contains_vpn l vpn" for vpn
    using that unfolding l by (simp add: page_view_def contains_vpn_def map_of_filter_key [of "\<lambda>a. a < k"])
  show "page_view r vpn = page_view v vpn" if "contains_vpn r vpn" for vpn
  proof -
    have "k - start_vpn v + (vpn - k) = vpn - start_vpn v" using that k by (simp add: r contains_vpn_def)
    then show ?thesis using that unfolding r
      by (cases "vma_file v") (simp_all add: page_view_def contains_vpn_def map_of_filter_key [of "\<lambda>a. k \<le> a"] wrap_add_assoc)
  qed
qed

lemma split_off_some: "start_vpn v < k \<Longrightarrow> k < end_vpn v \<Longrightarrow> \<exists>l r. split_off v k = Some (l, r)"
  by (simp add: split_off_def Let_def split: prod.splits)

lemma pages_in:
  "vma_ok v \<Longrightarrow> vpn \<in> fst ` set (data_frames v) \<Longrightarrow> contains_vpn v vpn"
  "vma_ok v \<Longrightarrow> vpn \<in> fst ` set (direct_cache_pages v) \<Longrightarrow> contains_vpn v vpn"
  unfolding vma_ok_def contains_vpn_def by blast+

text \<open>Merging two areas.\<close>

lemma absorb_spec:
  assumes "vma_ok a" and "vma_ok b" and "can_merge_with a b"
  shows "vma_ok (absorb a b)" and "start_vpn (absorb a b) = start_vpn a" and "end_vpn (absorb a b) = end_vpn b"
    and "contains_vpn (absorb a b) vpn \<longleftrightarrow> contains_vpn a vpn \<or> contains_vpn b vpn"
    and "contains_vpn a vpn \<Longrightarrow> page_view (absorb a b) vpn = page_view a vpn"
    and "contains_vpn b vpn \<Longrightarrow> page_view (absorb a b) vpn = page_view b vpn"
proof -
  have m: "end_vpn a = start_vpn b" "vma_file a = None" "vma_file b = None" using assms(3) by (auto simp: can_merge_with_def)
  have dc: "direct_cache_pages a = []" "direct_cache_pages b = []" using assms(1,2) m by (auto simp: vma_ok_def)
  have o: "om_ok (data_frames a)" "om_ok (data_frames b)" using assms by (auto simp: vma_ok_def)
  note e = om_extend_spec [OF o(1), of "data_frames b"]
  have db: "map_of (rev (data_frames b)) = map_of (data_frames b)"
    using om.entries_distinct [OF o(2)] by (intro map_of_eqI) (auto simp: rev_map [symmetric])
  show "vma_ok (absorb a b)" using assms m e dc by (auto simp: vma_ok_def absorb_def)
  show "start_vpn (absorb a b) = start_vpn a" "end_vpn (absorb a b) = end_vpn b" by (simp_all add: absorb_def)
  show "contains_vpn (absorb a b) vpn \<longleftrightarrow> contains_vpn a vpn \<or> contains_vpn b vpn"
    using assms m by (auto simp: absorb_def contains_vpn_def vma_ok_def)
  show "page_view (absorb a b) vpn = page_view a vpn" if "contains_vpn a vpn"
  proof -
    have "vpn \<notin> fst ` set (data_frames b)" using that pages_in(1) [OF assms(2), of vpn] m(1) by (auto simp: contains_vpn_def)
    then have "map_of (data_frames b) vpn = None" by (simp add: map_of_eq_None_iff)
    then show ?thesis using e db m dc by (simp add: page_view_def absorb_def map_add_def)
  qed
  show "page_view (absorb a b) vpn = page_view b vpn" if "contains_vpn b vpn"
  proof -
    have "vpn \<notin> fst ` set (data_frames a)" using that pages_in(1) [OF assms(1), of vpn] m(1) by (auto simp: contains_vpn_def)
    then have "map_of (data_frames a) vpn = None" by (simp add: map_of_eq_None_iff)
    then show ?thesis using e db m dc assms(3) by (simp add: page_view_def absorb_def can_merge_with_def map_add_def split: option.split)
  qed
qed

section \<open>Changes to the table\<close>

text \<open>A table from which an area has been taken out.\<close>

definition held :: "vma \<Rightarrow> vma_table \<Rightarrow> nat \<Rightarrow> page_info option" where
  "held v m vpn = (if contains_vpn v vpn then Some (page_view v vpn) else view m vpn)"

definition aside :: "vma \<Rightarrow> vma_table \<Rightarrow> bool" where
  "aside v m \<longleftrightarrow> vmas_ok m \<and> vma_ok v \<and> (\<forall>w\<in>areas m. apart v w)"

lemma apart_contains: "apart v w \<Longrightarrow> contains_vpn v vpn \<Longrightarrow> \<not> contains_vpn w vpn"
  by (auto simp: apart_def contains_vpn_def)

lemma take_area:
  assumes "vmas_ok m" and "om_remove k m = (Some v, m')"
  shows "v \<in> areas m" and "start_vpn v = k" and "aside v m'" and "held v m' = view m" and "areas m' = areas m - {v}"
proof -
  note r = remove_ok [OF assms]
  show v: "v \<in> areas m" "start_vpn v = k" using r(3) by auto
  have d: "apart v w" if "w \<in> areas m" "w \<noteq> v" for w using vmas_okD(2) [OF assms(1) v(1) that(1)] that(2) by blast
  have "start_vpn w \<noteq> k" if "w \<in> areas m" "w \<noteq> v" for w
    using d [OF that] vmas_okD(1) [OF assms(1) v(1)] vmas_okD(1) [OF assms(1) that(1)] v(2) by (auto simp: apart_def vma_ok_def)
  then show e: "areas m' = areas m - {v}" using r(2) v(2) by auto
  show "aside v m'" using r(1) vmas_okD(1) [OF assms(1) v(1)] d e by (auto simp: aside_def)
  show "held v m' = view m"
  proof
    fix vpn
    have "covers (areas m) vpn i \<longleftrightarrow> held v m' vpn = Some i" for i
    proof (cases "contains_vpn v vpn")
      case True
      then show ?thesis using v(1) d apart_contains by (fastforce simp: held_def covers_def)
    next
      case False
      then show ?thesis using view_iff [OF r(1), of vpn i] e by (auto simp: held_def covers_def)
    qed
    then show "held v m' vpn = view m vpn" using view_eqI [OF assms(1)] by metis
  qed
qed

lemma put_area:
  assumes "aside v m"
  shows "vmas_ok (insert_vma_unchecked v m)" and "view (insert_vma_unchecked v m) = held v m"
    and "areas (insert_vma_unchecked v m) = insert v (areas m)"
proof -
  have a: "vmas_ok m" "vma_ok v" "\<forall>w\<in>areas m. apart v w" using assms by (auto simp: aside_def)
  note i = insert_unchecked_ok [OF a]
  show "vmas_ok (insert_vma_unchecked v m)" "areas (insert_vma_unchecked v m) = insert v (areas m)" by (rule i)+
  show "view (insert_vma_unchecked v m) = held v m"
  proof
    fix vpn
    have "covers (insert v (areas m)) vpn x \<longleftrightarrow> held v m vpn = Some x" for x
      using view_iff [OF a(1), of vpn x] a(3) apart_contains by (auto simp: held_def covers_def)
    then show "view (insert_vma_unchecked v m) vpn = held v m vpn" using view_eqI [OF i(1), of vpn] i(2) by metis
  qed
qed

lemma merge_left_ok:
  assumes "aside a m" and "merge_left a m = (a', m')"
  shows "aside a' m'" and "held a' m' = held a m"
proof -
  have a: "vmas_ok m" "vma_ok a" "\<forall>w\<in>areas m. apart a w" using assms(1) by (auto simp: aside_def)
  have "aside a' m' \<and> held a' m' = held a m"
  proof (cases "\<exists>k l. om_last_less (start_vpn a) m = Some (k, l) \<and> can_merge_with l a")
    case True
    then obtain k l where l: "om_last_less (start_vpn a) m = Some (k, l)" "can_merge_with l a" by blast
    have o: "om_ok m" "\<forall>e\<in>set m. fst e = start_vpn (snd e)" using a(1) by (auto simp: vmas_ok_def)
    have k: "(k, l) \<in> set m" "k = start_vpn l" using om_last_less_spec(1) [OF o(1)] l(1) o(2) by fastforce+
    have "fst (om_remove k m) = Some l" using om.fst_del [OF o(1)] om.lookup_iff [OF o(1)] k(1) by simp
    then have r: "om_remove k m = (Some l, m')" "a' = absorb l a" using l assms(2) by (auto simp: merge_left_def prod_eq_iff)
    note t = take_area [OF a(1) r(1)]
    have lo: "vma_ok l" "vmas_ok m'" "\<forall>w\<in>areas m'. apart l w" using t(3) by (auto simp: aside_def)
    note b = absorb_spec [OF lo(1) a(2) l(2)]
    have "apart a' w" if w: "w \<in> areas m'" for w
      using lo(3) a(3) w t(5) vmas_okD(1) [OF lo(2) w] l(2) b(2,3) r(2) by (fastforce simp: apart_def vma_ok_def can_merge_with_def)
    then have as: "aside a' m'" using b(1) lo(2) r(2) by (simp add: aside_def)
    have "held a' m' vpn = held a m vpn" for vpn
    proof -
      have "apart a l" using a(3) t(1) by blast
      then have "contains_vpn a vpn \<Longrightarrow> \<not> contains_vpn l vpn" using apart_contains by blast
      then show ?thesis using b(4-6) [of vpn] fun_cong [OF t(4), of vpn] by (auto simp: held_def r(2))
    qed
    then show ?thesis using as by blast
  next
    case False
    then have "a' = a" "m' = m" using assms(2) by (auto simp: merge_left_def split: option.splits if_splits)
    then show ?thesis using assms(1) by simp
  qed
  then show "aside a' m'" "held a' m' = held a m" by blast+
qed

lemma merge_right_ok:
  assumes "aside a m" and "merge_right a m = (a', m')"
  shows "aside a' m'" and "held a' m' = held a m"
proof -
  have a: "vmas_ok m" "vma_ok a" "\<forall>w\<in>areas m. apart a w" using assms(1) by (auto simp: aside_def)
  have "aside a' m' \<and> held a' m' = held a m"
  proof (cases "\<exists>k r. om_first_ge (end_vpn a) m = Some (k, r) \<and> can_merge_with a r")
    case True
    then obtain k r where l: "om_first_ge (end_vpn a) m = Some (k, r)" "can_merge_with a r" by blast
    have o: "om_ok m" "\<forall>e\<in>set m. fst e = start_vpn (snd e)" using a(1) by (auto simp: vmas_ok_def)
    have k: "(k, r) \<in> set m" "k = start_vpn r" using om_first_ge_spec(1) [OF o(1)] l(1) o(2) by fastforce+
    have "fst (om_remove k m) = Some r" using om.fst_del [OF o(1)] om.lookup_iff [OF o(1)] k(1) by simp
    then have d: "om_remove k m = (Some r, m')" "a' = absorb a r" using l assms(2) by (auto simp: merge_right_def prod_eq_iff)
    note t = take_area [OF a(1) d(1)]
    have lo: "vma_ok r" "vmas_ok m'" "\<forall>w\<in>areas m'. apart r w" using t(3) by (auto simp: aside_def)
    note b = absorb_spec [OF a(2) lo(1) l(2)]
    have "apart a' w" if w: "w \<in> areas m'" for w
      using lo(3) a(3) w t(5) vmas_okD(1) [OF lo(2) w] l(2) b(2,3) d(2) by (fastforce simp: apart_def vma_ok_def can_merge_with_def)
    then have as: "aside a' m'" using b(1) lo(2) d(2) by (simp add: aside_def)
    have "held a' m' vpn = held a m vpn" for vpn
      using b(4-6) [of vpn] fun_cong [OF t(4), of vpn] by (auto simp: held_def d(2))
    then show ?thesis using as by blast
  next
    case False
    then have "a' = a" "m' = m" using assms(2) by (auto simp: merge_right_def split: option.splits if_splits)
    then show ?thesis using assms(1) by simp
  qed
  then show "aside a' m'" "held a' m' = held a m" by blast+
qed

lemma merge_around_ok:
  assumes "vmas_ok m"
  shows "vmas_ok (merge_vma_around k m)" and "view (merge_vma_around k m) = view m"
proof -
  obtain r m1 where r: "om_remove k m = (r, m1)" by fastforce
  have "vmas_ok (merge_vma_around k m) \<and> view (merge_vma_around k m) = view m"
  proof (cases r)
    case None
    then show ?thesis using assms r by (simp add: merge_vma_around_def)
  next
    case (Some a)
    note t = take_area [OF assms r [unfolded Some]]
    obtain a2 m2 where l: "merge_left a m1 = (a2, m2)" by fastforce
    note ml = merge_left_ok [OF t(3) l]
    obtain a3 m3 where rr: "merge_right a2 m2 = (a3, m3)" by fastforce
    note mr = merge_right_ok [OF ml(1) rr]
    have "merge_vma_around k m = insert_vma_unchecked a3 m3" using r Some l rr by (simp add: merge_vma_around_def)
    then show ?thesis using put_area [OF mr(1)] mr(2) ml(2) t(4) by simp
  qed
  then show "vmas_ok (merge_vma_around k m)" "view (merge_vma_around k m) = view m" by blast+
qed

text \<open>Merging in one pass over all areas.\<close>

definition chain :: "vma list \<Rightarrow> bool" where
  "chain vs \<longleftrightarrow> sorted_wrt (\<lambda>v w. end_vpn v \<le> start_vpn w) vs \<and> (\<forall>v\<in>set vs. vma_ok v)"

lemma table_chain:
  assumes "vmas_ok m"
  shows "chain (map snd m)"
proof -
  have o: "om_ok m" "\<forall>e\<in>set m. fst e = start_vpn (snd e)" using assms by (auto simp: vmas_ok_def)
  have "sorted_wrt (\<lambda>e f. end_vpn (snd e) \<le> start_vpn (snd f)) m"
  proof (rule sorted_wrt_mono_rel [rotated])
    show "sorted_wrt (\<lambda>e f. fst e < fst f) m" using o(1) by (simp add: om_ok_def sorted_wrt_map)
  next
    fix e f assume e: "e \<in> set m" "f \<in> set m" "fst e < fst f"
    have "snd e \<in> areas m" "snd f \<in> areas m" using e by (auto simp: areas_def)
    moreover have l: "start_vpn (snd e) < start_vpn (snd f)" using e o(2) by simp
    ultimately have "apart (snd e) (snd f)" "start_vpn (snd f) < end_vpn (snd f)"
      using vmas_okD [OF assms] by (fastforce, simp add: vma_ok_def)
    then show "end_vpn (snd e) \<le> start_vpn (snd f)" using l by (simp add: apart_def)
  qed
  then show ?thesis using vmas_okD(1) [OF assms] by (auto simp: chain_def sorted_wrt_map areas_def)
qed

lemma merge_pass_ok:
  "chain (rev ds @ as) \<Longrightarrow> chain (merge_pass ds as) \<and> covers (set (merge_pass ds as)) = covers (set ds \<union> set as)"
proof (induction ds as rule: merge_pass.induct)
  case (3 l ds a as)
  have c: "vma_ok l" "vma_ok a" "chain (rev ds @ [l, a] @ as)" using "3.prems" by (auto simp: chain_def)
  show ?case
  proof (cases "can_merge_with l a")
    case True
    note b = absorb_spec [OF c(1,2) True]
    have "chain (rev (absorb l a # ds) @ as)" using c(3) b(1-3) by (auto simp: chain_def sorted_wrt_append)
    from "3.IH"(1) [OF True this] have h: "chain (merge_pass (absorb l a # ds) as)"
      "covers (set (merge_pass (absorb l a # ds) as)) = covers (set (absorb l a # ds) \<union> set as)" by blast+
    have "covers (set (absorb l a # ds) \<union> set as) vpn i = covers (set (l # ds) \<union> set (a # as)) vpn i" for vpn i
      using b(4-6) [of vpn] by auto
    then show ?thesis using h True by (simp add: fun_eq_iff)
  next
    case False
    then show ?thesis using "3.IH"(2) [OF False] "3.prems" by (simp add: insert_commute)
  qed
qed (simp_all add: fun_eq_iff)

lemma rebuild_ok:
  "vmas_ok m \<Longrightarrow> chain vs \<Longrightarrow> \<forall>v\<in>areas m. \<forall>w\<in>set vs. end_vpn v \<le> start_vpn w \<Longrightarrow>
     vmas_ok (foldl (\<lambda>m a. insert_vma_unchecked a m) m vs) \<and> areas (foldl (\<lambda>m a. insert_vma_unchecked a m) m vs) = areas m \<union> set vs"
proof (induction vs arbitrary: m)
  case (Cons v vs)
  have v: "vma_ok v" "chain vs" "\<forall>w\<in>set vs. end_vpn v \<le> start_vpn w" using Cons.prems(2) by (auto simp: chain_def)
  have "\<forall>w\<in>areas m. apart v w" using Cons.prems(3) by (auto simp: apart_def)
  note i = insert_unchecked_ok [OF Cons.prems(1) v(1) this]
  show ?case using Cons.IH [OF i(1) v(2)] i(2) v(3) Cons.prems(3) by auto
qed simp

lemma merge_adjacent_ok:
  assumes "vmas_ok m"
  shows "vmas_ok (merge_adjacent_vmas m)" and "view (merge_adjacent_vmas m) = view m"
proof -
  let ?vs = "merge_pass [] (map snd m)"
  have p: "chain ?vs" "covers (set ?vs) = covers (areas m)"
    using merge_pass_ok [of "[]" "map snd m"] table_chain [OF assms] by (simp_all add: areas_def)
  have r: "vmas_ok (merge_adjacent_vmas m)" "areas (merge_adjacent_vmas m) = set ?vs"
    using rebuild_ok [of "[]" ?vs] p(1) by (simp_all add: merge_adjacent_vmas_def rebuild_vmas_from_vec_def)
  show "vmas_ok (merge_adjacent_vmas m)" by (rule r(1))
  have "view (merge_adjacent_vmas m) vpn = Some i \<longleftrightarrow> view m vpn = Some i" for vpn i
    using view_iff [OF r(1)] view_iff [OF assms] r(2) p(2) by simp
  then show "view (merge_adjacent_vmas m) = view m" by (intro ext) (metis not_None_eq)
qed

section \<open>Registering an area\<close>

lemma aside_free:
  assumes "vmas_ok m" and "vma_ok v" and "\<not> overlaps_vma_range m (start_vpn v) (end_vpn v)"
  shows "aside v m"
  using overlaps_iff [OF assms(1), of "start_vpn v" "end_vpn v"] assms by (auto simp: aside_def vma_ok_def apart_def not_less)

lemma register_ok:
  assumes "vmas_ok m" and "register_vma_metadata v m = Ok m'" and "start_vpn v < end_vpn v \<Longrightarrow> vma_ok v"
  shows "vmas_ok m'" and "view m' = held v m" and "\<forall>vpn. contains_vpn v vpn \<longrightarrow> view m vpn = None" and "areas m' = insert v (areas m)"
proof -
  have o: "\<not> overlaps_vma_range m (start_vpn v) (end_vpn v)" "m' = insert_vma_unchecked v m"
    using assms(2) by (auto simp: register_vma_metadata_def split: if_splits)
  then have "start_vpn v < end_vpn v" by (auto simp: overlaps_vma_range_def)
  then have a: "aside v m" using aside_free [OF assms(1) _ o(1)] assms(3) by blast
  show "vmas_ok m'" "view m' = held v m" "areas m' = insert v (areas m)" using put_area [OF a] o(2) by auto
  show "\<forall>vpn. contains_vpn v vpn \<longrightarrow> view m vpn = None"
    using view_None [OF assms(1)] a apart_contains by (auto simp: aside_def)
qed

lemma register_error:
  assumes "vmas_ok m" and "start_vpn v < end_vpn v"
  shows "register_vma_metadata v m = Err Conflict \<longleftrightarrow> (\<exists>vpn. contains_vpn v vpn \<and> view m vpn \<noteq> None)"
proof -
  have "(\<exists>w\<in>areas m. start_vpn w < end_vpn v \<and> start_vpn v < end_vpn w) \<longleftrightarrow> (\<exists>vpn. contains_vpn v vpn \<and> (\<exists>w\<in>areas m. contains_vpn w vpn))"
  proof
    assume "\<exists>w\<in>areas m. start_vpn w < end_vpn v \<and> start_vpn v < end_vpn w"
    then obtain w where w: "w \<in> areas m" "start_vpn w < end_vpn v" "start_vpn v < end_vpn w" by blast
    have "contains_vpn v (max (start_vpn v) (start_vpn w))" "contains_vpn w (max (start_vpn v) (start_vpn w))"
      using w assms(2) vmas_okD(1) [OF assms(1) w(1)] by (auto simp: contains_vpn_def vma_ok_def)
    then show "\<exists>vpn. contains_vpn v vpn \<and> (\<exists>w\<in>areas m. contains_vpn w vpn)" using w(1) by blast
  next
    assume "\<exists>vpn. contains_vpn v vpn \<and> (\<exists>w\<in>areas m. contains_vpn w vpn)"
    then obtain vpn w where "contains_vpn v vpn" "w \<in> areas m" "contains_vpn w vpn" by blast
    then show "\<exists>w\<in>areas m. start_vpn w < end_vpn v \<and> start_vpn v < end_vpn w"
      by (intro bexI [of _ w]) (auto simp: contains_vpn_def)
  qed
  then show ?thesis unfolding register_vma_metadata_def using overlaps_iff [OF assms] view_None [OF assms(1)] by auto
qed

end
