(* ===== verification/Memory_Set.thy ===== *)
theory Memory_Set
  imports Vma_Table
begin

unbundle bit_operations_syntax

text \<open>
  The address space of a process: \<open>MemorySet\<close> of \<open>os/src/mm/memory_set.rs\<close>. Its page table is the map from pages to frames and
  flags that page tables implement; the flushes of the local TLB have no counterpart here. Pages taken out of the table wait in a
  batch until other harts have flushed their TLBs, and marking a page of the page cache dirty is an entry in a list.
\<close>

section \<open>State\<close>

record memory_set =
  ms_pt :: "nat \<Rightarrow> (nat \<times> u16) option"
  ms_vmas :: vma_table
  cache_dirty :: "nat list"

datatype deferred_page = Private nat | DirectCache nat

type_synonym release_batch = "deferred_page list"

definition map_perm_to_pte_flags :: "paging_arch \<Rightarrow> u8 \<Rightarrow> u16" where
  "map_perm_to_pte_flags A p =
     normalize_leaf_flags A
       ((if perm_has p MAP_R then PTE_FLAG_R else 0) OR (if perm_has p MAP_W then PTE_FLAG_W else 0)
        OR (if perm_has p MAP_X then PTE_FLAG_X else 0) OR (if perm_has p MAP_U then PTE_FLAG_U else 0))"

definition ms_clear :: "nat \<Rightarrow> memory_set \<Rightarrow> (nat \<times> u16) option \<times> memory_set" where
  "ms_clear vpn ms = (ms_pt ms vpn, ms\<lparr>ms_pt := (ms_pt ms)(vpn := None)\<rparr>)"

definition ms_update_flags :: "nat \<Rightarrow> u16 \<Rightarrow> memory_set \<Rightarrow> memory_set" where
  "ms_update_flags vpn fl ms =
     (case ms_pt ms vpn of
        Some (ppn, _) \<Rightarrow> ms\<lparr>ms_pt := (ms_pt ms)(vpn \<mapsto> (ppn, fl OR PTE_FLAG_V))\<rparr>
      | None \<Rightarrow> ms)"

section \<open>Taking pages out\<close>

definition mark_if_dirty :: "bool \<Rightarrow> vma \<Rightarrow> nat \<Rightarrow> (nat \<times> u16) option \<Rightarrow> memory_set \<Rightarrow> memory_set" where
  "mark_if_dirty mark_shared_dirty v page old ms =
     (case old of
        Some (_, fl) \<Rightarrow>
          if mark_shared_dirty \<and> (case vma_file v of Some f \<Rightarrow> fv_shared f | None \<Rightarrow> False) \<and> fl_has fl PTE_FLAG_D
          then ms\<lparr>cache_dirty := cache_dirty ms @ [page]\<rparr> else ms
      | None \<Rightarrow> ms)"

definition unmap_present_one_deferred_inner ::
  "bool \<Rightarrow> vma \<times> memory_set \<times> release_batch \<Rightarrow> nat \<Rightarrow> vma \<times> memory_set \<times> release_batch" where
  "unmap_present_one_deferred_inner mark_shared_dirty st vpn = (case st of (v, ms, batch) \<Rightarrow>
     case om_remove vpn (direct_cache_pages v) of
       (Some page, dcp) \<Rightarrow>
         let (old_pte, ms) = ms_clear vpn ms
         in (v\<lparr>direct_cache_pages := dcp\<rparr>, mark_if_dirty mark_shared_dirty v page old_pte ms, batch @ [DirectCache page])
     | (None, _) \<Rightarrow>
         (case (if map_type v = Framed then om_remove vpn (data_frames v) else (None, data_frames v)) of
            (Some page, df) \<Rightarrow> (v\<lparr>data_frames := df\<rparr>, snd (ms_clear vpn ms), batch @ [Private page])
          | (None, _) \<Rightarrow> (v, snd (ms_clear vpn ms), batch)))"

definition unmap_present_one_deferred :: "vma \<times> memory_set \<times> release_batch \<Rightarrow> nat \<Rightarrow> vma \<times> memory_set \<times> release_batch" where
  "unmap_present_one_deferred st vpn = unmap_present_one_deferred_inner True st vpn"

definition unmap_range :: "nat \<Rightarrow> nat \<Rightarrow> vma \<times> memory_set \<times> release_batch \<Rightarrow> vma \<times> memory_set \<times> release_batch" where
  "unmap_range s e st = foldl unmap_present_one_deferred st [s..<e]"

definition teardown_user_deferred :: "vma \<times> memory_set \<times> release_batch \<Rightarrow> vma \<times> memory_set \<times> release_batch" where
  "teardown_user_deferred st =
     (let st = foldl unmap_present_one_deferred st (map fst (direct_cache_pages (fst st)));
          st = foldl unmap_present_one_deferred st (map fst (data_frames (fst st)))
      in case st of (v, ms, batch) \<Rightarrow>
           if map_type v = Framed then (v, ms, batch)
           else (v, foldl (\<lambda>ms vpn. snd (ms_clear vpn ms)) ms [start_vpn v..<end_vpn v], batch))"

text \<open>\<open>None\<close> is the failed assertion of \<open>VPNRange::new\<close>.\<close>

definition vma_shrink_to_deferred :: "nat \<Rightarrow> vma \<times> memory_set \<times> release_batch \<Rightarrow> (vma \<times> memory_set \<times> release_batch) option" where
  "vma_shrink_to_deferred new_end st =
     (if new_end > end_vpn (fst st) \<or> start_vpn (fst st) > new_end then None
      else case unmap_range new_end (end_vpn (fst st)) st of (v, ms, batch) \<Rightarrow> Some (v\<lparr>end_vpn := new_end\<rparr>, ms, batch))"

section \<open>Unmapping a range\<close>

text \<open>The areas that cover the range, when they all exist and belong to the user.\<close>

function covering :: "vma_table \<Rightarrow> nat \<Rightarrow> nat \<Rightarrow> nat list option" where
  "covering vmas cursor e =
     (if cursor < e then
        (case om_last_le cursor vmas of
           Some (area_start, area) \<Rightarrow>
             if contains_vpn area cursor then
               if is_user_accessible area then map_option ((#) area_start) (covering vmas (min (end_vpn area) e) e) else None
             else None
         | None \<Rightarrow> None)
      else Some [])"
  by pat_completeness auto
termination
  by (relation "measure (\<lambda>(vmas, cursor, e). e - cursor)") (auto simp: contains_vpn_def)

declare covering.simps [simp del]

definition cut_right :: "vma \<Rightarrow> nat \<Rightarrow> vma \<times> vma option" where
  "cut_right area overlap_end =
     (if overlap_end < end_vpn area
      then (case split_off area overlap_end of Some (l, r) \<Rightarrow> (l, Some r) | None \<Rightarrow> (area, None))
      else (area, None))"

definition cut_left :: "vma \<Rightarrow> nat \<Rightarrow> vma_table \<Rightarrow> nat list \<Rightarrow> (vma \<times> vma_table \<times> nat list) option" where
  "cut_left area overlap_start vmas candidates =
     (if start_vpn area < overlap_start
      then (case split_off area overlap_start of
              None \<Rightarrow> None
            | Some (l, overlap) \<Rightarrow> Some (overlap, insert_vma_unchecked l vmas, candidates @ [start_vpn l]))
      else Some (area, vmas, candidates))"

definition put_right :: "vma option \<Rightarrow> memory_set \<Rightarrow> nat list \<Rightarrow> memory_set \<times> nat list" where
  "put_right right ms candidates =
     (case right of
        None \<Rightarrow> (ms, candidates)
      | Some r \<Rightarrow> (ms\<lparr>ms_vmas := insert_vma_unchecked r (ms_vmas ms)\<rparr>, candidates @ [start_vpn r]))"

text \<open>One area of the range; the result is \<open>None\<close> on a panic.\<close>

definition munmap_area :: "nat \<Rightarrow> nat \<Rightarrow> vma \<Rightarrow> memory_set \<Rightarrow> release_batch \<Rightarrow> nat list \<Rightarrow> (memory_set \<times> release_batch \<times> nat list) option" where
  "munmap_area s e area ms batch candidates =
     (let overlap_start = max (start_vpn area) s; overlap_end = min (end_vpn area) e;
          (area, right) = cut_right area overlap_end
      in case cut_left area overlap_start (ms_vmas ms) candidates of
           None \<Rightarrow> None
         | Some (overlap, vmas, candidates) \<Rightarrow>
             (case unmap_range overlap_start overlap_end (overlap, ms\<lparr>ms_vmas := vmas\<rparr>, batch) of
                (_, ms, batch) \<Rightarrow> (case put_right right ms candidates of (ms, candidates) \<Rightarrow> Some (ms, batch, candidates))))"

text \<open>All of them; an area that is not there any more ends the call without a result.\<close>

fun munmap_areas :: "nat \<Rightarrow> nat \<Rightarrow> nat list \<Rightarrow> memory_set \<Rightarrow> release_batch \<Rightarrow> nat list
    \<Rightarrow> ((release_batch \<times> nat list) option \<times> memory_set) option" where
  "munmap_areas s e [] ms batch candidates = Some (Some (batch, candidates), ms)"
| "munmap_areas s e (k # ks) ms batch candidates =
     (case om_remove k (ms_vmas ms) of
        (None, _) \<Rightarrow> Some (None, ms)
      | (Some area, vmas) \<Rightarrow>
          (case munmap_area s e area (ms\<lparr>ms_vmas := vmas\<rparr>) batch candidates of
             None \<Rightarrow> None
           | Some (ms, batch, candidates) \<Rightarrow> munmap_areas s e ks ms batch candidates))"

definition merge_all :: "nat list \<Rightarrow> memory_set \<Rightarrow> memory_set" where
  "merge_all keys ms = ms\<lparr>ms_vmas := foldl (\<lambda>vmas k. merge_vma_around k vmas) (ms_vmas ms) keys\<rparr>"

definition munmap_deferred :: "nat \<Rightarrow> nat \<Rightarrow> memory_set \<Rightarrow> (release_batch option \<times> memory_set) option" where
  "munmap_deferred start_va end_va ms =
     (let s = va_floor start_va; e = va_ceil end_va
      in case covering (ms_vmas ms) s e of
           None \<Rightarrow> Some (None, ms)
         | Some overlap_starts \<Rightarrow>
             (case munmap_areas s e overlap_starts ms [] [] of
                None \<Rightarrow> None
              | Some (None, ms) \<Rightarrow> Some (None, ms)
              | Some (Some (batch, candidates), ms) \<Rightarrow> Some (Some batch, merge_all candidates ms)))"

section \<open>Changing permissions\<close>

text \<open>The pieces of areas that cover the range, when every present page of them belongs to the user.\<close>

function affected :: "(nat \<Rightarrow> (nat \<times> u16) option) \<Rightarrow> vma_table \<Rightarrow> nat \<Rightarrow> nat \<Rightarrow> (nat \<times> nat \<times> nat) list option" where
  "affected pt vmas cursor e =
     (if cursor < e then
        (case om_last_le cursor vmas of
           None \<Rightarrow> None
         | Some (area_key, area) \<Rightarrow>
             if \<not> contains_vpn area cursor \<or> \<not> is_user_accessible area then None
             else
               let overlap_end = (if end_vpn area < e then end_vpn area else e)
               in if list_all (\<lambda>vpn. case pt vpn of Some (_, fl) \<Rightarrow> fl_has fl PTE_FLAG_U | None \<Rightarrow> True) [cursor..<overlap_end]
                  then map_option ((#) (area_key, cursor, overlap_end)) (affected pt vmas overlap_end e)
                  else None)
      else Some [])"
  by pat_completeness auto
termination
  by (relation "measure (\<lambda>(pt, vmas, cursor, e). e - cursor)") (auto simp: contains_vpn_def)

declare affected.simps [simp del]

definition update_range :: "u16 \<Rightarrow> nat \<Rightarrow> nat \<Rightarrow> memory_set \<Rightarrow> memory_set" where
  "update_range fl s e ms = foldl (\<lambda>ms vpn. if ms_pt ms vpn \<noteq> None then ms_update_flags vpn fl ms else ms) ms [s..<e]"

text \<open>The part of the area before the overlap goes into the list, then the part after it, then the overlap itself.\<close>

definition mprotect_split :: "vma \<Rightarrow> nat \<Rightarrow> nat \<Rightarrow> (vma \<times> vma list) option" where
  "mprotect_split area overlap_start overlap_end = do {
     (area, to_insert) \<leftarrow> (if start_vpn area < overlap_start
        then (case split_off area overlap_start of None \<Rightarrow> None | Some (l, r) \<Rightarrow> Some (r, [l])) else Some (area, []));
     if overlap_end < end_vpn area
     then (case split_off area overlap_end of None \<Rightarrow> None | Some (l, r) \<Rightarrow> Some (l, to_insert @ [r]))
     else Some (area, to_insert)
   }"

definition mprotect_area :: "paging_arch \<Rightarrow> u8 \<Rightarrow> vma \<Rightarrow> nat \<Rightarrow> nat \<Rightarrow> memory_set \<Rightarrow> (nat \<times> memory_set) option" where
  "mprotect_area A perm area overlap_start overlap_end ms =
     (case mprotect_split area overlap_start overlap_end of
        None \<Rightarrow> None
      | Some (area, to_insert) \<Rightarrow>
          let ms = update_range (map_perm_to_pte_flags A perm) overlap_start overlap_end ms;
              area = area\<lparr>map_perm := perm\<rparr>
          in Some (start_vpn area,
                   ms\<lparr>ms_vmas := foldl (\<lambda>vmas v. insert_vma_unchecked v vmas) (ms_vmas ms) (to_insert @ [area])\<rparr>))"

fun mprotect_areas :: "paging_arch \<Rightarrow> u8 \<Rightarrow> (nat \<times> nat \<times> nat) list \<Rightarrow> memory_set \<Rightarrow> nat list \<Rightarrow> nat list option \<times> memory_set" where
  "mprotect_areas A perm [] ms changed = (Some changed, ms)"
| "mprotect_areas A perm ((k, s, e) # rest) ms changed =
     (case om_remove k (ms_vmas ms) of
        (None, _) \<Rightarrow> (None, ms)
      | (Some area, vmas) \<Rightarrow>
          (case mprotect_area A perm area s e (ms\<lparr>ms_vmas := vmas\<rparr>) of
             None \<Rightarrow> (None, ms\<lparr>ms_vmas := vmas\<rparr>)
           | Some (key, ms) \<Rightarrow> mprotect_areas A perm rest ms (changed @ [key])))"

definition mprotect_range :: "paging_arch \<Rightarrow> nat \<Rightarrow> nat \<Rightarrow> u8 \<Rightarrow> memory_set \<Rightarrow> bool \<times> memory_set" where
  "mprotect_range A start_va end_va perm ms =
     (case affected (ms_pt ms) (ms_vmas ms) (va_floor start_va) (va_ceil end_va) of
        None \<Rightarrow> (False, ms)
      | Some parts \<Rightarrow>
          (case mprotect_areas A perm parts ms [] of
             (None, ms) \<Rightarrow> (False, ms)
           | (Some changed, ms) \<Rightarrow> (True, merge_all changed ms)))"

end
