(* ===== verification/Memory_Set_Ops.thy ===== *)
theory Memory_Set_Ops
  imports Memory_Set
begin

text \<open>
  What unmapping and changing permissions do to every page: the pages of the range lose their area and entry, or get the new
  permission, and no other page changes. A range that is not covered by areas of the user is refused without a change.
\<close>

section \<open>Coverage\<close>

definition user_page :: "page_info option \<Rightarrow> bool" where
  "user_page x \<longleftrightarrow> (case x of Some i \<Rightarrow> perm_has (pi_perm i) MAP_U | None \<Rightarrow> False)"

lemma user_page_view: "vmas_ok m \<Longrightarrow> user_page (view m x) \<longleftrightarrow> (\<exists>v\<in>areas m. contains_vpn v x \<and> is_user_accessible v)"
proof -
  assume ok: "vmas_ok m"
  show ?thesis
  proof (cases "find_vma_containing m x")
    case None
    then show ?thesis using find_containing_iff [OF ok, of x] by (auto simp: user_page_def view_def)
  next
    case (Some a)
    then have "v = a" if "v \<in> areas m" "contains_vpn v x" for v using find_containing_iff [OF ok, of x v] that by simp
    moreover have "a \<in> areas m" "contains_vpn a x" using find_containing_iff [OF ok] Some by auto
    ultimately have "(\<exists>v\<in>areas m. contains_vpn v x \<and> is_user_accessible v) \<longleftrightarrow> is_user_accessible a" by blast
    then show ?thesis using Some by (simp add: user_page_def view_def page_view_def is_user_accessible_def)
  qed
qed

lemma last_le_containing:
  assumes "vmas_ok m"
  shows "(case om_last_le c m of Some (k, v) \<Rightarrow> if contains_vpn v c then f k v else a | None \<Rightarrow> a)
       = (case find_vma_containing m c of Some v \<Rightarrow> f (start_vpn v) v | None \<Rightarrow> a)"
proof -
  have o: "om_ok m" "\<forall>e\<in>set m. fst e = start_vpn (snd e)" using assms by (auto simp: vmas_ok_def)
  have k: "k = start_vpn v" if "om_last_le c m = Some (k, v)" for k v
  proof -
    have "(k, v) \<in> set m" using that om_last_le_spec(1) [OF o(1), of c "(k, v)"] by simp
    then show ?thesis using o(2) by force
  qed
  show ?thesis
  proof (cases "om_last_le c m")
    case (Some e)
    obtain k0 v where e: "e = (k0, v)" by fastforce
    have "k0 = start_vpn v" by (rule k) (simp add: Some e)
    then show ?thesis using Some e by (simp add: find_vma_containing_def)
  qed (simp add: find_vma_containing_def)
qed

lemma covering_step:
  assumes "vmas_ok m" and "c < e"
  shows "covering m c e = (case find_vma_containing m c of
      Some v \<Rightarrow> if is_user_accessible v then map_option ((#) (start_vpn v)) (covering m (min (end_vpn v) e) e) else None | None \<Rightarrow> None)"
  using last_le_containing [OF assms(1), where c = c and a = None
      and f = "\<lambda>k v. if is_user_accessible v then map_option ((#) k) (covering m (min (end_vpn v) e) e) else None"] assms(2)
  by (subst covering.simps) simp

lemma covering_iff:
  assumes "vmas_ok m"
  shows "covering m c e \<noteq> None \<longleftrightarrow> (\<forall>x. c \<le> x \<and> x < e \<longrightarrow> user_page (view m x))"
proof (induction "e - c" arbitrary: c rule: less_induct)
  case less
  show ?case
  proof (cases "c < e")
    case False
    then show ?thesis by (subst covering.simps) auto
  next
    case c: True
    show ?thesis
    proof (cases "find_vma_containing m c")
      case None
      then have "view m c = None" by (simp add: view_def)
      moreover have "covering m c e = None" using covering_step [OF assms c] None by simp
      ultimately show ?thesis using c by (auto simp: user_page_def)
    next
      case (Some v)
      then have v: "v \<in> areas m" "contains_vpn v c" using find_containing_iff [OF assms] by auto
      let ?c = "min (end_vpn v) e"
      have same: "view m x = Some (page_view v x)" if "c \<le> x" "x < ?c" for x
        using that v find_containing_iff [OF assms, of x v] by (simp add: view_def contains_vpn_def)
      have u: "user_page (view m x) \<longleftrightarrow> is_user_accessible v" if "c \<le> x" "x < ?c" for x
        using same [OF that] by (simp add: user_page_def page_view_def is_user_accessible_def)
      have "c < ?c" using v(2) c by (simp add: contains_vpn_def)
      then have "e - ?c < e - c" using c by linarith
      from less.hyps [OF this] have ih: "covering m ?c e \<noteq> None \<longleftrightarrow> (\<forall>x. ?c \<le> x \<and> x < e \<longrightarrow> user_page (view m x))" .
      have "covering m c e \<noteq> None \<longleftrightarrow> is_user_accessible v \<and> covering m ?c e \<noteq> None"
        using covering_step [OF assms c] Some by simp
      also have "\<dots> \<longleftrightarrow> (\<forall>x. c \<le> x \<and> x < e \<longrightarrow> user_page (view m x))" (is "?l \<longleftrightarrow> ?r")
      proof
        assume ?l
        then show ?r using u ih by (metis not_less)
      next
        assume r: ?r
        then have "is_user_accessible v" using u [of c] \<open>c < ?c\<close> c by auto
        moreover have "\<forall>x. ?c \<le> x \<and> x < e \<longrightarrow> user_page (view m x)" using r \<open>c < ?c\<close> by auto
        ultimately show ?l using ih by blast
      qed
      finally show ?thesis .
    qed
  qed
qed

section \<open>Pages taken out\<close>

definition released :: "page_info option \<Rightarrow> release_batch" where
  "released x = (case x of None \<Rightarrow> []
     | Some i \<Rightarrow> (case pi_cache i of Some c \<Rightarrow> [DirectCache c]
                 | None \<Rightarrow> (case pi_frame i of Some p \<Rightarrow> if pi_type i = Framed then [Private p] else [] | None \<Rightarrow> [])))"

definition written_back :: "page_info option \<Rightarrow> (nat \<times> u16) option \<Rightarrow> nat list" where
  "written_back x pte = (case (x, pte) of
      (Some i, Some (_, fl)) \<Rightarrow>
        (case (pi_cache i, pi_file i) of (Some c, Some (_, _, True)) \<Rightarrow> if fl_has fl PTE_FLAG_D then [c] else [] | _ \<Rightarrow> [])
    | _ \<Rightarrow> [])"

definition drop_pages :: "nat \<Rightarrow> nat \<Rightarrow> (nat \<Rightarrow> page_info option) \<Rightarrow> memory_set \<Rightarrow> memory_set" where
  "drop_pages s e V ms = ms\<lparr>ms_pt := (\<lambda>x. if s \<le> x \<and> x < e then None else ms_pt ms x),
     cache_dirty := cache_dirty ms @ concat (map (\<lambda>x. written_back (V x) (ms_pt ms x)) [s..<e])\<rparr>"

definition same_pages :: "nat set \<Rightarrow> vma \<Rightarrow> vma \<Rightarrow> bool" where
  "same_pages S v w \<longleftrightarrow> om_ok (data_frames w) \<and> om_ok (direct_cache_pages w) \<and> map_type w = map_type v \<and> vma_file w = vma_file v
     \<and> (\<forall>x\<in>S. map_of (data_frames w) x = map_of (data_frames v) x \<and> map_of (direct_cache_pages w) x = map_of (direct_cache_pages v) x)"

lemma unmap_one_spec:
  assumes "same_pages {vpn..} v w"
  shows "\<exists>w'. unmap_present_one_deferred (w, ms, batch) vpn
      = (w', ms\<lparr>ms_pt := (ms_pt ms)(vpn := None), cache_dirty := cache_dirty ms @ written_back (Some (page_view v vpn)) (ms_pt ms vpn)\<rparr>,
         batch @ released (Some (page_view v vpn))) \<and> same_pages {Suc vpn..} v w'"
proof -
  have o: "om_ok (data_frames w)" "om_ok (direct_cache_pages w)" "map_type w = map_type v" "vma_file w = vma_file v"
    and q: "map_of (data_frames w) vpn = map_of (data_frames v) vpn" "map_of (direct_cache_pages w) vpn = map_of (direct_cache_pages v) vpn"
    using assms by (auto simp: same_pages_def)
  obtain rd dcp where d: "om_remove vpn (direct_cache_pages w) = (rd, dcp)" by fastforce
  obtain rf df where f: "om_remove vpn (data_frames w) = (rf, df)" by fastforce
  have d': "rd = map_of (direct_cache_pages v) vpn" "om_ok dcp" "map_of dcp = (map_of (direct_cache_pages w))(vpn := None)"
    using om.fst_del [OF o(2), of vpn] om.ok_del [OF o(2), of vpn] om.lookup_del [OF o(2), of vpn] d q(2) by auto
  have f': "rf = map_of (data_frames v) vpn" "om_ok df" "map_of df = (map_of (data_frames w))(vpn := None)"
    using om.fst_del [OF o(1), of vpn] om.ok_del [OF o(1), of vpn] om.lookup_del [OF o(1), of vpn] f q(1) by auto
  have s1: "same_pages {Suc vpn..} v (w\<lparr>direct_cache_pages := dcp\<rparr>)" "same_pages {Suc vpn..} v (w\<lparr>data_frames := df\<rparr>)" "same_pages {Suc vpn..} v w"
    using assms d' f' by (auto simp: same_pages_def)
  show ?thesis
  proof (cases rd)
    case (Some page)
    then have "written_back (Some (page_view v vpn)) (ms_pt ms vpn)
        = (case ms_pt ms vpn of Some (_, fl) \<Rightarrow> if (case vma_file w of Some f \<Rightarrow> fv_shared f | None \<Rightarrow> False) \<and> fl_has fl PTE_FLAG_D then [page] else [] | None \<Rightarrow> [])"
      using d'(1) o(4) by (auto simp: written_back_def page_view_def split: option.splits bool.splits)
    then show ?thesis using Some d d'(1) s1(1)
      by (intro exI [of _ "w\<lparr>direct_cache_pages := dcp\<rparr>"])
         (auto simp: unmap_present_one_deferred_def unmap_present_one_deferred_inner_def ms_clear_def mark_if_dirty_def released_def page_view_def split: option.splits)
  next
    case None
    then have wb: "written_back (Some (page_view v vpn)) (ms_pt ms vpn) = []"
      using d'(1) by (auto simp: written_back_def page_view_def split: option.splits)
    show ?thesis
    proof (cases "map_type w = Framed \<and> rf \<noteq> None")
      case True
      then obtain page where p: "rf = Some page" by auto
      then have "released (Some (page_view v vpn)) = [Private page]" using None True d'(1) f'(1) o(3) by (auto simp: released_def page_view_def)
      then show ?thesis using None d f p True wb s1(2)
        by (intro exI [of _ "w\<lparr>data_frames := df\<rparr>"]) (simp add: unmap_present_one_deferred_def unmap_present_one_deferred_inner_def ms_clear_def)
    next
      case False
      then have "released (Some (page_view v vpn)) = []" using None d'(1) f'(1) o(3) by (auto simp: released_def page_view_def split: option.splits)
      then show ?thesis using None d f False wb s1(3)
        by (intro exI [of _ w]) (auto simp: unmap_present_one_deferred_def unmap_present_one_deferred_inner_def ms_clear_def)
    qed
  qed
qed

lemma unmap_range_spec:
  assumes "om_ok (data_frames v)" and "om_ok (direct_cache_pages v)" and "s \<le> e"
  shows "\<exists>w. unmap_range s e (v, ms, batch) = (w, drop_pages s e (\<lambda>x. Some (page_view v x)) ms, batch @ concat (map (\<lambda>x. released (Some (page_view v x))) [s..<e]))
    \<and> same_pages {e..} v w"
  using assms(3)
proof (induction e rule: dec_induct)
  case base
  have "(\<lambda>x. if s \<le> x \<and> x < s then None else ms_pt ms x) = ms_pt ms" by (intro ext) auto
  then have "drop_pages s s V ms = ms" for V by (simp add: drop_pages_def)
  then show ?case using assms by (simp add: unmap_range_def same_pages_def)
next
  case (step n)
  then obtain w where w: "unmap_range s n (v, ms, batch) = (w, drop_pages s n (\<lambda>x. Some (page_view v x)) ms, batch @ concat (map (\<lambda>x. released (Some (page_view v x))) [s..<n]))"
    "same_pages {n..} v w" by blast
  let ?ms = "drop_pages s n (\<lambda>x. Some (page_view v x)) ms"
  have pn: "ms_pt ?ms n = ms_pt ms n" by (simp add: drop_pages_def)
  have d: "?ms\<lparr>ms_pt := (ms_pt ?ms)(n := None), cache_dirty := cache_dirty ?ms @ written_back (Some (page_view v n)) (ms_pt ?ms n)\<rparr>
      = drop_pages s (Suc n) (\<lambda>x. Some (page_view v x)) ms"
    unfolding pn using step(1) by (auto simp: drop_pages_def fun_eq_iff less_Suc_eq)
  let ?b = "batch @ concat (map (\<lambda>x. released (Some (page_view v x))) [s..<n])"
  obtain w' where w': "unmap_present_one_deferred (w, ?ms, ?b) n = (w', drop_pages s (Suc n) (\<lambda>x. Some (page_view v x)) ms, ?b @ released (Some (page_view v n)))"
    "same_pages {Suc n..} v w'" using unmap_one_spec [OF w(2), of ?ms ?b] unfolding d by blast
  have "unmap_range s (Suc n) (v, ms, batch) = unmap_present_one_deferred (unmap_range s n (v, ms, batch)) n"
    using step(1) by (simp add: unmap_range_def)
  then show ?case using step(1) w(1) w' by simp
qed

section \<open>Unmapping one area\<close>

lemma cut_right_spec:
  assumes "vma_ok a" and "start_vpn a < oe" and "oe \<le> end_vpn a" and "cut_right a oe = (l, r)"
  shows "vma_ok l" and "start_vpn l = start_vpn a" and "end_vpn l = oe" and "contains_vpn l x \<Longrightarrow> page_view l x = page_view a x"
    and "oe = end_vpn a \<Longrightarrow> r = None"
    and "oe < end_vpn a \<Longrightarrow> \<exists>w. r = Some w \<and> vma_ok w \<and> start_vpn w = oe \<and> end_vpn w = end_vpn a \<and> (\<forall>x. contains_vpn w x \<longrightarrow> page_view w x = page_view a x)"
proof -
  consider (whole) "oe = end_vpn a" "l = a" "r = None" | (cut) l' w where "oe < end_vpn a" "split_off a oe = Some (l', w)" "l = l'" "r = Some w"
    using assms split_off_some [of a oe] by (cases "oe < end_vpn a") (auto simp: cut_right_def)
  then have "vma_ok l \<and> start_vpn l = start_vpn a \<and> end_vpn l = oe \<and> (contains_vpn l x \<longrightarrow> page_view l x = page_view a x) \<and> (oe = end_vpn a \<longrightarrow> r = None)
    \<and> (oe < end_vpn a \<longrightarrow> (\<exists>w. r = Some w \<and> vma_ok w \<and> start_vpn w = oe \<and> end_vpn w = end_vpn a \<and> (\<forall>x. contains_vpn w x \<longrightarrow> page_view w x = page_view a x)))"
  proof cases
    case whole
    then show ?thesis using assms(1) by simp
  next
    case cut
    note s = split_off_spec [OF assms(1) cut(2)]
    show ?thesis using s cut by auto
  qed
  then show "vma_ok l" "start_vpn l = start_vpn a" "end_vpn l = oe" "contains_vpn l x \<Longrightarrow> page_view l x = page_view a x" "oe = end_vpn a \<Longrightarrow> r = None"
    "oe < end_vpn a \<Longrightarrow> \<exists>w. r = Some w \<and> vma_ok w \<and> start_vpn w = oe \<and> end_vpn w = end_vpn a \<and> (\<forall>x. contains_vpn w x \<longrightarrow> page_view w x = page_view a x)"
    by blast+
qed

lemma cut_left_spec:
  assumes "aside a m" and "start_vpn a \<le> os" and "os < end_vpn a"
  shows "\<exists>ov m' cs'. cut_left a os m cs = Some (ov, m', cs') \<and> aside ov m' \<and> start_vpn ov = os \<and> end_vpn ov = end_vpn a
    \<and> (\<forall>x. contains_vpn ov x \<longrightarrow> page_view ov x = page_view a x) \<and> held ov m' = held a m \<and> areas m \<subseteq> areas m'
    \<and> (\<forall>w\<in>areas m'. w \<in> areas m \<or> end_vpn w \<le> os \<and> start_vpn a \<le> start_vpn w)"
proof (cases "start_vpn a = os")
  case True
  then show ?thesis using assms by (simp add: cut_left_def)
next
  case False
  then have l: "start_vpn a < os" using assms(2) by simp
  have a: "vmas_ok m" "vma_ok a" "\<forall>w\<in>areas m. apart a w" using assms(1) by (auto simp: aside_def)
  obtain lf ov where s: "split_off a os = Some (lf, ov)" using split_off_some [OF l assms(3)] by blast
  note sp = split_off_spec [OF a(2) s]
  have as: "aside lf m" using a sp(1,3,4) assms(3) by (auto simp: aside_def apart_def)
  note p = put_area [OF as]
  have ao: "aside ov (insert_vma_unchecked lf m)"
    using p(1,3) sp a(3) l by (auto simp: aside_def apart_def)
  have "held ov (insert_vma_unchecked lf m) x = held a m x" for x
    using sp(7,8) [of x] sp(3-6) p(2) l assms(3) by (auto simp: held_def contains_vpn_def)
  then show ?thesis using s sp l ao p(3) by (auto simp: cut_left_def fun_eq_iff)
qed

lemma drop_pages_cong:
  "(\<And>x. s \<le> x \<Longrightarrow> x < e \<Longrightarrow> V x = V' x) \<Longrightarrow> drop_pages s e V ms = drop_pages s e V' ms"
  unfolding drop_pages_def by (intro arg_cong2 [where f = "\<lambda>p d. ms\<lparr>ms_pt := p, cache_dirty := d\<rparr>"] refl arg_cong2 [where f = append] arg_cong [where f = concat] map_cong) auto

lemma drop_pages_vmas: "drop_pages s e V (ms\<lparr>ms_vmas := m\<rparr>) = (drop_pages s e V ms)\<lparr>ms_vmas := m\<rparr>"
  by (simp add: drop_pages_def cong: if_cong)

lemma aside_view: "aside v m \<Longrightarrow> contains_vpn v x \<Longrightarrow> view m x = None"
  using view_None [of m x] apart_contains by (auto simp: aside_def)

lemma munmap_area_spec:
  assumes a: "aside a (ms_vmas ms)" and o: "start_vpn a < e" "s < end_vpn a" "s < e"
  defines "os \<equiv> max (start_vpn a) s" and "oe \<equiv> min (end_vpn a) e"
  shows "\<exists>m' cs'. munmap_area s e a ms batch cs = Some ((drop_pages os oe (held a (ms_vmas ms)) ms)\<lparr>ms_vmas := m'\<rparr>,
        batch @ concat (map (\<lambda>x. released (held a (ms_vmas ms) x)) [os..<oe]), cs')
      \<and> vmas_ok m' \<and> view m' = (\<lambda>x. if os \<le> x \<and> x < oe then None else held a (ms_vmas ms) x) \<and> areas (ms_vmas ms) \<subseteq> areas m'"
proof -
  let ?m = "ms_vmas ms"
  have ok: "vmas_ok ?m" "vma_ok a" "\<forall>w\<in>areas ?m. apart a w" using a by (auto simp: aside_def)
  have r: "start_vpn a < oe" "oe \<le> end_vpn a" "start_vpn a \<le> os" "os < oe" using o ok(2) by (auto simp: os_def oe_def vma_ok_def)
  obtain l rt where c: "cut_right a oe = (l, rt)" by fastforce
  note cr = cut_right_spec [OF ok(2) r(1,2) c]
  have al: "aside l ?m" using ok cr(1-3) r(2) by (auto simp: aside_def apart_def)
  obtain ov m1 cs1 where cl: "cut_left l os ?m cs = Some (ov, m1, cs1)" "aside ov m1" "start_vpn ov = os" "end_vpn ov = oe"
    "\<forall>x. contains_vpn ov x \<longrightarrow> page_view ov x = page_view l x" "held ov m1 = held l ?m" "areas ?m \<subseteq> areas m1"
    "\<forall>w\<in>areas m1. w \<in> areas ?m \<or> end_vpn w \<le> os \<and> start_vpn l \<le> start_vpn w"
    using cut_left_spec [OF al, of os cs] cr(2,3) r by auto
  have vo: "om_ok (data_frames ov)" "om_ok (direct_cache_pages ov)" using cl(2) by (auto simp: aside_def vma_ok_def)
  have pv: "Some (page_view ov x) = held a ?m x" if "os \<le> x" "x < oe" for x
    using that cl(3-5) cr(2-4) r by (auto simp: held_def contains_vpn_def)
  obtain w where u: "unmap_range os oe (ov, ms\<lparr>ms_vmas := m1\<rparr>, batch)
      = (w, drop_pages os oe (\<lambda>x. Some (page_view ov x)) (ms\<lparr>ms_vmas := m1\<rparr>), batch @ concat (map (\<lambda>x. released (Some (page_view ov x))) [os..<oe]))"
    using unmap_range_spec [OF vo, of os oe] r(4) by (meson less_imp_le)
  have d: "drop_pages os oe (\<lambda>x. Some (page_view ov x)) (ms\<lparr>ms_vmas := m1\<rparr>) = (drop_pages os oe (held a ?m) ms)\<lparr>ms_vmas := m1\<rparr>"
    unfolding drop_pages_vmas using drop_pages_cong [of os oe "\<lambda>x. Some (page_view ov x)" "held a ?m" ms] pv by simp
  have b: "map (\<lambda>x. released (Some (page_view ov x))) [os..<oe] = map (\<lambda>x. released (held a ?m x)) [os..<oe]"
    using pv by (intro map_cong) auto
  have v1: "view m1 x = (if os \<le> x \<and> x < oe then None else held l ?m x)" for x
    using aside_view [OF cl(2), of x] fun_cong [OF cl(6), of x] cl(3,4) by (auto simp: held_def contains_vpn_def)
  show ?thesis
  proof (cases rt)
    case None
    then have "oe = end_vpn a" using cr(6) r(2) by fastforce
    then have "held l ?m x = held a ?m x" for x using cr(2-4) by (auto simp: held_def contains_vpn_def)
    then have "view m1 = (\<lambda>x. if os \<le> x \<and> x < oe then None else held a ?m x)" using v1 by auto
    then show ?thesis using c cl(1,2,7) u d b None by (intro exI [of _ m1]) (simp add: munmap_area_def os_def [symmetric] oe_def [symmetric] put_right_def aside_def)
  next
    case (Some rg)
    then have e: "oe < end_vpn a" using cr(5) r(2) by fastforce
    have rg: "vma_ok rg" "start_vpn rg = oe" "end_vpn rg = end_vpn a" "\<forall>x. contains_vpn rg x \<longrightarrow> page_view rg x = page_view a x"
      using cr(6) [OF e] Some by auto
    have ar: "aside rg m1" using cl(2,8) rg ok(3) r(4) e cr(2) r(3) by (fastforce simp: aside_def apart_def)
    note p = put_area [OF ar]
    have "held rg m1 x = (if os \<le> x \<and> x < oe then None else held a ?m x)" for x
      using v1 [of x] rg(2-4) cr(2-4) e r by (auto simp: held_def contains_vpn_def)
    then have "view (insert_vma_unchecked rg m1) = (\<lambda>x. if os \<le> x \<and> x < oe then None else held a ?m x)" using p(2) by auto
    then show ?thesis using c cl(1,7) u d b Some p
      by (intro exI [of _ "insert_vma_unchecked rg m1"]) (auto simp: munmap_area_def os_def [symmetric] oe_def [symmetric] put_right_def)
  qed
qed

section \<open>Unmapping the range\<close>

lemma drop_pages_append:
  assumes "a \<le> b" and "b \<le> c"
  shows "drop_pages b c V (drop_pages a b V ms) = drop_pages a c V ms"
proof -
  have u: "[a..<c] = [a..<b] @ [b..<c]" using upt_add_eq_append [OF assms(1), of "c - b"] assms by simp
  have m: "map (\<lambda>x. written_back (V x) (ms_pt (drop_pages a b V ms) x)) [b..<c] = map (\<lambda>x. written_back (V x) (ms_pt ms x)) [b..<c]"
    by (intro map_cong) (auto simp: drop_pages_def)
  have p: "(\<lambda>x. if b \<le> x \<and> x < c then None else ms_pt (drop_pages a b V ms) x) = (\<lambda>x. if a \<le> x \<and> x < c then None else ms_pt ms x)"
    using assms by (intro ext) (auto simp: drop_pages_def)
  have "drop_pages b c V (drop_pages a b V ms) = (drop_pages a b V ms)\<lparr>ms_pt := (\<lambda>x. if a \<le> x \<and> x < c then None else ms_pt ms x),
      cache_dirty := cache_dirty (drop_pages a b V ms) @ concat (map (\<lambda>x. written_back (V x) (ms_pt ms x)) [b..<c])\<rparr>"
    unfolding drop_pages_def [of b c] m p by (rule refl)
  then show ?thesis by (simp add: drop_pages_def u)
qed

lemma munmap_areas_spec:
  assumes ok: "vmas_ok m0" and V: "V = view m0"
  shows "covering m0 c e = Some ks \<Longrightarrow> s \<le> c \<Longrightarrow> c \<le> e \<Longrightarrow> c = s \<or> (\<forall>v\<in>areas m0. contains_vpn v c \<longrightarrow> start_vpn v = c) \<Longrightarrow>
    vmas_ok (ms_vmas ms) \<Longrightarrow> \<forall>v\<in>areas m0. c < end_vpn v \<longrightarrow> v \<in> areas (ms_vmas ms) \<Longrightarrow> \<forall>x\<ge>c. view (ms_vmas ms) x = V x \<Longrightarrow>
    \<exists>m' cs'. munmap_areas s e ks ms batch cs = Some (Some (batch @ concat (map (\<lambda>x. released (V x)) [c..<e]), cs'), (drop_pages c e V ms)\<lparr>ms_vmas := m'\<rparr>)
      \<and> vmas_ok m' \<and> view m' = (\<lambda>x. if c \<le> x \<and> x < e then None else view (ms_vmas ms) x)"
proof (induction ks arbitrary: c ms batch cs)
  case Nil
  have "c = e"
  proof (rule ccontr)
    assume "c \<noteq> e"
    then have "c < e" using Nil.prems(3) by simp
    from covering_step [OF ok this] Nil.prems(1) show False by (auto simp: map_option_case split: option.splits if_splits)
  qed
  moreover have "(\<lambda>x. if e \<le> x \<and> x < e then None else view (ms_vmas ms) x) = view (ms_vmas ms)" by (intro ext) auto
  moreover have "(\<lambda>x. if e \<le> x \<and> x < e then None else ms_pt ms x) = ms_pt ms" by (intro ext) auto
  ultimately show ?case using Nil.prems(5) by (intro exI [of _ "ms_vmas ms"]) (simp add: drop_pages_def)
next
  case (Cons k ks)
  have c: "c < e" using Cons.prems(1) by (cases "c < e") (auto simp: covering.simps [of m0 c e])
  obtain v where f: "find_vma_containing m0 c = Some v" "k = start_vpn v" "covering m0 (min (end_vpn v) e) e = Some ks"
    using Cons.prems(1) covering_step [OF ok c] by (auto split: option.splits if_splits)
  have v: "v \<in> areas m0" "contains_vpn v c" using f(1) find_containing_iff [OF ok] by auto
  have os: "max (start_vpn v) s = c" using Cons.prems(2,4) v by (auto simp: contains_vpn_def)
  define c' where "c' = min (end_vpn v) e"
  have cc: "c < c'" "c' \<le> e" using v(2) c by (auto simp: c'_def contains_vpn_def)
  have vm: "v \<in> areas (ms_vmas ms)" using Cons.prems(6) v by (simp add: contains_vpn_def)
  obtain r m1 where rm: "om_remove k (ms_vmas ms) = (r, m1)" by fastforce
  then have "r = Some v" using remove_ok(3) [OF Cons.prems(5) rm] vm f(2) by blast
  note t = take_area [OF Cons.prems(5) rm [unfolded this]]
  have h: "held v m1 = view (ms_vmas ms)" by (rule t(4))
  let ?ms1 = "ms\<lparr>ms_vmas := m1\<rparr>"
  have vm1: "ms_vmas ?ms1 = m1" by simp
  have "aside v (ms_vmas ?ms1)" "start_vpn v < e" "s < end_vpn v" "s < e" using t(3) v(2) c Cons.prems(2) by (auto simp: contains_vpn_def)
  from munmap_area_spec [OF this, of batch cs] obtain m2 cs2 where
    u: "munmap_area s e v ?ms1 batch cs = Some ((drop_pages c c' (held v m1) ?ms1)\<lparr>ms_vmas := m2\<rparr>, batch @ concat (map (\<lambda>x. released (held v m1 x)) [c..<c']), cs2)"
      "vmas_ok m2" "view m2 = (\<lambda>x. if c \<le> x \<and> x < c' then None else held v m1 x)" "areas m1 \<subseteq> areas m2"
    unfolding os c'_def [symmetric] vm1 by blast
  let ?ms2 = "(drop_pages c c' (held v m1) ?ms1)\<lparr>ms_vmas := m2\<rparr>" and ?b2 = "batch @ concat (map (\<lambda>x. released (held v m1 x)) [c..<c'])"
  have hv: "held v m1 x = V x" if "c \<le> x" for x using h Cons.prems(7) that by simp
  have ms2: "?ms2 = (drop_pages c c' V ms)\<lparr>ms_vmas := m2\<rparr>"
    using drop_pages_cong [of c c' "held v m1" V ms] hv by (simp add: drop_pages_vmas)
  have b2: "?b2 = batch @ concat (map (\<lambda>x. released (V x)) [c..<c'])" using hv by (auto intro!: arg_cong [where f = concat] map_cong)
  have run: "munmap_areas s e (k # ks) ms batch cs = munmap_areas s e ks ((drop_pages c c' V ms)\<lparr>ms_vmas := m2\<rparr>) (batch @ concat (map (\<lambda>x. released (V x)) [c..<c'])) cs2"
    using rm \<open>r = Some v\<close> u(1) unfolding ms2 b2 by simp
  have v2: "view m2 x = (if c \<le> x \<and> x < c' then None else view (ms_vmas ms) x)" for x using u(3) h by simp
  show ?case
  proof (cases "c' < e")
    case False
    then have "c' = e" using cc(2) by simp
    moreover from this have "ks = []" using f(3) by (simp add: c'_def [symmetric] covering.simps)
    ultimately show ?thesis using run u(2) v2 by (intro exI [of _ m2]) (simp add: fun_eq_iff)
  next
    case True
    have st: "\<forall>w\<in>areas m0. contains_vpn w c' \<longrightarrow> start_vpn w = c'"
      using True vmas_okD(2) [OF ok v(1)] v(2) by (fastforce simp: c'_def apart_def contains_vpn_def)
    have ar: "\<forall>w\<in>areas m0. c' < end_vpn w \<longrightarrow> w \<in> areas m2"
      using True Cons.prems(6) cc(1) t(5) u(4) by (auto simp: c'_def)
    have vw: "\<forall>x\<ge>c'. view m2 x = V x" using v2 Cons.prems(7) cc(1) by auto
    let ?ms2 = "(drop_pages c c' V ms)\<lparr>ms_vmas := m2\<rparr>" and ?b2 = "batch @ concat (map (\<lambda>x. released (V x)) [c..<c'])"
    obtain m' cs' where ih: "munmap_areas s e ks ?ms2 ?b2 cs2 = Some (Some (?b2 @ concat (map (\<lambda>x. released (V x)) [c'..<e]), cs'), (drop_pages c' e V ?ms2)\<lparr>ms_vmas := m'\<rparr>)"
      "vmas_ok m'" "view m' = (\<lambda>x. if c' \<le> x \<and> x < e then None else view m2 x)"
    proof -
      have m2: "ms_vmas ?ms2 = m2" by simp
      have "s \<le> c'" using Cons.prems(2) cc by simp
      from Cons.IH [OF f(3) [folded c'_def] this cc(2) disjI2 [OF st], where ms = ?ms2 and batch = ?b2 and cs = cs2, unfolded m2, OF u(2) ar vw]
      show ?thesis using that by blast
    qed
    have up: "[c..<e] = [c..<c'] @ [c'..<e]" using upt_add_eq_append [of c c' "e - c'"] cc by simp
    have "(drop_pages c' e V ?ms2)\<lparr>ms_vmas := m'\<rparr> = (drop_pages c e V ms)\<lparr>ms_vmas := m'\<rparr>"
      using drop_pages_append [of c c' e V ms] cc by (simp add: drop_pages_vmas)
    moreover have "view m' = (\<lambda>x. if c \<le> x \<and> x < e then None else view (ms_vmas ms) x)" using ih(3) v2 cc by (auto simp: fun_eq_iff)
    ultimately show ?thesis using run ih(1,2) up by (intro exI [of _ m'] exI [of _ cs']) simp
  qed
qed

lemma merge_all_ok:
  assumes "vmas_ok (ms_vmas ms)"
  shows "\<exists>m'. merge_all ks ms = ms\<lparr>ms_vmas := m'\<rparr> \<and> vmas_ok m' \<and> view m' = view (ms_vmas ms)"
proof -
  have "vmas_ok (foldl (\<lambda>vmas k. merge_vma_around k vmas) m ks) \<and> view (foldl (\<lambda>vmas k. merge_vma_around k vmas) m ks) = view m" if "vmas_ok m" for m
    using that by (induction ks arbitrary: m) (simp_all add: merge_around_ok)
  then show ?thesis using assms unfolding merge_all_def by blast
qed

lemma empty_range: "\<not> s < e \<Longrightarrow> (\<lambda>x. if s \<le> x \<and> x < e then None else f x) = f" for s e :: nat
  by (intro ext) auto

lemma munmap_spec:
  fixes start_va end_va :: nat
  assumes ok: "vmas_ok (ms_vmas ms)"
  defines "s \<equiv> va_floor start_va" and "e \<equiv> va_ceil end_va" and "V \<equiv> view (ms_vmas ms)"
  shows "(\<exists>x. s \<le> x \<and> x < e \<and> \<not> user_page (V x)) \<Longrightarrow> munmap_deferred start_va end_va ms = Some (None, ms)"
    and "\<forall>x. s \<le> x \<and> x < e \<longrightarrow> user_page (V x) \<Longrightarrow>
      \<exists>m'. munmap_deferred start_va end_va ms = Some (Some (concat (map (\<lambda>x. released (V x)) [s..<e])), (drop_pages s e V ms)\<lparr>ms_vmas := m'\<rparr>)
        \<and> vmas_ok m' \<and> view m' = (\<lambda>x. if s \<le> x \<and> x < e then None else V x)"
proof -
  assume "\<exists>x. s \<le> x \<and> x < e \<and> \<not> user_page (V x)"
  then have "covering (ms_vmas ms) s e = None" using covering_iff [OF ok, of s e] V_def by auto
  then show "munmap_deferred start_va end_va ms = Some (None, ms)" by (simp add: munmap_deferred_def Let_def s_def e_def)
next
  assume "\<forall>x. s \<le> x \<and> x < e \<longrightarrow> user_page (V x)"
  then obtain ks where ks: "covering (ms_vmas ms) s e = Some ks" using covering_iff [OF ok, of s e] V_def by auto
  have "\<exists>m' cs'. munmap_areas s e ks ms [] [] = Some (Some (concat (map (\<lambda>x. released (V x)) [s..<e]), cs'), (drop_pages s e V ms)\<lparr>ms_vmas := m'\<rparr>)
      \<and> vmas_ok m' \<and> view m' = (\<lambda>x. if s \<le> x \<and> x < e then None else V x)"
  proof (cases "s \<le> e")
    case True
    then show ?thesis using munmap_areas_spec [OF ok refl ks, of s ms "[]" "[]"] ok unfolding V_def by simp
  next
    case False
    then have "ks = []" using ks by (simp add: covering.simps)
    then show ?thesis using False ok unfolding V_def by (intro exI [of _ "ms_vmas ms"]) (simp add: drop_pages_def empty_range)
  qed
  then obtain m1 cs where m1: "munmap_areas s e ks ms [] [] = Some (Some (concat (map (\<lambda>x. released (V x)) [s..<e]), cs), (drop_pages s e V ms)\<lparr>ms_vmas := m1\<rparr>)"
      "vmas_ok m1" "view m1 = (\<lambda>x. if s \<le> x \<and> x < e then None else V x)" by blast
  obtain m2 where "merge_all cs ((drop_pages s e V ms)\<lparr>ms_vmas := m1\<rparr>) = (drop_pages s e V ms)\<lparr>ms_vmas := m2\<rparr>" "vmas_ok m2" "view m2 = view m1"
    using merge_all_ok [of "(drop_pages s e V ms)\<lparr>ms_vmas := m1\<rparr>" cs] m1(2) by auto
  then show "\<exists>m'. munmap_deferred start_va end_va ms = Some (Some (concat (map (\<lambda>x. released (V x)) [s..<e])), (drop_pages s e V ms)\<lparr>ms_vmas := m'\<rparr>)
        \<and> vmas_ok m' \<and> view m' = (\<lambda>x. if s \<le> x \<and> x < e then None else V x)"
    using ks m1 by (intro exI [of _ m2]) (simp add: munmap_deferred_def Let_def s_def e_def)
qed

section \<open>Changing permissions\<close>

definition user_entry :: "(nat \<times> u16) option \<Rightarrow> bool" where
  "user_entry pte \<longleftrightarrow> (case pte of Some (_, fl) \<Rightarrow> fl_has fl PTE_FLAG_U | None \<Rightarrow> True)"

lemma affected_step:
  assumes "vmas_ok m" and "c < e"
  shows "affected pt m c e = (case find_vma_containing m c of
      None \<Rightarrow> None
    | Some v \<Rightarrow> let oe = min (end_vpn v) e in
        if is_user_accessible v \<and> (\<forall>x. c \<le> x \<and> x < oe \<longrightarrow> user_entry (pt x))
        then map_option ((#) (start_vpn v, c, oe)) (affected pt m oe e) else None)"
proof -
  have m: "(if a < e then a else e) = min a e" for a :: nat by auto
  have l: "list_all (\<lambda>vpn. case pt vpn of Some (_, fl) \<Rightarrow> fl_has fl PTE_FLAG_U | None \<Rightarrow> True) [c..<oe] \<longleftrightarrow> (\<forall>x. c \<le> x \<and> x < oe \<longrightarrow> user_entry (pt x))" for oe
    by (auto simp: list_all_iff user_entry_def)
  define F where "F k v = (let oe = min (end_vpn v) e in if is_user_accessible v \<and> (\<forall>x. c \<le> x \<and> x < oe \<longrightarrow> user_entry (pt x))
        then map_option ((#) (k, c, oe)) (affected pt m oe e) else None)" for k v
  have "affected pt m c e = (case om_last_le c m of Some (k, v) \<Rightarrow> if contains_vpn v c then F k v else None | None \<Rightarrow> None)"
    using assms(2) by (subst affected.simps) (auto simp: l m Let_def F_def split: option.split)
  also have "\<dots> = (case find_vma_containing m c of Some v \<Rightarrow> F (start_vpn v) v | None \<Rightarrow> None)" by (rule last_le_containing [OF assms(1)])
  finally show ?thesis unfolding F_def .
qed

lemma affected_iff:
  assumes "vmas_ok m"
  shows "affected pt m c e \<noteq> None \<longleftrightarrow> (\<forall>x. c \<le> x \<and> x < e \<longrightarrow> user_page (view m x) \<and> user_entry (pt x))"
proof (induction "e - c" arbitrary: c rule: less_induct)
  case less
  show ?case
  proof (cases "c < e")
    case False
    then show ?thesis by (subst affected.simps) auto
  next
    case c: True
    show ?thesis
    proof (cases "find_vma_containing m c")
      case None
      then have "view m c = None" by (simp add: view_def)
      moreover have "affected pt m c e = None" using affected_step [OF assms c] None by simp
      ultimately show ?thesis using c by (auto simp: user_page_def)
    next
      case (Some v)
      then have v: "v \<in> areas m" "contains_vpn v c" using find_containing_iff [OF assms] by auto
      let ?c = "min (end_vpn v) e"
      have u: "user_page (view m x) \<longleftrightarrow> is_user_accessible v" if "c \<le> x" "x < ?c" for x
        using that v find_containing_iff [OF assms, of x v] by (simp add: view_def contains_vpn_def user_page_def page_view_def is_user_accessible_def)
      have cl: "c < ?c" using v(2) c by (simp add: contains_vpn_def)
      then have "e - ?c < e - c" using c by linarith
      from less.hyps [OF this] have ih: "affected pt m ?c e \<noteq> None \<longleftrightarrow> (\<forall>x. ?c \<le> x \<and> x < e \<longrightarrow> user_page (view m x) \<and> user_entry (pt x))" .
      have "affected pt m c e \<noteq> None \<longleftrightarrow> is_user_accessible v \<and> (\<forall>x. c \<le> x \<and> x < ?c \<longrightarrow> user_entry (pt x)) \<and> affected pt m ?c e \<noteq> None"
        using affected_step [OF assms c] Some by (simp add: Let_def)
      also have "\<dots> \<longleftrightarrow> (\<forall>x. c \<le> x \<and> x < e \<longrightarrow> user_page (view m x) \<and> user_entry (pt x))" (is "?l \<longleftrightarrow> ?r")
      proof
        assume ?l
        then show ?r using u ih by (metis not_less)
      next
        assume r: ?r
        then have "is_user_accessible v" using u [of c] cl c by auto
        moreover have "\<forall>x. c \<le> x \<and> x < ?c \<longrightarrow> user_entry (pt x)" using r by auto
        moreover have "\<forall>x. ?c \<le> x \<and> x < e \<longrightarrow> user_page (view m x) \<and> user_entry (pt x)" using r cl by auto
        ultimately show ?l using ih by blast
      qed
      finally show ?thesis .
    qed
  qed
qed

definition protect_pages :: "u16 \<Rightarrow> nat \<Rightarrow> nat \<Rightarrow> memory_set \<Rightarrow> memory_set" where
  "protect_pages fl s e ms = ms\<lparr>ms_pt := (\<lambda>x. if s \<le> x \<and> x < e then map_option (\<lambda>(p, _). (p, or fl PTE_FLAG_V)) (ms_pt ms x) else ms_pt ms x)\<rparr>"

lemma update_range_spec:
  assumes "s \<le> e"
  shows "update_range fl s e ms = protect_pages fl s e ms"
  using assms
proof (induction e rule: dec_induct)
  case base
  have "(\<lambda>x. if s \<le> x \<and> x < s then map_option (\<lambda>(p, _). (p, or fl PTE_FLAG_V)) (ms_pt ms x) else ms_pt ms x) = ms_pt ms" by (intro ext) auto
  then show ?case by (simp add: update_range_def protect_pages_def)
next
  case (step n)
  let ?ms = "protect_pages fl s n ms"
  have "update_range fl s (Suc n) ms = (if ms_pt ?ms n \<noteq> None then ms_update_flags n fl ?ms else ?ms)"
    using step(1,3) by (simp add: update_range_def)
  also have "\<dots> = protect_pages fl s (Suc n) ms"
    using step(1) by (intro memory_set.equality ext) (auto simp: protect_pages_def ms_update_flags_def less_Suc_eq split: option.split)
  finally show ?case .
qed

lemma protect_pages_append:
  assumes "a \<le> b" and "b \<le> c"
  shows "protect_pages fl b c (protect_pages fl a b ms) = protect_pages fl a c ms"
  using assms by (intro memory_set.equality ext) (auto simp: protect_pages_def)

lemma protect_pages_vmas: "protect_pages fl s e (ms\<lparr>ms_vmas := m\<rparr>) = (protect_pages fl s e ms)\<lparr>ms_vmas := m\<rparr>"
  by (simp add: protect_pages_def cong: if_cong)

lemma mprotect_split_eq:
  assumes "cut_left a os m cs = Some (ov, m1, cs1)" and "cut_right ov oe = (mid, r)" and "os < oe" and "start_vpn ov = os"
  shows "\<exists>ins. mprotect_split a os oe = Some (mid, ins)
    \<and> foldl (\<lambda>vmas v. insert_vma_unchecked v vmas) m ins = (case r of None \<Rightarrow> m1 | Some w \<Rightarrow> insert_vma_unchecked w m1)"
proof -
  have s: "split_off ov oe \<noteq> None" if "oe < end_vpn ov" using that assms(3,4) split_off_some [of ov oe] by auto
  obtain ins where l: "(if start_vpn a < os then (case split_off a os of None \<Rightarrow> None | Some (l, r) \<Rightarrow> Some (r, [l])) else Some (a, [])) = Some (ov, ins)"
    "foldl (\<lambda>vmas v. insert_vma_unchecked v vmas) m ins = m1"
    using assms(1) by (auto simp: cut_left_def split: if_splits option.splits)
  show ?thesis
  proof (cases "oe < end_vpn ov")
    case True
    then obtain w where w: "split_off ov oe = Some (mid, w)" "r = Some w" using assms(2) s by (auto simp: cut_right_def)
    then show ?thesis using l True by (intro exI [of _ "ins @ [w]"]) (simp add: mprotect_split_def)
  next
    case False
    then show ?thesis using l assms(2) by (intro exI [of _ ins]) (simp add: mprotect_split_def cut_right_def)
  qed
qed

lemma mprotect_area_spec:
  assumes a: "aside a (ms_vmas ms)" and o: "start_vpn a \<le> os" "os < oe" "oe \<le> end_vpn a"
  shows "\<exists>m' k. mprotect_area A perm a os oe ms = Some (k, (protect_pages (map_perm_to_pte_flags A perm) os oe ms)\<lparr>ms_vmas := m'\<rparr>)
      \<and> vmas_ok m' \<and> view m' = (\<lambda>x. if os \<le> x \<and> x < oe then Some ((page_view a x)\<lparr>pi_perm := perm\<rparr>) else held a (ms_vmas ms) x)
      \<and> areas (ms_vmas ms) \<subseteq> areas m'"
proof -
  let ?m = "ms_vmas ms"
  have ok: "vmas_ok ?m" "vma_ok a" "\<forall>w\<in>areas ?m. apart a w" using a by (auto simp: aside_def)
  obtain ov m1 cs1 where cl: "cut_left a os ?m [] = Some (ov, m1, cs1)" "aside ov m1" "start_vpn ov = os" "end_vpn ov = end_vpn a"
    "\<forall>x. contains_vpn ov x \<longrightarrow> page_view ov x = page_view a x" "held ov m1 = held a ?m" "areas ?m \<subseteq> areas m1"
    "\<forall>w\<in>areas m1. w \<in> areas ?m \<or> end_vpn w \<le> os \<and> start_vpn a \<le> start_vpn w"
    using cut_left_spec [OF a, of os "[]"] o by auto
  have vo: "vma_ok ov" "vmas_ok m1" "\<forall>w\<in>areas m1. apart ov w" using cl(2) by (auto simp: aside_def)
  obtain mid r where c: "cut_right ov oe = (mid, r)" by fastforce
  have "start_vpn ov < oe" "oe \<le> end_vpn ov" using cl(3,4) o by auto
  note cr = cut_right_spec [OF vo(1) this c]
  define m2 where "m2 = (case r of None \<Rightarrow> m1 | Some w \<Rightarrow> insert_vma_unchecked w m1)"
  let ?mid = "mid\<lparr>map_perm := perm\<rparr>"
  have m2: "vmas_ok m2 \<and> areas m1 \<subseteq> areas m2 \<and> (\<forall>w\<in>areas m2. apart mid w) \<and> (\<forall>x. \<not> (os \<le> x \<and> x < oe) \<longrightarrow> view m2 x = held a ?m x)"
  proof (cases r)
    case None
    then have e: "oe = end_vpn ov" using cr(6) cl(4) o(3) by fastforce
    have "view m1 x = held a ?m x" if "\<not> (os \<le> x \<and> x < oe)" for x
      using fun_cong [OF cl(6), of x] that cl(3) e by (auto simp: held_def contains_vpn_def)
    then show ?thesis using None vo cr(2,3) e by (auto simp: m2_def apart_def)
  next
    case (Some rg)
    then have e: "oe < end_vpn ov" using cr(5) cl(4) o(3) by fastforce
    have rg: "vma_ok rg" "start_vpn rg = oe" "end_vpn rg = end_vpn ov" "\<forall>x. contains_vpn rg x \<longrightarrow> page_view rg x = page_view ov x"
      using cr(6) [OF e] Some by auto
    have ar: "aside rg m1" using vo rg o(2) cl(3) e by (fastforce simp: aside_def apart_def)
    note p = put_area [OF ar]
    have "held rg m1 x = held ov m1 x" if "\<not> (os \<le> x \<and> x < oe)" for x
      using that cl(3) rg(2-4) e o(2) by (cases "os \<le> x") (simp_all add: held_def contains_vpn_def)
    then have "held rg m1 x = held a ?m x" if "\<not> (os \<le> x \<and> x < oe)" for x
      using that cl(6) by simp
    then show ?thesis using Some p vo(3) cr(2,3) rg(2) e cl(3) by (auto simp: m2_def apart_def)
  qed
  have am: "aside ?mid m2" using m2 cr(1) by (auto simp: aside_def apart_def vma_ok_def)
  note p = put_area [OF am]
  have "held ?mid m2 x = (if os \<le> x \<and> x < oe then Some ((page_view a x)\<lparr>pi_perm := perm\<rparr>) else held a ?m x)" for x
  proof (cases "os \<le> x \<and> x < oe")
    case True
    then have "page_view mid x = page_view a x" using cr(2-4) cl(3-5) o by (simp add: contains_vpn_def)
    then have "page_view ?mid x = (page_view a x)\<lparr>pi_perm := perm\<rparr>" by (simp add: page_view_def)
    then show ?thesis using True cr(2,3) cl(3) by (simp add: held_def contains_vpn_def)
  next
    case False
    then have "\<not> contains_vpn ?mid x" using cr(2,3) cl(3) by (simp add: contains_vpn_def)
    then have "held ?mid m2 x = view m2 x" by (simp add: held_def)
    also have "\<dots> = held a ?m x" using m2 False by blast
    finally show ?thesis unfolding if_not_P [OF False] .
  qed
  then have v: "view (insert_vma_unchecked ?mid m2) = (\<lambda>x. if os \<le> x \<and> x < oe then Some ((page_view a x)\<lparr>pi_perm := perm\<rparr>) else held a ?m x)"
    using p(2) by auto
  obtain ins where ins: "mprotect_split a os oe = Some (mid, ins)" "foldl (\<lambda>vmas v. insert_vma_unchecked v vmas) ?m ins = m2"
    using mprotect_split_eq [OF cl(1) c o(2) cl(3)] m2_def by blast
  have "ms_vmas (protect_pages fl os oe ms) = ?m" for fl by (simp add: protect_pages_def)
  then have "mprotect_area A perm a os oe ms
      = Some (start_vpn ?mid, (protect_pages (map_perm_to_pte_flags A perm) os oe ms)\<lparr>ms_vmas := insert_vma_unchecked ?mid m2\<rparr>)"
    using ins o(2) by (simp add: mprotect_area_def Let_def update_range_spec)
  then show ?thesis using p v cl(7) m2 by blast
qed

lemma mprotect_areas_spec:
  assumes ok: "vmas_ok m0" and V: "V = view m0" and fl: "fl = map_perm_to_pte_flags A perm"
  shows "affected pt m0 c e = Some parts \<Longrightarrow> c \<le> e \<Longrightarrow> vmas_ok (ms_vmas ms) \<Longrightarrow>
    \<forall>v\<in>areas m0. c < end_vpn v \<longrightarrow> v \<in> areas (ms_vmas ms) \<Longrightarrow> \<forall>x\<ge>c. view (ms_vmas ms) x = V x \<Longrightarrow>
    \<exists>m' cs. mprotect_areas A perm parts ms changed = (Some cs, (protect_pages fl c e ms)\<lparr>ms_vmas := m'\<rparr>)
      \<and> vmas_ok m' \<and> view m' = (\<lambda>x. if c \<le> x \<and> x < e then map_option (pi_perm_update (\<lambda>_. perm)) (V x) else view (ms_vmas ms) x)"
proof (induction parts arbitrary: c ms changed)
  case Nil
  have "c = e"
  proof (rule ccontr)
    assume "c \<noteq> e"
    then have "c < e" using Nil.prems(2) by simp
    from affected_step [OF ok this, of pt] Nil.prems(1) show False by (auto simp: map_option_case Let_def split: option.splits if_splits)
  qed
  moreover have "(\<lambda>x. if e \<le> x \<and> x < e then map_option (pi_perm_update (\<lambda>_. perm)) (V x) else view (ms_vmas ms) x) = view (ms_vmas ms)"
    by (intro ext) auto
  moreover have "protect_pages fl e e ms = ms" by (intro memory_set.equality ext) (auto simp: protect_pages_def)
  ultimately show ?case using Nil.prems(3) by (intro exI [of _ "ms_vmas ms"]) simp
next
  case (Cons p parts)
  have c: "c < e" using Cons.prems(1) by (cases "c < e") (auto simp: affected.simps [of pt m0 c e])
  obtain v where f: "find_vma_containing m0 c = Some v" "p = (start_vpn v, c, min (end_vpn v) e)" "affected pt m0 (min (end_vpn v) e) e = Some parts"
    using Cons.prems(1) affected_step [OF ok c, of pt] by (auto simp: Let_def split: option.splits if_splits)
  have v: "v \<in> areas m0" "contains_vpn v c" using f(1) find_containing_iff [OF ok] by auto
  define c' where "c' = min (end_vpn v) e"
  have cc: "c < c'" "c' \<le> e" "c' \<le> end_vpn v" "start_vpn v \<le> c" using v(2) c by (auto simp: c'_def contains_vpn_def)
  have vm: "v \<in> areas (ms_vmas ms)" using Cons.prems(4) v by (simp add: contains_vpn_def)
  obtain r m1 where rm: "om_remove (start_vpn v) (ms_vmas ms) = (r, m1)" by fastforce
  then have r: "r = Some v" using remove_ok(3) [OF Cons.prems(3) rm] vm by blast
  note t = take_area [OF Cons.prems(3) rm [unfolded r]]
  let ?ms1 = "ms\<lparr>ms_vmas := m1\<rparr>"
  have vm1: "ms_vmas ?ms1 = m1" by simp
  have "aside v (ms_vmas ?ms1)" using t(3) by simp
  from mprotect_area_spec [OF this cc(4,1,3), of A perm, unfolded vm1] obtain m2 k where
    u: "mprotect_area A perm v c c' ?ms1 = Some (k, (protect_pages fl c c' ?ms1)\<lparr>ms_vmas := m2\<rparr>)" "vmas_ok m2"
      "view m2 = (\<lambda>x. if c \<le> x \<and> x < c' then Some ((page_view v x)\<lparr>pi_perm := perm\<rparr>) else held v m1 x)" "areas m1 \<subseteq> areas m2"
    unfolding fl by blast
  let ?ms2 = "(protect_pages fl c c' ms)\<lparr>ms_vmas := m2\<rparr>"
  have run: "mprotect_areas A perm (p # parts) ms changed = mprotect_areas A perm parts ?ms2 (changed @ [k])"
    using rm r u(1) f(2) by (simp add: c'_def [symmetric] protect_pages_vmas)
  have pv: "Some ((page_view v x)\<lparr>pi_perm := perm\<rparr>) = map_option (pi_perm_update (\<lambda>_. perm)) (V x)" if "c \<le> x" "x < c'" for x
    using that cc v(1) find_containing_iff [OF ok, of x v] by (simp add: V view_def contains_vpn_def)
  have v2: "view m2 x = (if c \<le> x \<and> x < c' then map_option (pi_perm_update (\<lambda>_. perm)) (V x) else view (ms_vmas ms) x)" for x
    using u(3) t(4) pv by simp
  have ar: "\<forall>w\<in>areas m0. c' < end_vpn w \<longrightarrow> w \<in> areas m2" if "c' < e"
    using that Cons.prems(4) cc(1) t(5) u(4) by (auto simp: c'_def)
  have vw: "\<forall>x\<ge>c'. view m2 x = V x" using v2 Cons.prems(5) cc(1) by auto
  show ?case
  proof (cases "c' < e")
    case False
    then have "c' = e" using cc(2) by simp
    moreover from this have "parts = []" using f(3) by (simp add: c'_def [symmetric] affected.simps)
    ultimately show ?thesis using run u(2) v2 by (intro exI [of _ m2]) (simp add: fun_eq_iff)
  next
    case True
    have m2: "ms_vmas ?ms2 = m2" by simp
    obtain m' cs where ih: "mprotect_areas A perm parts ?ms2 (changed @ [k]) = (Some cs, (protect_pages fl c' e ?ms2)\<lparr>ms_vmas := m'\<rparr>)"
      "vmas_ok m'" "view m' = (\<lambda>x. if c' \<le> x \<and> x < e then map_option (pi_perm_update (\<lambda>_. perm)) (V x) else view m2 x)"
      using Cons.IH [OF f(3) [folded c'_def] cc(2), where ms = ?ms2 and changed = "changed @ [k]", unfolded m2, OF u(2) ar [OF True] vw] by blast
    have "(protect_pages fl c' e ?ms2)\<lparr>ms_vmas := m'\<rparr> = (protect_pages fl c e ms)\<lparr>ms_vmas := m'\<rparr>"
      using protect_pages_append [of c c' e fl ms] cc by (simp add: protect_pages_vmas)
    moreover have "view m' = (\<lambda>x. if c \<le> x \<and> x < e then map_option (pi_perm_update (\<lambda>_. perm)) (V x) else view (ms_vmas ms) x)"
      using ih(3) v2 cc by (auto simp: fun_eq_iff)
    ultimately show ?thesis using run ih(1,2) by (intro exI [of _ m'] exI [of _ cs]) simp
  qed
qed

lemma mprotect_spec:
  fixes start_va end_va ms
  defines "s \<equiv> va_floor start_va" and "e \<equiv> va_ceil end_va" and "V \<equiv> view (ms_vmas ms)"
  assumes "vmas_ok (ms_vmas ms)"
  shows "\<not> (\<forall>x. s \<le> x \<and> x < e \<longrightarrow> user_page (V x) \<and> user_entry (ms_pt ms x)) \<Longrightarrow> mprotect_range A start_va end_va perm ms = (False, ms)"
    and "\<forall>x. s \<le> x \<and> x < e \<longrightarrow> user_page (V x) \<and> user_entry (ms_pt ms x) \<Longrightarrow>
      \<exists>m'. mprotect_range A start_va end_va perm ms = (True, (protect_pages (map_perm_to_pte_flags A perm) s e ms)\<lparr>ms_vmas := m'\<rparr>)
        \<and> vmas_ok m' \<and> view m' = (\<lambda>x. if s \<le> x \<and> x < e then map_option (pi_perm_update (\<lambda>_. perm)) (V x) else V x)"
proof -
  note a = affected_iff [OF assms(4), of "ms_pt ms" s e, folded V_def]
  show "mprotect_range A start_va end_va perm ms = (False, ms)" if "\<not> (\<forall>x. s \<le> x \<and> x < e \<longrightarrow> user_page (V x) \<and> user_entry (ms_pt ms x))"
  proof -
    have "affected (ms_pt ms) (ms_vmas ms) s e = None" using that a by blast
    then show ?thesis by (simp add: mprotect_range_def s_def e_def)
  qed
  assume "\<forall>x. s \<le> x \<and> x < e \<longrightarrow> user_page (V x) \<and> user_entry (ms_pt ms x)"
  then obtain parts where p: "affected (ms_pt ms) (ms_vmas ms) s e = Some parts" using a by auto
  obtain m1 cs where m1: "mprotect_areas A perm parts ms [] = (Some cs, (protect_pages (map_perm_to_pte_flags A perm) s e ms)\<lparr>ms_vmas := m1\<rparr>)"
    "vmas_ok m1" "view m1 = (\<lambda>x. if s \<le> x \<and> x < e then map_option (pi_perm_update (\<lambda>_. perm)) (V x) else V x)"
  proof (cases "s \<le> e")
    case True
    from mprotect_areas_spec [OF assms(4) refl refl p True assms(4), of A perm "[]"] show ?thesis using that unfolding V_def by blast
  next
    case False
    then have "parts = []" using p by (simp add: affected.simps)
    moreover have "protect_pages fl s e ms = ms" for fl using False by (intro memory_set.equality ext) (auto simp: protect_pages_def)
    moreover have "(\<lambda>x. if s \<le> x \<and> x < e then map_option (pi_perm_update (\<lambda>_. perm)) (V x) else V x) = V" using False by (intro ext) auto
    ultimately show ?thesis using that [of "[]" "ms_vmas ms"] assms(4) by (simp add: V_def)
  qed
  obtain m2 where "merge_all cs ((protect_pages (map_perm_to_pte_flags A perm) s e ms)\<lparr>ms_vmas := m1\<rparr>)
      = (protect_pages (map_perm_to_pte_flags A perm) s e ms)\<lparr>ms_vmas := m2\<rparr>" "vmas_ok m2" "view m2 = view m1"
    using merge_all_ok [of "(protect_pages (map_perm_to_pte_flags A perm) s e ms)\<lparr>ms_vmas := m1\<rparr>" cs] m1(2) by auto
  then show "\<exists>m'. mprotect_range A start_va end_va perm ms = (True, (protect_pages (map_perm_to_pte_flags A perm) s e ms)\<lparr>ms_vmas := m'\<rparr>)
        \<and> vmas_ok m' \<and> view m' = (\<lambda>x. if s \<le> x \<and> x < e then map_option (pi_perm_update (\<lambda>_. perm)) (V x) else V x)"
    using p m1 by (intro exI [of _ m2]) (simp add: mprotect_range_def s_def [symmetric] e_def [symmetric])
qed

end
