(* ===== verification/Memory_Set_Props.thy ===== *)
theory Memory_Set_Props
  imports Memory_Set_Ops
begin

unbundle bit_operations_syntax

text \<open>
  The address space as a map from pages to what is known of them, and the operations of \<open>MemorySet\<close> as operations on that map.
  The areas, their splitting and their merging are gone: an operation on a range is exact when it changes the pages of the range
  as the abstract operation does and leaves every other page as it was.
\<close>

record page_map =
  pm_area :: "nat \<Rightarrow> page_info option"
  pm_pte :: "nat \<Rightarrow> (nat \<times> u16) option"
  pm_dirty :: "nat list"

definition ms_abs :: "memory_set \<Rightarrow> page_map" where
  "ms_abs ms = \<lparr>pm_area = view (ms_vmas ms), pm_pte = ms_pt ms, pm_dirty = cache_dirty ms\<rparr>"

definition spec_unmap :: "nat \<Rightarrow> nat \<Rightarrow> page_map \<Rightarrow> release_batch option \<times> page_map" where
  "spec_unmap s e P =
     (if list_all (\<lambda>x. user_page (pm_area P x)) [s..<e]
      then (Some (concat (map (\<lambda>x. released (pm_area P x)) [s..<e])),
            \<lparr>pm_area = (\<lambda>x. if s \<le> x \<and> x < e then None else pm_area P x),
             pm_pte = (\<lambda>x. if s \<le> x \<and> x < e then None else pm_pte P x),
             pm_dirty = pm_dirty P @ concat (map (\<lambda>x. written_back (pm_area P x) (pm_pte P x)) [s..<e])\<rparr>)
      else (None, P))"

definition spec_protect :: "paging_arch \<Rightarrow> u8 \<Rightarrow> nat \<Rightarrow> nat \<Rightarrow> page_map \<Rightarrow> bool \<times> page_map" where
  "spec_protect A perm s e P =
     (if list_all (\<lambda>x. user_page (pm_area P x) \<and> user_entry (pm_pte P x)) [s..<e]
      then (True, P\<lparr>pm_area := (\<lambda>x. if s \<le> x \<and> x < e then map_option (pi_perm_update (\<lambda>_. perm)) (pm_area P x) else pm_area P x),
                    pm_pte := (\<lambda>x. if s \<le> x \<and> x < e
                                   then map_option (\<lambda>(p, _). (p, map_perm_to_pte_flags A perm OR PTE_FLAG_V)) (pm_pte P x) else pm_pte P x)\<rparr>)
      else (False, P))"

text \<open>
  C39. \<open>MemorySet::munmap_deferred\<close> unmaps exactly the pages of the range. On any address space whose areas are well formed and
  disjoint it never panics; when a page of the range has no area of the user it changes nothing and reports failure, and otherwise
  every page of the range loses its area and its entry, the pages held there are handed to the deferred release in ascending order,
  each of them once, dirty pages of shared file mappings are marked, and no other page changes its area, permission, file offset,
  frame or entry, however the areas were split and merged on the way. The areas stay well formed and disjoint.
\<close>

theorem munmap_refines:
  assumes "vmas_ok (ms_vmas ms)"
  shows "\<exists>r ms'. munmap_deferred start_va end_va ms = Some (r, ms') \<and> vmas_ok (ms_vmas ms')
    \<and> (r, ms_abs ms') = spec_unmap (va_floor start_va) (va_ceil end_va) (ms_abs ms)"
proof (cases "\<forall>x. va_floor start_va \<le> x \<and> x < va_ceil end_va \<longrightarrow> user_page (view (ms_vmas ms) x)")
  case True
  from munmap_spec(2) [OF assms this] show ?thesis
    using True by (auto simp: spec_unmap_def ms_abs_def drop_pages_def list_all_iff cong: if_cong)
next
  case False
  then have "munmap_deferred start_va end_va ms = Some (None, ms)" using munmap_spec(1) [OF assms] by blast
  then show ?thesis using False assms by (auto simp: spec_unmap_def ms_abs_def list_all_iff)
qed

text \<open>
  C40. \<open>MemorySet::mprotect_range\<close> changes exactly the permissions of the range. When some page of the range has no area of the
  user, or is mapped without user access, nothing changes and the call fails; otherwise every page of the range carries the new
  permission, the present ones with exactly the flags of that permission and their frame unchanged, and every other page, with the
  pages held by the areas, is as before.
\<close>

theorem mprotect_refines:
  assumes "vmas_ok (ms_vmas ms)"
  shows "vmas_ok (ms_vmas (snd (mprotect_range A start_va end_va perm ms)))
    \<and> map_prod (\<lambda>ok. ok) ms_abs (mprotect_range A start_va end_va perm ms) = spec_protect A perm (va_floor start_va) (va_ceil end_va) (ms_abs ms)"
proof (cases "\<forall>x. va_floor start_va \<le> x \<and> x < va_ceil end_va \<longrightarrow> user_page (view (ms_vmas ms) x) \<and> user_entry (ms_pt ms x)")
  case True
  from mprotect_spec(2) [OF assms this, of A perm] show ?thesis
    using True by (auto simp: spec_protect_def ms_abs_def protect_pages_def list_all_iff cong: if_cong)
next
  case False
  then have "mprotect_range A start_va end_va perm ms = (False, ms)" using mprotect_spec(1) [OF assms] by blast
  then show ?thesis using False assms by (auto simp: spec_protect_def ms_abs_def list_all_iff)
qed

section \<open>An example\<close>

text \<open>An anonymous area of four pages, two of them present, next to a read-only mapping of a file.\<close>

definition ex_space :: memory_set where
  "ex_space = \<lparr>ms_pt = [16 \<mapsto> (900, 0xd7), 17 \<mapsto> (901, 0xd7)],
     ms_vmas =
       [(16, \<lparr>start_vpn = 16, end_vpn = 20, data_frames = [(16, 1), (17, 2)], map_type = Framed, map_perm = 0x16, kind = Anonymous,
              vma_file = None, shared_anon = False, direct_cache_pages = []\<rparr>),
        (20, \<lparr>start_vpn = 20, end_vpn = 22, data_frames = [], map_type = Framed, map_perm = 0x12, kind = File,
              vma_file = Some \<lparr>fv_file = 5, pgoff = 3, fv_shared = False\<rparr>, shared_anon = False, direct_cache_pages = []\<rparr>)],
     cache_dirty = []\<rparr>"

lemma ex_space_ok: "vmas_ok (ms_vmas ex_space)"
  by (simp add: ex_space_def vmas_ok_def areas_ok_def areas_def om_ok_def vma_ok_def apart_def)

theorem munmap_refines_witness:
  "vmas_ok (ms_vmas ex_space)
    \<and> (\<exists>ms'. munmap_deferred 0x11000 0x15000 ex_space = Some (Some [Private 2], ms') \<and> vmas_ok (ms_vmas ms')
          \<and> map (\<lambda>x. map_option pi_file (pm_area (ms_abs ms') x)) [16..<22] = [Some None, None, None, None, None, Some (Some (5, 4, False))])"
proof -
  have s: "fst (spec_unmap 17 21 (ms_abs ex_space)) = Some [Private 2]"
    "map (\<lambda>x. map_option pi_file (pm_area (snd (spec_unmap 17 21 (ms_abs ex_space))) x)) [16..<22] = [Some None, None, None, None, None, Some (Some (5, 4, False))]"
    by code_simp+
  have "va_floor 0x11000 = 17" "va_ceil 0x15000 = 21" by code_simp+
  then obtain r ms' where "munmap_deferred 0x11000 0x15000 ex_space = Some (r, ms')" "vmas_ok (ms_vmas ms')"
    "(r, ms_abs ms') = spec_unmap 17 21 (ms_abs ex_space)"
    using munmap_refines [OF ex_space_ok, of "0x11000" "0x15000"] by auto
  then show ?thesis using ex_space_ok s by (intro conjI exI [of _ ms']) (metis fst_conv snd_conv)+
qed

theorem mprotect_refines_witness:
  "vmas_ok (ms_vmas ex_space)
    \<and> map (\<lambda>x. map_option pi_perm (pm_area (ms_abs (snd (mprotect_range sv39 0x11000 0x13000 0x12 ex_space))) x)) [16..<22]
        = [Some 0x16, Some 0x12, Some 0x12, Some 0x16, Some 0x12, Some 0x12]"
proof -
  have s: "map (\<lambda>x. map_option pi_perm (pm_area (snd (spec_protect sv39 0x12 17 19 (ms_abs ex_space))) x)) [16..<22]
      = [Some 0x16, Some 0x12, Some 0x12, Some 0x16, Some 0x12, Some 0x12]"
    by code_simp
  have "va_floor 0x11000 = 17" "va_ceil 0x13000 = 19" by code_simp+
  then have "map_prod (\<lambda>ok. ok) ms_abs (mprotect_range sv39 0x11000 0x13000 0x12 ex_space) = spec_protect sv39 0x12 17 19 (ms_abs ex_space)"
    using mprotect_refines [OF ex_space_ok, of sv39 "0x11000" "0x13000" "0x12"] by simp
  then have "ms_abs (snd (mprotect_range sv39 0x11000 0x13000 0x12 ex_space)) = snd (spec_protect sv39 0x12 17 19 (ms_abs ex_space))"
    by (metis snd_map_prod)
  then show ?thesis using ex_space_ok s by simp
qed

end
