(* ===== verification/Spec2Isabelle.thy ===== *)
theory Spec2Isabelle
  imports Deadlock Errno_Tables Pipe EventFd Signal_Delivery Kernel_Spaces Scheduler_Props Boot_Props Memory_Set_Props
begin

text \<open>
  Verification of the CosmOS kernel, a Rust kernel for RISC-V (Sv39) and LoongArch machines. All file names are relative
  to \<open>src/\<close>.

  \<^bold>\<open>The parts and how they interact.\<close> At boot \<open>os/src/bootinfo.rs\<close> reads the device tree the firmware passes and
  records regions of memory, reserved ranges and the number of harts. \<open>os/src/mm/frame_allocator.rs\<close> takes the usable
  regions and hands out physical frames; page tables (\<open>os/src/mm/page_table.rs\<close> over the architectures in
  \<open>os/src/hal\<close>), kernel stacks (\<open>os/src/task/id.rs\<close>) and address spaces (\<open>os/src/mm/memory_set.rs\<close>) are made of them.
  Freed kernel ranges wait in \<open>os/src/mm/tlb_shootdown.rs\<close> until every hart has flushed them. Tasks have ids from recycling
  allocators and are scheduled on several harts by \<open>os/src/sched\<close>. They talk through pipes and eventfds (\<open>os/src/fs\<close>), lock
  with a deadlock detector (\<open>os/src/sync/deadlock.rs\<close>) and receive signals (\<open>os/src/task/signal.rs\<close>, \<open>os/src/task/action.rs\<close>)
  on their way back to user mode. System calls answer with the error numbers of \<open>os/src/syscall/errno.rs\<close>.

  \<^bold>\<open>Conventions.\<close> The kernel is built in release mode: machine integers wrap and debug assertions are not executed, while
  failed assertions, unwraps and indices out of range panic. A value that is only counted or compared is a \<open>nat\<close> with the
  saturating and wrapping operations of \<open>Kernel_Prelude\<close> written out; flags, entries of page tables and 64-bit counters are words.
  A panic is \<open>None\<close>, an error the left side of a sum. A section of code that runs under a lock is one step; between
  steps other tasks or harts may act, and statements about runs quantify over all sequences of steps. Code that is not part of
  the repository, and hardware, are arguments of the definitions.

  \<^bold>\<open>Interfaces.\<close> A contract that several parts share is a locale, interpreted on the definitions of the kernel:
  \<^item> \<open>resource_allocator\<close> (\<open>Alloc_Interface\<close>): no resource has two holders, whatever the order of requests and releases;
    instances are the id allocators and the frame allocator.
  \<^item> \<open>byte_queue\<close> (\<open>Byte_Queue\<close>): the transfer loops of the pipe over any queue of bytes; the instance is its ring buffer.
  \<^item> \<open>paging\<close> (\<open>Paging_Arch\<close>): what page tables rely on in an architecture; instances are Sv39 and LoongArch.
  \<^item> \<open>frame_source\<close> and \<open>page_tables\<close> (\<open>Address_Space\<close>): what page tables rely on in a source of frames, and what a page table
    then promises; the instance is the frame allocator of the kernel on both architectures (\<open>Kernel_Spaces\<close>).
  \<^item> \<open>ordered_map\<close> (\<open>Ordered_Map\<close>): the laws of \<open>BTreeMap\<close>, for the fair tasks of a run queue and the areas of an address space.

  \<^bold>\<open>Theories.\<close>
  \<^item> \<open>Kernel_Prelude\<close>: integers, indices, loops that may panic, little-endian numbers.
  \<^item> \<open>Task_Ids\<close>: \<open>RecycleAllocator\<close> with the pid and thread-id handles (\<open>os/src/task/id.rs\<close>); live ids differ, pid 0 stays reserved.
  \<^item> \<open>Deferred_Recycle\<close>: the sorted list of released kernel ranges (\<open>os/src/mm/tlb_shootdown.rs\<close>), exact for the query \<open>needs_flush\<close>.
  \<^item> \<open>Kernel_Stacks\<close>: placement, cache and deferred release of kernel stacks on RISC-V.
  \<^item> \<open>Buddy_Bitmap\<close>, \<open>Frame_Allocator\<close>: the state and operations of \<open>BuddyFrameAllocator\<close>, its free lists threaded through the free frames
    and its bitmap. \<open>Frame_Lists\<close>: the links represent lists. \<open>Frame_Buddy\<close>: allocation and merging release are exact on the set of free frames.
    \<open>Frames\<close>: set-up from usable regions, the contract, contiguous allocation, and what happens when regions touch.
  \<^item> \<open>Boot_Info\<close>: the tables of \<open>BootInfo\<close> and the subtraction of reserved ranges. \<open>Fdt\<close>: the device tree parser over partial memory, in which a
    read of an address that nothing backs is a fault. \<open>Fdt_Loops\<close>: the parser ends on every memory.
    \<open>Fdt_Tree\<close>, \<open>Fdt_Blob\<close>: flattened trees, and that parsing one is a walk over it. \<open>Boot_Init\<close>: the platforms and \<open>init\<close>.
    \<open>Boot_Props\<close>: from the tree to the free frames of the allocator.
  \<^item> \<open>Paging_Arch\<close>: \<open>PagingArch\<close> of \<open>os/src/hal/traits.rs\<close> with both implementations and the range flush. \<open>Page_Table\<close>: walks,
    changes of entries, user buffers and strings. \<open>Address_Space\<close>: a table is a map from pages to entries, and two tables are two maps.
    \<open>User_Buffers\<close>: slices and iterators over user memory. \<open>Kernel_Spaces\<close>: the same with the kernel's frames.
  \<^item> \<open>Vma\<close>, \<open>Vma_Table\<close>: areas and their ordered table (\<open>os/src/mm/memory_set.rs\<close>). \<open>Memory_Set\<close>: unmapping and changing
    permissions. \<open>Memory_Set_Ops\<close>, \<open>Memory_Set_Props\<close>: both as operations on a map from pages to their areas, permissions and entries.
  \<^item> \<open>Sched_Policy\<close>, \<open>Run_Queue\<close>: attributes and the run queue of one hart. \<open>Run_Queue_Ok\<close>, \<open>Run_Queue_Props\<close>: its invariant and the choice of
    the next task. \<open>Scheduler\<close>: the locked sections of \<open>os/src/sched\<close> on several harts as events. \<open>Scheduler_Inv\<close>, \<open>Scheduler_Steps\<close>,
    \<open>Scheduler_Safe\<close>: each task has at most one owner in every ordinary run. \<open>Scheduler_Races\<close>: changing the priority of a task that is being taken, and
    killing a thread that goes to sleep. \<open>Scheduler_Props\<close>: the statements.
  \<^item> \<open>Deadlock\<close>: the detector is the banker's criterion; records in the wrong order.
  \<^item> \<open>Errno\<close>, \<open>Errno_Tables\<close>: both error enums and the conversion between them.
  \<^item> \<open>Byte_Queue\<close>, \<open>Pipe\<close>: the ring buffer and the critical sections of all transfers, with interleaved calls. \<open>EventFd\<close>: the counter.
  \<^item> \<open>Signals\<close>, \<open>Signal_Delivery\<close>: sets, actions, masks, posting, and the choice of a signal on the return to user mode.

  \<^bold>\<open>Bounds and fuel.\<close> Loops that end for a structural reason are recursive functions with a termination proof; \<open>fdt_loop\<close>
  and \<open>reserve_loop\<close>, whose end depends on memory, are partial functions, and \<open>boot_info_ends\<close> shows that they end.
  The calls of a pipe run for a number of rounds given as an argument, and the statements say which number is enough.
  Statements about the frame allocator ask for usable regions that are in order, do not touch and lie within 4 GiB of each other
  (\<open>boot_ok\<close>), because the code panics or indexes out of its bitmap otherwise (\<open>touching_regions_panic\<close>,
  \<open>bitmap_overflow_at_full_span\<close>). Fewer than \<open>2 ^ 40\<close> tasks exist. Runs of the scheduler are ordinary: no priority
  changes after creation and no thread is killed by another, because the invariants do not survive either
  (\<open>setpriority_requeues_running_task\<close>, \<open>killed_task_runs_again\<close>).

  \<^bold>\<open>Simplifications.\<close> In the scheduler a search that takes one lock after the other is one event, and every task may run on every hart.
  In address spaces the page table is the map that \<open>Address_Space\<close> shows it to implement, without address-space ids, and a
  page object or a file is a number. The return to user mode is modelled as far as it decides about signals. Allocating a frame does
  not retry after a reclaim of the page cache. Kernel stacks use the address space of the kernel through two functions.

  \<^bold>\<open>Not modelled.\<close> Page faults, copy on write and fork, the ELF loader, processes and the file systems, the network stack, drivers, traps and
  system call dispatch, timers, the heap and the primitives of synchronisation: they are hardware access, dispatch over trait
  objects or calls into third-party code, or build on parts that are. The feature \<open>cosmos-meminfo\<close> is off.
\<close>

end
